(* ===== verification/Prelude.thy ===== *)
theory Prelude
  imports Main "HOL-Library.Word" "HOL-Library.Monad_Syntax" "HOL-Library.Multiset"
begin

unbundle bit_operations_syntax

text \<open>
  Shared vocabulary of the development: machine integers, the kernel-panic monad and the
  generic lemmas on lists and words that the component theories use.

  A kernel function that can hit a failed \<^verbatim>\<open>ASSERT\<close> or a \<^verbatim>\<open>PANIC\<close>
  (src/pintos/src/lib/debug.h, src/pintos/src/lib/kernel/debug.c) never returns to its caller.
  Such a function has an \<^typ>\<open>'a option\<close> result here: \<^term>\<open>None\<close> is "the kernel
  panicked, or the call does not return", \<^term>\<open>Some r\<close> is "it returned \<^term>\<open>r\<close>".
  Properties that say a call succeeds are stated with \<^term>\<open>Some\<close>, so they include
  the absence of panics and termination.
\<close>

section \<open>Machine integers\<close>

type_synonym u8 = "8 word"
type_synonym u16 = "16 word"
type_synonym u32 = "32 word"
type_synonym u64 = "64 word"

text \<open>Addresses of list nodes; the null pointer is address 0.\<close>

type_synonym addr = nat

abbreviation (input) NULL :: addr where
  "NULL \<equiv> 0"

text \<open>The number of values of a 32-bit \<^verbatim>\<open>size_t\<close>.\<close>

abbreviation (input) SIZE_MOD :: nat where
  "SIZE_MOD \<equiv> 4294967296"

section \<open>Assertions\<close>

definition ASSERT :: "bool \<Rightarrow> unit option" where
  "ASSERT c = (if c then Some () else None)"

lemma ASSERT_bind [simp]:
  "Option.bind (ASSERT c) f = (if c then f () else None)"
  by (simp add: ASSERT_def)

lemma ASSERT_eq_Some [simp]: "ASSERT c = Some u \<longleftrightarrow> c"
  by (simp add: ASSERT_def)

lemma ASSERT_simps [simp]: "ASSERT True = Some ()" "ASSERT False = None"
  by (simp_all add: ASSERT_def)

lemma bind_eq_SomeD:
  "Option.bind m f = Some r \<Longrightarrow> \<exists>x. m = Some x \<and> f x = Some r"
  by (simp add: Option.bind_eq_Some_conv)

section \<open>Rounding (src/pintos/src/lib/round.h)\<close>

definition ROUND_UP :: "nat \<Rightarrow> nat \<Rightarrow> nat" where
  "ROUND_UP x step = (x + step - 1) div step * step"

definition DIV_ROUND_UP :: "nat \<Rightarrow> nat \<Rightarrow> nat" where
  "DIV_ROUND_UP x step = (x + step - 1) div step"

definition ROUND_DOWN :: "nat \<Rightarrow> nat \<Rightarrow> nat" where
  "ROUND_DOWN x step = x div step * step"

lemma DIV_ROUND_UP_le_iff:
  assumes "0 < step"
  shows "DIV_ROUND_UP x step \<le> k \<longleftrightarrow> x \<le> k * step"
proof -
  have "DIV_ROUND_UP x step \<le> k \<longleftrightarrow> (x + step - 1) div step < Suc k"
    by (auto simp: DIV_ROUND_UP_def)
  also have "\<dots> \<longleftrightarrow> x + step - 1 < Suc k * step"
    using assms by (simp add: div_less_iff_less_mult)
  also have "\<dots> \<longleftrightarrow> x \<le> k * step"
    using assms by auto
  finally show ?thesis .
qed

lemma less_DIV_ROUND_UP_iff:
  "0 < step \<Longrightarrow> k < DIV_ROUND_UP x step \<longleftrightarrow> k * step < x"
  using DIV_ROUND_UP_le_iff [of step x k] by auto

section \<open>Searches\<close>

lemma all_ge_Suc: "(\<forall>j\<ge>i::nat. P j) \<longleftrightarrow> P i \<and> (\<forall>j\<ge>Suc i. P j)"
  unfolding Suc_le_eq using le_less by blast

lemma all_between_Suc: "P (i::nat) \<Longrightarrow> (\<forall>j. i \<le> j \<and> j < r \<longrightarrow> P j) \<longleftrightarrow> (\<forall>j. Suc i \<le> j \<and> j < r \<longrightarrow> P j)"
  unfolding Suc_le_eq using le_less by blast

section \<open>Comparison functions\<close>

text \<open>
  What the kernel's sorting and hashing code needs of a \<^verbatim>\<open>list_less_func\<close> or
  \<^verbatim>\<open>hash_less_func\<close>: a strict weak order. Elements neither of which is less than the other
  count as equal.
\<close>

locale strict_weak_order =
  fixes lt :: "'a \<Rightarrow> 'a \<Rightarrow> bool"
  assumes asym: "lt x y \<Longrightarrow> \<not> lt y x"
    and negtrans: "\<not> lt x y \<Longrightarrow> \<not> lt y z \<Longrightarrow> \<not> lt x z"
begin

lemma irrefl: "\<not> lt x x"
  using asym by blast

lemma lt_trans: "lt x y \<Longrightarrow> lt y z \<Longrightarrow> lt x z"
  using asym negtrans by blast

lemma le_lt_trans: "\<not> lt y x \<Longrightarrow> lt y z \<Longrightarrow> lt x z"
  using negtrans by blast

lemma lt_le_trans: "lt x y \<Longrightarrow> \<not> lt z y \<Longrightarrow> lt x z"
  using negtrans by blast

lemma successively_sorted:
  "successively (\<lambda>x y. \<not> lt y x) xs \<longleftrightarrow> sorted_wrt (\<lambda>x y. \<not> lt y x) xs"
  by (rule successively_conv_sorted_wrt, rule transpI) (use negtrans in blast)

end

lemma strict_weak_order_key:
  fixes key :: "'a \<Rightarrow> 'k :: linorder"
  shows "strict_weak_order (\<lambda>a b. key a < key b)" "strict_weak_order (\<lambda>a b. key a > key b)"
  by (unfold_locales, auto)

section \<open>Queues\<close>

text \<open>
  The contract of the first-in first-out structures of the kernel: \<open>rep s xs\<close> reads the state \<open>s\<close>
  as a queue holding \<open>xs\<close>, \<open>room e xs\<close> says that \<open>e\<close> may be added to it.
\<close>

locale fifo =
  fixes rep :: "'s \<Rightarrow> 'e list \<Rightarrow> bool"
    and room :: "'e \<Rightarrow> 'e list \<Rightarrow> bool"
    and put :: "'s \<Rightarrow> 'e \<Rightarrow> 's option"
    and get :: "'s \<Rightarrow> ('e \<times> 's) option"
  assumes put: "rep s xs \<Longrightarrow> room e xs \<Longrightarrow> \<exists>s'. put s e = Some s' \<and> rep s' (xs @ [e])"
    and get: "rep s (x # xs) \<Longrightarrow> \<exists>s'. get s = Some (x, s') \<and> rep s' xs"

fun put_all :: "('s \<Rightarrow> 'e \<Rightarrow> 's option) \<Rightarrow> 's \<Rightarrow> 'e list \<Rightarrow> 's option" where
  "put_all put s [] = Some s"
| "put_all put s (e # es) = do { s \<leftarrow> put s e; put_all put s es }"

fun get_all :: "('s \<Rightarrow> ('e \<times> 's) option) \<Rightarrow> 's \<Rightarrow> nat \<Rightarrow> ('e list \<times> 's) option" where
  "get_all get s 0 = Some ([], s)"
| "get_all get s (Suc n) = do { (e, s) \<leftarrow> get s; (es, s) \<leftarrow> get_all get s n; Some (e # es, s) }"

fun room_all :: "('e \<Rightarrow> 'e list \<Rightarrow> bool) \<Rightarrow> 'e list \<Rightarrow> 'e list \<Rightarrow> bool" where
  "room_all room [] xs \<longleftrightarrow> True"
| "room_all room (e # es) xs \<longleftrightarrow> room e xs \<and> room_all room es (xs @ [e])"

context fifo
begin

lemma put_all_rep:
  "rep s xs \<Longrightarrow> room_all room es xs \<Longrightarrow> \<exists>s'. put_all put s es = Some s' \<and> rep s' (xs @ es)"
proof (induction es arbitrary: s xs)
  case (Cons e es)
  then obtain s1 where "put s e = Some s1" "rep s1 (xs @ [e])"
    using put by fastforce
  then show ?case
    using Cons.IH [of s1 "xs @ [e]"] Cons.prems by simp
qed simp

lemma get_all_rep:
  "rep s (xs @ ys) \<Longrightarrow> \<exists>s'. get_all get s (length xs) = Some (xs, s') \<and> rep s' ys"
proof (induction xs arbitrary: s)
  case (Cons x xs)
  then obtain s1 where "get s = Some (x, s1)" "rep s1 (xs @ ys)"
    using get by fastforce
  then show ?case
    using Cons.IH by fastforce
qed simp

lemma put_all_get_all:
  assumes "rep s xs" "room_all room es xs"
  shows "\<exists>s1 s2. put_all put s es = Some s1 \<and> get_all get s1 (length xs + length es) = Some (xs @ es, s2) \<and>
    rep s2 []"
  using put_all_rep [OF assms] get_all_rep [of _ "xs @ es" "[]"] by fastforce

end

end
