(* ===== verification/Kernel_List.thy ===== *)
theory Kernel_List
  imports Prelude
begin

text \<open>
  The kernel's doubly linked lists, src/pintos/src/lib/kernel/list.c.

  The links live in an explicit store \<open>links\<close>: two functions from node addresses
  to node addresses, one per pointer field of \<^verbatim>\<open>struct list_elem\<close>. Every operation is
  the sequence of pointer assignments of the C code, so aliasing between its arguments is
  visible. Loops are \<^theory_text>\<open>partial_function\<close>s: on a corrupted (cyclic) list they
  need not return. The comparison function and its auxiliary argument are the parameter
  \<open>lt\<close>; a model function is never the null pointer, so \<^verbatim>\<open>ASSERT (less != NULL)\<close>
  has no counterpart.

  The second half relates the store to HOL lists: \<open>wf_chain m ps\<close> says that the
  nodes \<open>ps\<close> form one well-linked chain, \<open>is_list m l xs\<close> that the list
  object at \<open>l\<close> has exactly the elements \<open>xs\<close>, in order.
\<close>

section \<open>The store and the operations of list.c\<close>

record links =
  prev_of :: "addr \<Rightarrow> addr"
  next_of :: "addr \<Rightarrow> addr"

definition set_prev :: "links \<Rightarrow> addr \<Rightarrow> addr \<Rightarrow> links" where
  "set_prev m a v = m\<lparr>prev_of := (prev_of m)(a := v)\<rparr>"

definition set_next :: "links \<Rightarrow> addr \<Rightarrow> addr \<Rightarrow> links" where
  "set_next m a v = m\<lparr>next_of := (next_of m)(a := v)\<rparr>"

text \<open>
  \<^verbatim>\<open>struct list\<close> is two consecutive 8-byte nodes: the head at the address of the list
  and the tail 8 bytes behind it.
\<close>

definition head_node :: "addr \<Rightarrow> addr" where
  "head_node l = l"

definition tail_node :: "addr \<Rightarrow> addr" where
  "tail_node l = l + 8"

definition is_head :: "links \<Rightarrow> addr \<Rightarrow> bool" where
  "is_head m elem \<longleftrightarrow> elem \<noteq> NULL \<and> prev_of m elem = NULL \<and> next_of m elem \<noteq> NULL"

definition is_interior :: "links \<Rightarrow> addr \<Rightarrow> bool" where
  "is_interior m elem \<longleftrightarrow> elem \<noteq> NULL \<and> prev_of m elem \<noteq> NULL \<and> next_of m elem \<noteq> NULL"

definition is_tail :: "links \<Rightarrow> addr \<Rightarrow> bool" where
  "is_tail m elem \<longleftrightarrow> elem \<noteq> NULL \<and> prev_of m elem \<noteq> NULL \<and> next_of m elem = NULL"

definition list_init :: "links \<Rightarrow> addr \<Rightarrow> links option" where
  "list_init m l = do {
     ASSERT (l \<noteq> NULL);
     let m = set_prev m (head_node l) NULL;
     let m = set_next m (head_node l) (tail_node l);
     let m = set_prev m (tail_node l) (head_node l);
     let m = set_next m (tail_node l) NULL;
     Some m }"

definition list_begin :: "links \<Rightarrow> addr \<Rightarrow> addr option" where
  "list_begin m l = do { ASSERT (l \<noteq> NULL); Some (next_of m (head_node l)) }"

definition list_next :: "links \<Rightarrow> addr \<Rightarrow> addr option" where
  "list_next m elem = do { ASSERT (is_head m elem \<or> is_interior m elem); Some (next_of m elem) }"

definition list_end :: "addr \<Rightarrow> addr option" where
  "list_end l = do { ASSERT (l \<noteq> NULL); Some (tail_node l) }"

definition list_rbegin :: "links \<Rightarrow> addr \<Rightarrow> addr option" where
  "list_rbegin m l = do { ASSERT (l \<noteq> NULL); Some (prev_of m (tail_node l)) }"

definition list_prev :: "links \<Rightarrow> addr \<Rightarrow> addr option" where
  "list_prev m elem = do { ASSERT (is_interior m elem \<or> is_tail m elem); Some (prev_of m elem) }"

definition list_rend :: "addr \<Rightarrow> addr option" where
  "list_rend l = do { ASSERT (l \<noteq> NULL); Some (head_node l) }"

definition list_head :: "addr \<Rightarrow> addr option" where
  "list_head l = do { ASSERT (l \<noteq> NULL); Some (head_node l) }"

definition list_tail :: "addr \<Rightarrow> addr option" where
  "list_tail l = do { ASSERT (l \<noteq> NULL); Some (tail_node l) }"

definition list_insert :: "links \<Rightarrow> addr \<Rightarrow> addr \<Rightarrow> links option" where
  "list_insert m before elem = do {
     ASSERT (is_interior m before \<or> is_tail m before);
     ASSERT (elem \<noteq> NULL);
     let m = set_prev m elem (prev_of m before);
     let m = set_next m elem before;
     let m = set_next m (prev_of m before) elem;
     let m = set_prev m before elem;
     Some m }"

definition list_splice :: "links \<Rightarrow> addr \<Rightarrow> addr \<Rightarrow> addr \<Rightarrow> links option" where
  "list_splice m before first lst = do {
     ASSERT (is_interior m before \<or> is_tail m before);
     if first = lst then Some m else do {
       lst \<leftarrow> list_prev m lst;
       ASSERT (is_interior m first);
       ASSERT (is_interior m lst);
       let m = set_next m (prev_of m first) (next_of m lst);
       let m = set_prev m (next_of m lst) (prev_of m first);
       let m = set_prev m first (prev_of m before);
       let m = set_next m lst before;
       let m = set_next m (prev_of m before) first;
       let m = set_prev m before lst;
       Some m } }"

definition list_push_front :: "links \<Rightarrow> addr \<Rightarrow> addr \<Rightarrow> links option" where
  "list_push_front m l elem = do { b \<leftarrow> list_begin m l; list_insert m b elem }"

definition list_push_back :: "links \<Rightarrow> addr \<Rightarrow> addr \<Rightarrow> links option" where
  "list_push_back m l elem = do { e \<leftarrow> list_end l; list_insert m e elem }"

definition list_remove :: "links \<Rightarrow> addr \<Rightarrow> (addr \<times> links) option" where
  "list_remove m elem = do {
     ASSERT (is_interior m elem);
     let m = set_next m (prev_of m elem) (next_of m elem);
     let m = set_prev m (next_of m elem) (prev_of m elem);
     Some (next_of m elem, m) }"

definition list_empty :: "links \<Rightarrow> addr \<Rightarrow> bool option" where
  "list_empty m l = do { b \<leftarrow> list_begin m l; e \<leftarrow> list_end l; Some (b = e) }"

definition list_front :: "links \<Rightarrow> addr \<Rightarrow> addr option" where
  "list_front m l = do { e \<leftarrow> list_empty m l; ASSERT (\<not> e); Some (next_of m (head_node l)) }"

definition list_back :: "links \<Rightarrow> addr \<Rightarrow> addr option" where
  "list_back m l = do { e \<leftarrow> list_empty m l; ASSERT (\<not> e); Some (prev_of m (tail_node l)) }"

definition list_pop_front :: "links \<Rightarrow> addr \<Rightarrow> (addr \<times> links) option" where
  "list_pop_front m l = do {
     front \<leftarrow> list_front m l;
     (_, m) \<leftarrow> list_remove m front;
     Some (front, m) }"

definition list_pop_back :: "links \<Rightarrow> addr \<Rightarrow> (addr \<times> links) option" where
  "list_pop_back m l = do {
     back \<leftarrow> list_back m l;
     (_, m) \<leftarrow> list_remove m back;
     Some (back, m) }"

text \<open>
  The count of \<^verbatim>\<open>list_size\<close> is a \<^verbatim>\<open>size_t\<close>; distinct 8-byte nodes in a 32-bit address
  space are fewer than \<open>2 ^ 32\<close>, so it is kept as a natural number.
\<close>

partial_function (option) list_size_loop :: "links \<Rightarrow> addr \<Rightarrow> addr \<Rightarrow> nat \<Rightarrow> nat option" where
  "list_size_loop m e lst cnt =
     (if e \<noteq> lst
      then do { e \<leftarrow> list_next m e; list_size_loop m e lst (cnt + 1) }
      else Some cnt)"

definition list_size :: "links \<Rightarrow> addr \<Rightarrow> nat option" where
  "list_size m l = do { b \<leftarrow> list_begin m l; e \<leftarrow> list_end l; list_size_loop m b e 0 }"

text \<open>
  \<^verbatim>\<open>swap\<close> exchanges the contents of two pointer variables; here the two fields of one
  node, and the \<open>next\<close> field of one node with the \<open>prev\<close> field of another.
\<close>

definition swap_links :: "links \<Rightarrow> addr \<Rightarrow> links" where
  "swap_links m e =
     (let t = prev_of m e;
          m = set_prev m e (next_of m e)
      in set_next m e t)"

definition swap_next_prev :: "links \<Rightarrow> addr \<Rightarrow> addr \<Rightarrow> links" where
  "swap_next_prev m a b =
     (let t = next_of m a;
          m = set_next m a (prev_of m b)
      in set_prev m b t)"

definition swap_prev_next :: "links \<Rightarrow> addr \<Rightarrow> addr \<Rightarrow> links" where
  "swap_prev_next m a b =
     (let t = prev_of m a;
          m = set_prev m a (next_of m b)
      in set_next m b t)"

partial_function (option) list_reverse_loop :: "links \<Rightarrow> addr \<Rightarrow> addr \<Rightarrow> links option" where
  "list_reverse_loop m e lst =
     (if e \<noteq> lst
      then do {
        ASSERT (e \<noteq> NULL);
        let m = swap_links m e;
        list_reverse_loop m (prev_of m e) lst }
      else Some m)"

definition list_reverse :: "links \<Rightarrow> addr \<Rightarrow> links option" where
  "list_reverse m l = do {
     empty \<leftarrow> list_empty m l;
     if \<not> empty then do {
       b \<leftarrow> list_begin m l;
       e \<leftarrow> list_end l;
       m \<leftarrow> list_reverse_loop m b e;
       let m = swap_next_prev m (head_node l) (tail_node l);
       Some (swap_prev_next m (next_of m (head_node l)) (prev_of m (tail_node l))) }
     else Some m }"

type_synonym less_func = "addr \<Rightarrow> addr \<Rightarrow> bool"

partial_function (option) is_sorted_loop ::
    "links \<Rightarrow> addr \<Rightarrow> addr \<Rightarrow> less_func \<Rightarrow> bool option" where
  "is_sorted_loop m a b lt = do {
     a \<leftarrow> list_next m a;
     if a \<noteq> b then do {
       p \<leftarrow> list_prev m a;
       if lt a p then Some False else is_sorted_loop m a b lt }
     else Some True }"

definition is_sorted :: "links \<Rightarrow> addr \<Rightarrow> addr \<Rightarrow> less_func \<Rightarrow> bool option" where
  "is_sorted m a b lt = (if a \<noteq> b then is_sorted_loop m a b lt else Some True)"

partial_function (option) find_end_of_run_loop ::
    "links \<Rightarrow> addr \<Rightarrow> addr \<Rightarrow> less_func \<Rightarrow> addr option" where
  "find_end_of_run_loop m a b lt = do {
     a \<leftarrow> list_next m a;
     if a \<noteq> b then do {
       p \<leftarrow> list_prev m a;
       if \<not> lt a p then find_end_of_run_loop m a b lt else Some a }
     else Some a }"

definition find_end_of_run :: "links \<Rightarrow> addr \<Rightarrow> addr \<Rightarrow> less_func \<Rightarrow> addr option" where
  "find_end_of_run m a b lt = do {
     ASSERT (a \<noteq> NULL);
     ASSERT (b \<noteq> NULL);
     ASSERT (a \<noteq> b);
     find_end_of_run_loop m a b lt }"

partial_function (option) inplace_merge_loop ::
    "links \<Rightarrow> addr \<Rightarrow> addr \<Rightarrow> addr \<Rightarrow> less_func \<Rightarrow> links option" where
  "inplace_merge_loop m a0 a1b0 b1 lt =
     (if a0 \<noteq> a1b0 \<and> a1b0 \<noteq> b1
      then if \<not> lt a1b0 a0
        then do { a0 \<leftarrow> list_next m a0; inplace_merge_loop m a0 a1b0 b1 lt }
        else do {
          a1b0 \<leftarrow> list_next m a1b0;
          p \<leftarrow> list_prev m a1b0;
          m \<leftarrow> list_splice m a0 p a1b0;
          inplace_merge_loop m a0 a1b0 b1 lt }
      else Some m)"

definition inplace_merge :: "links \<Rightarrow> addr \<Rightarrow> addr \<Rightarrow> addr \<Rightarrow> less_func \<Rightarrow> links option" where
  "inplace_merge m a0 a1b0 b1 lt = do {
     ASSERT (a0 \<noteq> NULL);
     ASSERT (a1b0 \<noteq> NULL);
     ASSERT (b1 \<noteq> NULL);
     s1 \<leftarrow> is_sorted m a0 a1b0 lt;
     ASSERT s1;
     s2 \<leftarrow> is_sorted m a1b0 b1 lt;
     ASSERT s2;
     inplace_merge_loop m a0 a1b0 b1 lt }"

text \<open>One pass of \<^verbatim>\<open>list_sort\<close>'s outer loop: the number of output runs and the store.\<close>

partial_function (option) list_sort_pass ::
    "links \<Rightarrow> addr \<Rightarrow> less_func \<Rightarrow> addr \<Rightarrow> nat \<Rightarrow> (nat \<times> links) option" where
  "list_sort_pass m l lt a0 output_run_cnt = do {
     e \<leftarrow> list_end l;
     if a0 \<noteq> e then do {
       a1b0 \<leftarrow> find_end_of_run m a0 e lt;
       if a1b0 = e then Some (output_run_cnt + 1, m)
       else do {
         b1 \<leftarrow> find_end_of_run m a1b0 e lt;
         m \<leftarrow> inplace_merge m a0 a1b0 b1 lt;
         list_sort_pass m l lt b1 (output_run_cnt + 1) } }
     else Some (output_run_cnt, m) }"

partial_function (option) list_sort_loop :: "links \<Rightarrow> addr \<Rightarrow> less_func \<Rightarrow> links option" where
  "list_sort_loop m l lt = do {
     a0 \<leftarrow> list_begin m l;
     (output_run_cnt, m) \<leftarrow> list_sort_pass m l lt a0 0;
     if output_run_cnt > 1 then list_sort_loop m l lt else Some m }"

definition list_sort :: "links \<Rightarrow> addr \<Rightarrow> less_func \<Rightarrow> links option" where
  "list_sort m l lt = do {
     ASSERT (l \<noteq> NULL);
     m \<leftarrow> list_sort_loop m l lt;
     b \<leftarrow> list_begin m l;
     e \<leftarrow> list_end l;
     s \<leftarrow> is_sorted m b e lt;
     ASSERT s;
     Some m }"

partial_function (option) list_insert_ordered_loop ::
    "links \<Rightarrow> addr \<Rightarrow> addr \<Rightarrow> addr \<Rightarrow> less_func \<Rightarrow> addr option" where
  "list_insert_ordered_loop m e lst elem lt =
     (if e \<noteq> lst
      then if lt elem e then Some e
        else do { e \<leftarrow> list_next m e; list_insert_ordered_loop m e lst elem lt }
      else Some e)"

definition list_insert_ordered :: "links \<Rightarrow> addr \<Rightarrow> addr \<Rightarrow> less_func \<Rightarrow> links option" where
  "list_insert_ordered m l elem lt = do {
     ASSERT (l \<noteq> NULL);
     ASSERT (elem \<noteq> NULL);
     b \<leftarrow> list_begin m l;
     lst \<leftarrow> list_end l;
     e \<leftarrow> list_insert_ordered_loop m b lst elem lt;
     list_insert m e elem }"

text \<open>\<^verbatim>\<open>list_unique\<close>: \<open>dups\<close> is the address of the duplicates list, or null.\<close>

partial_function (option) list_unique_loop ::
    "links \<Rightarrow> addr \<Rightarrow> addr \<Rightarrow> addr \<Rightarrow> less_func \<Rightarrow> links option" where
  "list_unique_loop m elem lst dups lt = do {
     nx \<leftarrow> list_next m elem;
     if nx \<noteq> lst then
       if \<not> lt elem nx \<and> \<not> lt nx elem then do {
         (_, m) \<leftarrow> list_remove m nx;
         m \<leftarrow> (if dups \<noteq> NULL then list_push_back m dups nx else Some m);
         list_unique_loop m elem lst dups lt }
       else list_unique_loop m nx lst dups lt
     else Some m }"

definition list_unique :: "links \<Rightarrow> addr \<Rightarrow> addr \<Rightarrow> less_func \<Rightarrow> links option" where
  "list_unique m l dups lt = do {
     ASSERT (l \<noteq> NULL);
     empty \<leftarrow> list_empty m l;
     if empty then Some m else do {
       elem \<leftarrow> list_begin m l;
       lst \<leftarrow> list_end l;
       list_unique_loop m elem lst dups lt } }"

partial_function (option) list_max_loop ::
    "links \<Rightarrow> addr \<Rightarrow> addr \<Rightarrow> addr \<Rightarrow> less_func \<Rightarrow> addr option" where
  "list_max_loop m mx e lst lt =
     (if e \<noteq> lst
      then do {
        let mx = (if lt mx e then e else mx);
        e \<leftarrow> list_next m e;
        list_max_loop m mx e lst lt }
      else Some mx)"

definition list_max :: "links \<Rightarrow> addr \<Rightarrow> less_func \<Rightarrow> addr option" where
  "list_max m l lt = do {
     mx \<leftarrow> list_begin m l;
     lst \<leftarrow> list_end l;
     if mx \<noteq> lst then do { e \<leftarrow> list_next m mx; list_max_loop m mx e lst lt }
     else Some mx }"

partial_function (option) list_min_loop ::
    "links \<Rightarrow> addr \<Rightarrow> addr \<Rightarrow> addr \<Rightarrow> less_func \<Rightarrow> addr option" where
  "list_min_loop m mn e lst lt =
     (if e \<noteq> lst
      then do {
        let mn = (if lt e mn then e else mn);
        e \<leftarrow> list_next m e;
        list_min_loop m mn e lst lt }
      else Some mn)"

definition list_min :: "links \<Rightarrow> addr \<Rightarrow> less_func \<Rightarrow> addr option" where
  "list_min m l lt = do {
     mn \<leftarrow> list_begin m l;
     lst \<leftarrow> list_end l;
     if mn \<noteq> lst then do { e \<leftarrow> list_next m mn; list_min_loop m mn e lst lt }
     else Some mn }"

section \<open>Chains and the list abstraction\<close>

text \<open>\<open>linked m ps\<close>: neighbours in \<open>ps\<close> point at each other.\<close>

fun linked :: "links \<Rightarrow> addr list \<Rightarrow> bool" where
  "linked m (a # b # ps) \<longleftrightarrow> next_of m a = b \<and> prev_of m b = a \<and> linked m (b # ps)"
| "linked m _ \<longleftrightarrow> True"

definition wf_chain :: "links \<Rightarrow> addr list \<Rightarrow> bool" where
  "wf_chain m ps \<longleftrightarrow> linked m ps \<and> distinct ps \<and> NULL \<notin> set ps \<and> ps \<noteq> [] \<and>
     prev_of m (hd ps) = NULL \<and> next_of m (last ps) = NULL"

definition chain_of :: "addr \<Rightarrow> addr list \<Rightarrow> addr list" where
  "chain_of l xs = head_node l # xs @ [tail_node l]"

definition is_list :: "links \<Rightarrow> addr \<Rightarrow> addr list \<Rightarrow> bool" where
  "is_list m l xs \<longleftrightarrow> wf_chain m (chain_of l xs)"

text \<open>\<open>agree_off S m m'\<close>: the two stores differ at most at the nodes in \<open>S\<close>.\<close>

definition agree_off :: "addr set \<Rightarrow> links \<Rightarrow> links \<Rightarrow> bool" where
  "agree_off S m m' \<longleftrightarrow> (\<forall>a. a \<notin> S \<longrightarrow> prev_of m' a = prev_of m a \<and> next_of m' a = next_of m a)"

subsection \<open>Reading and writing the store\<close>

lemma in_set_tlD: "x \<in> set (tl xs) \<Longrightarrow> x \<in> set xs"
  by (cases xs) auto

lemma store_simps [simp]:
  "prev_of (set_prev m a v) = (prev_of m)(a := v)"
  "next_of (set_prev m a v) = next_of m"
  "prev_of (set_next m a v) = prev_of m"
  "next_of (set_next m a v) = (next_of m)(a := v)"
  by (simp_all add: set_prev_def set_next_def)

lemma head_tail_node [simp]: "head_node l \<noteq> tail_node l" "tail_node l \<noteq> head_node l"
  by (simp_all add: head_node_def tail_node_def)

lemma tail_node_nonnull [simp]: "tail_node l \<noteq> 0" "0 < tail_node l"
  by (simp_all add: tail_node_def)

lemma agree_off_refl [simp]: "agree_off S m m"
  by (simp add: agree_off_def)

lemma agree_off_trans: "agree_off S m m' \<Longrightarrow> agree_off S m' m'' \<Longrightarrow> agree_off S m m''"
  by (simp add: agree_off_def)

lemma agree_off_mono: "agree_off S m m' \<Longrightarrow> S \<subseteq> T \<Longrightarrow> agree_off T m m'"
  by (auto simp: agree_off_def)

lemma agree_off_set [simp]:
  "a \<in> S \<Longrightarrow> agree_off S m (set_prev m' a v) \<longleftrightarrow> agree_off S m m'"
  "a \<in> S \<Longrightarrow> agree_off S m (set_next m' a v) \<longleftrightarrow> agree_off S m m'"
  by (auto simp: agree_off_def)

subsection \<open>Linked sequences\<close>

lemma linked_Cons: "linked m (a # ps) \<longleftrightarrow>
    ps = [] \<or> next_of m a = hd ps \<and> prev_of m (hd ps) = a \<and> linked m ps"
  by (cases ps) auto

lemma linked_append_Cons:
  "linked m (us @ a # vs) \<longleftrightarrow> linked m (us @ [a]) \<and> linked m (a # vs)"
  by (induction us rule: induct_list012) (auto simp: linked_Cons)

lemma linked_snoc: "linked m (us @ [a, b]) \<longleftrightarrow>
    linked m (us @ [a]) \<and> next_of m a = b \<and> prev_of m b = a"
  by (subst linked_append_Cons) simp

lemma linked_cong:
  assumes "\<And>a. a \<in> set (butlast ps) \<Longrightarrow> next_of m' a = next_of m a"
    and "\<And>b. b \<in> set (tl ps) \<Longrightarrow> prev_of m' b = prev_of m b"
  shows "linked m' ps \<longleftrightarrow> linked m ps"
  using assms
proof (induction ps rule: induct_list012)
  case (3 a b ps)
  then show ?case by (simp add: linked_Cons)
qed simp_all

lemma linked_set_next [simp]:
  "a \<notin> set (butlast ps) \<Longrightarrow> linked (set_next m a v) ps \<longleftrightarrow> linked m ps"
  by (rule linked_cong) auto

lemma linked_set_prev [simp]:
  "a \<notin> set (tl ps) \<Longrightarrow> linked (set_prev m a v) ps \<longleftrightarrow> linked m ps"
  by (rule linked_cong) auto

subsection \<open>Positions in a well-formed chain\<close>

lemma wf_chain_nonnull: "wf_chain m ps \<Longrightarrow> a \<in> set ps \<Longrightarrow> a \<noteq> 0"
  by (auto simp: wf_chain_def intro: gr0I)

lemma wf_chain_next:
  "wf_chain m (us @ a # vs) \<Longrightarrow> next_of m a = (if vs = [] then NULL else hd vs)"
  using linked_append_Cons [of m us a vs] by (cases vs) (auto simp: wf_chain_def)

lemma wf_chain_prev:
  assumes "wf_chain m (us @ a # vs)"
  shows "prev_of m a = (if us = [] then NULL else last us)"
proof (cases us rule: rev_cases)
  case (snoc ws u)
  with assms linked_append_Cons [of m ws u "a # vs"] show ?thesis
    by (auto simp: wf_chain_def)
qed (use assms in \<open>simp add: wf_chain_def\<close>)

lemma wf_chain_interior:
  "wf_chain m (us @ a # vs) \<Longrightarrow> us \<noteq> [] \<Longrightarrow> vs \<noteq> [] \<Longrightarrow> is_interior m a"
  using wf_chain_next [of m us a vs] wf_chain_prev [of m us a vs]
    wf_chain_nonnull [of m "us @ a # vs"]
  by (auto simp: is_interior_def hd_in_set)

lemma wf_chain_tail:
  "wf_chain m (us @ [a]) \<Longrightarrow> us \<noteq> [] \<Longrightarrow> is_tail m a"
  using wf_chain_next [of m us a "[]"] wf_chain_prev [of m us a "[]"]
    wf_chain_nonnull [of m "us @ [a]"]
  by (auto simp: is_tail_def)

lemma wf_chain_head:
  "wf_chain m (a # vs) \<Longrightarrow> vs \<noteq> [] \<Longrightarrow> is_head m a"
  using wf_chain_next [of m "[]" a vs] wf_chain_prev [of m "[]" a vs]
    wf_chain_nonnull [of m "a # vs"]
  by (auto simp: is_head_def hd_in_set)

lemma wf_chain_has_prev:
  "wf_chain m (us @ a # vs) \<Longrightarrow> us \<noteq> [] \<Longrightarrow> is_interior m a \<or> is_tail m a"
  using wf_chain_interior [of m us a vs] wf_chain_tail [of m us a] by (cases "vs = []") auto

lemma wf_chain_has_next:
  "wf_chain m (us @ a # vs) \<Longrightarrow> vs \<noteq> [] \<Longrightarrow> is_head m a \<or> is_interior m a"
  using wf_chain_interior [of m us a vs] wf_chain_head [of m a vs] by (cases "us = []") auto

lemma list_next_chain:
  "wf_chain m (us @ a # b # vs) \<Longrightarrow> list_next m a = Some b"
  using wf_chain_has_next [of m us a "b # vs"] wf_chain_next [of m us a "b # vs"]
  by (auto simp: list_next_def)

lemma list_prev_chain:
  "wf_chain m (us @ a # b # vs) \<Longrightarrow> list_prev m b = Some a"
  using wf_chain_has_prev [of m "us @ [a]" b vs] wf_chain_prev [of m "us @ [a]" b vs]
  by (auto simp: list_prev_def)

lemma is_list_chain: "is_list m l xs \<longleftrightarrow> wf_chain m (head_node l # xs @ [tail_node l])"
  by (simp add: is_list_def chain_of_def)

lemma is_list_nonnull: "is_list m l xs \<Longrightarrow> l \<noteq> 0"
  by (auto simp: is_list_chain wf_chain_def head_node_def)

lemma is_list_begin: "is_list m l xs \<Longrightarrow> list_begin m l = Some (hd (xs @ [tail_node l]))"
  using wf_chain_next [of m "[]" "head_node l" "xs @ [tail_node l]"]
  by (auto simp: is_list_chain list_begin_def wf_chain_def head_node_def)

lemma is_list_end: "is_list m l xs \<Longrightarrow> list_end l = Some (tail_node l)"
  by (auto simp: list_end_def dest: is_list_nonnull)

lemma is_list_elems: "is_list m l xs \<Longrightarrow>
    distinct xs \<and> head_node l \<notin> set xs \<and> tail_node l \<notin> set xs \<and> 0 \<notin> set xs"
  by (auto simp: is_list_chain wf_chain_def)

text \<open>A chain the updated nodes are not part of stays as it is.\<close>

lemma wf_chain_agree_off:
  assumes "wf_chain m ps" "agree_off S m m'" "set ps \<inter> S = {}"
  shows "wf_chain m' ps"
proof -
  have *: "\<And>a. a \<in> set ps \<Longrightarrow> prev_of m' a = prev_of m a \<and> next_of m' a = next_of m a"
    using assms(2,3) by (auto simp: agree_off_def)
  have "linked m' ps = linked m ps"
    by (rule linked_cong) (use * in \<open>auto dest!: in_set_butlastD in_set_tlD\<close>)
  moreover have "hd ps \<in> set ps" "last ps \<in> set ps"
    using assms(1) by (auto simp: wf_chain_def)
  ultimately show ?thesis
    using assms(1) * by (simp add: wf_chain_def)
qed

lemma is_list_agree_off:
  "is_list m l xs \<Longrightarrow> agree_off S m m' \<Longrightarrow> set (chain_of l xs) \<inter> S = {} \<Longrightarrow> is_list m' l xs"
  unfolding is_list_def by (rule wf_chain_agree_off)

subsection \<open>Initialisation, insertion and removal\<close>

lemma list_init_is_list:
  assumes "l \<noteq> 0"
  shows "\<exists>m'. list_init m l = Some m' \<and> is_list m' l [] \<and>
    agree_off {head_node l, tail_node l} m m'"
  using assms by (simp add: list_init_def is_list_chain wf_chain_def Let_def)
    (simp add: head_node_def)

lemma linked_append:
  "linked m (xs @ ys) \<longleftrightarrow> linked m xs \<and> linked m ys \<and>
    (xs \<noteq> [] \<and> ys \<noteq> [] \<longrightarrow> next_of m (last xs) = hd ys \<and> prev_of m (hd ys) = last xs)"
  by (induction xs) (auto simp: linked_Cons hd_append)

text \<open>
  A piece of a chain keeps its links when only the \<open>prev\<close> fields of \<open>P\<close> and the \<open>next\<close>
  fields of \<open>N\<close> change and the piece meets them at most at its two ends.
\<close>

lemma linked_piece:
  assumes "distinct ps" "set ps \<inter> P \<subseteq> {hd ps}" "set ps \<inter> N \<subseteq> {last ps}"
    and "\<And>a. a \<notin> P \<Longrightarrow> prev_of m' a = prev_of m a"
    and "\<And>a. a \<notin> N \<Longrightarrow> next_of m' a = next_of m a"
  shows "linked m' ps = linked m ps"
proof (rule linked_cong)
  fix a assume "a \<in> set (butlast ps)"
  with \<open>distinct ps\<close> have "a \<in> set ps" "a \<noteq> last ps"
    by (cases ps rule: rev_cases; auto)+
  with assms(3,5) show "next_of m' a = next_of m a" by blast
next
  fix b assume "b \<in> set (tl ps)"
  with \<open>distinct ps\<close> have "b \<in> set ps" "b \<noteq> hd ps"
    by (cases ps; auto)+
  with assms(2,4) show "prev_of m' b = prev_of m b" by blast
qed

lemma list_insert_chain:
  assumes wf: "wf_chain m (us @ b # vs)" and "us \<noteq> []"
    and e: "e \<noteq> 0" "e \<notin> set (us @ b # vs)"
  shows "\<exists>m'. list_insert m b e = Some m' \<and> wf_chain m' (us @ e # b # vs) \<and>
    agree_off {last us, e, b} m m'"
proof -
  define p where "p = last us"
  let ?m = "set_prev (set_next (set_next (set_prev m e p) e b) p e) b e"
  have ps: "distinct (us @ b # vs)" "p \<in> set us" "e \<noteq> p" "e \<noteq> b" "b \<noteq> p"
    using wf e \<open>us \<noteq> []\<close> by (auto simp: wf_chain_def p_def)
  have "list_insert m b e = Some ?m"
    using wf_chain_has_prev [OF wf \<open>us \<noteq> []\<close>] wf_chain_prev [OF wf] \<open>us \<noteq> []\<close> e ps
    by (auto simp: list_insert_def Let_def p_def)
  moreover have "linked ?m us = linked m us" "linked ?m (b # vs) = linked m (b # vs)"
    by (rule linked_piece [where P = "{e, b}" and N = "{e, p}"]; use ps e in \<open>auto simp: p_def\<close>)+
  moreover have "prev_of ?m (hd us) = prev_of m (hd us)"
    "next_of ?m (last (b # vs)) = next_of m (last (b # vs))"
    using ps e \<open>us \<noteq> []\<close> hd_in_set [of us] last_in_set [of "b # vs"] by auto
  ultimately show ?thesis
    using wf e ps \<open>us \<noteq> []\<close> by (auto simp: wf_chain_def linked_append linked_Cons p_def hd_append)
qed

lemma list_remove_chain:
  assumes wf: "wf_chain m (us @ a # vs)" and ne: "us \<noteq> []" "vs \<noteq> []"
  shows "\<exists>m'. list_remove m a = Some (hd vs, m') \<and> wf_chain m' (us @ vs) \<and>
    agree_off {last us, hd vs} m m'"
proof -
  define p q where "p = last us" and "q = hd vs"
  let ?m = "set_prev (set_next m p q) q p"
  have ps: "distinct (us @ a # vs)" "p \<in> set us" "q \<in> set vs"
    using wf ne by (auto simp: wf_chain_def p_def q_def)
  then have "p \<notin> set vs" "q \<notin> set us"
    by auto
  have "list_remove m a = Some (q, ?m)"
    using wf_chain_interior [OF wf ne] wf_chain_prev [OF wf] wf_chain_next [OF wf] ne ps
    by (auto simp: list_remove_def Let_def p_def q_def)
  moreover have "linked ?m us = linked m us" "linked ?m vs = linked m vs"
    by (rule linked_piece [where P = "{q}" and N = "{p}"];
        use ps in \<open>auto simp: p_def q_def\<close>)+
  moreover have "prev_of ?m (hd us) = prev_of m (hd us)" "next_of ?m (last vs) = next_of m (last vs)"
    using \<open>p \<notin> set vs\<close> \<open>q \<notin> set us\<close> ne hd_in_set [of us] last_in_set [of vs] by auto
  ultimately show ?thesis
    using wf ps ne by (auto simp: wf_chain_def linked_append linked_Cons p_def q_def hd_append)
qed

text \<open>
  \<^verbatim>\<open>list_splice\<close> within one list, moving a segment towards the front: this is how
  \<^verbatim>\<open>inplace_merge\<close> uses it.
\<close>

lemma list_splice_chain:
  assumes wf: "wf_chain m (us @ b # ws @ ss @ n # vs)" and ne: "us \<noteq> []" "ss \<noteq> []"
  shows "\<exists>m'. list_splice m b (hd ss) n = Some m' \<and> wf_chain m' (us @ ss @ b # ws @ n # vs) \<and>
    agree_off (set (us @ b # ws @ ss @ n # vs)) m m'"
proof -
  define bs where "bs = b # ws"
  define p q f z where "p = last us" and "q = last bs" and "f = hd ss" and "z = last ss"
  have sym: "bs \<noteq> []" "hd bs = b" "ss = butlast ss @ [z]" "ss = f # tl ss"
    using ne by (simp_all add: bs_def z_def f_def)
  have wf': "wf_chain m (us @ bs @ ss @ n # vs)"
    using wf by (simp add: bs_def)
  have ps: "distinct (us @ bs @ ss @ n # vs)" and
    mem: "p \<in> set us" "q \<in> set bs" "b \<in> set bs" "f \<in> set ss" "z \<in> set ss"
    using wf ne by (auto simp: wf_chain_def p_def q_def f_def z_def bs_def)
  then have dist: "p \<noteq> f" "p \<noteq> z" "p \<noteq> b" "p \<noteq> n" "p \<noteq> q" "b \<noteq> f" "b \<noteq> z" "b \<noteq> n"
      "q \<noteq> f" "q \<noteq> z" "q \<noteq> n" "f \<noteq> n" "z \<noteq> n"
    by auto
  have wf1: "wf_chain m ((us @ bs @ butlast ss) @ z # n # vs)"
    using wf by (subst (asm) sym(3)) (simp add: bs_def)
  have wf2: "wf_chain m ((us @ bs) @ f # tl ss @ n # vs)"
    using wf by (subst (asm) sym(4)) (simp add: bs_def)
  have links: "prev_of m f = q" "next_of m z = n" "prev_of m b = p" "list_prev m n = Some z"
    using wf_chain_prev [OF wf] wf_chain_prev [OF wf2] wf_chain_next [OF wf1] ne
      list_prev_chain [OF wf1] by (simp_all add: p_def q_def bs_def)
  let ?m = "set_prev (set_next (set_next (set_prev (set_prev (set_next m q n) n q) f p) z b) p f) b z"
  have "is_interior m f" "is_interior m z" "is_interior m b \<or> is_tail m b"
    using wf_chain_has_prev [OF wf] wf_chain_interior [OF wf2] wf_chain_interior [OF wf1] ne by simp_all
  then have eq: "list_splice m b (hd ss) n = Some ?m"
    using links dist by (auto simp: list_splice_def Let_def simp flip: f_def)
  have "linked ?m us = linked m us" "linked ?m bs = linked m bs"
      "linked ?m ss = linked m ss" "linked ?m (n # vs) = linked m (n # vs)"
    by (rule linked_piece [where P = "{n, f, b}" and N = "{q, z, p}"];
        use ps mem sym(2) in \<open>auto simp: p_def q_def f_def z_def\<close>)+
  moreover have "prev_of ?m (hd us) = prev_of m (hd us)"
    "next_of ?m (last (n # vs)) = next_of m (last (n # vs))"
  proof -
    have "\<forall>x\<in>set us. x \<notin> {n, f, b}" "\<forall>x\<in>set (n # vs). x \<notin> {q, z, p}"
      using ps mem by auto
    then have "hd us \<notin> {n, f, b}" "last (n # vs) \<notin> {q, z, p}"
      using hd_in_set [OF ne(1)] last_in_set [of "n # vs"] by blast+
    then show "prev_of ?m (hd us) = prev_of m (hd us)"
      "next_of ?m (last (n # vs)) = next_of m (last (n # vs))"
      by auto
  qed
  ultimately have "wf_chain ?m (us @ ss @ bs @ n # vs)"
    using wf' dist ne sym(1,2) ps
    by (auto simp: wf_chain_def linked_append hd_append simp flip: p_def q_def f_def z_def)
  moreover have "agree_off (set (us @ bs @ ss @ n # vs)) m ?m"
    using mem by simp
  ultimately show ?thesis
    using eq by (auto simp: bs_def)
qed

subsection \<open>The operations on whole lists\<close>

definition fresh_node :: "addr \<Rightarrow> addr \<Rightarrow> addr list \<Rightarrow> bool" where
  "fresh_node e l xs \<longleftrightarrow> e \<noteq> 0 \<and> e \<notin> set (chain_of l xs)"

lemma set_chain_of: "set (chain_of l xs) = {head_node l, tail_node l} \<union> set xs"
  by (auto simp: chain_of_def)

lemma list_insert_is_list:
  assumes "is_list m l (xs @ ys)" "fresh_node e l (xs @ ys)"
  shows "\<exists>m'. list_insert m (hd (ys @ [tail_node l])) e = Some m' \<and> is_list m' l (xs @ e # ys) \<and>
    agree_off (insert e (set (chain_of l (xs @ ys)))) m m'"
proof -
  obtain b vs where bv: "ys @ [tail_node l] = b # vs"
    by (cases "ys @ [tail_node l]") auto
  have "wf_chain m ((head_node l # xs) @ b # vs)"
    using assms(1) bv by (simp add: is_list_chain)
  moreover have "e \<notin> set ((head_node l # xs) @ b # vs)"
    using assms(2) unfolding bv [symmetric] by (auto simp: fresh_node_def set_chain_of)
  ultimately obtain m' where m': "list_insert m b e = Some m'"
      "wf_chain m' ((head_node l # xs) @ e # b # vs)"
      "agree_off {last (head_node l # xs), e, b} m m'"
    using list_insert_chain [of m "head_node l # xs" b vs e] assms(2) by (auto simp: fresh_node_def)
  have "b \<in> set (chain_of l (xs @ ys))"
    using arg_cong [OF bv, of set] by (auto simp: set_chain_of)
  moreover have "last (head_node l # xs) \<in> set (chain_of l (xs @ ys))"
    by (simp add: set_chain_of)
  ultimately have "agree_off (insert e (set (chain_of l (xs @ ys)))) m m'"
    by (intro agree_off_mono [OF m'(3)]) auto
  moreover have "is_list m' l (xs @ e # ys)"
    using m'(2) bv [symmetric] by (simp add: is_list_chain)
  ultimately show ?thesis
    using m'(1) bv by auto
qed

lemma list_remove_is_list:
  assumes "is_list m l (xs @ a # ys)"
  shows "\<exists>m'. list_remove m a = Some (hd (ys @ [tail_node l]), m') \<and> is_list m' l (xs @ ys) \<and>
    agree_off (set (chain_of l (xs @ ys))) m m'"
proof -
  have "wf_chain m ((head_node l # xs) @ a # (ys @ [tail_node l]))"
    using assms by (simp add: is_list_chain)
  from list_remove_chain [OF this] obtain m' where
    m': "list_remove m a = Some (hd (ys @ [tail_node l]), m')"
      "wf_chain m' ((head_node l # xs) @ ys @ [tail_node l])"
      "agree_off {last (head_node l # xs), hd (ys @ [tail_node l])} m m'"
    by auto
  have "agree_off (set (chain_of l (xs @ ys))) m m'"
    by (rule agree_off_mono [OF m'(3)]) (auto simp: set_chain_of hd_append)
  with m' show ?thesis
    by (auto simp: is_list_chain)
qed

lemma list_push_front_is_list:
  assumes "is_list m l xs" "fresh_node e l xs"
  shows "\<exists>m'. list_push_front m l e = Some m' \<and> is_list m' l (e # xs) \<and>
    agree_off (insert e (set (chain_of l xs))) m m'"
  using list_insert_is_list [of m l "[]" xs e] assms
  by (simp add: list_push_front_def is_list_begin)

lemma list_push_back_is_list:
  assumes "is_list m l xs" "fresh_node e l xs"
  shows "\<exists>m'. list_push_back m l e = Some m' \<and> is_list m' l (xs @ [e]) \<and>
    agree_off (insert e (set (chain_of l xs))) m m'"
  using list_insert_is_list [of m l xs "[]" e] assms
  by (simp add: list_push_back_def is_list_end [OF assms(1)])

lemma list_empty_is_list: "is_list m l xs \<Longrightarrow> list_empty m l = Some (xs = [])"
  using is_list_elems [of m l xs]
  by (cases xs) (auto simp: list_empty_def is_list_begin is_list_end)

lemma list_front_is_list:
  "is_list m l xs \<Longrightarrow> list_front m l = (if xs = [] then None else Some (hd xs))"
  using is_list_begin [of m l xs]
  by (auto simp: list_front_def list_empty_is_list list_begin_def is_list_nonnull)

lemma is_list_prev_tail:
  "is_list m l xs \<Longrightarrow> prev_of m (tail_node l) = (if xs = [] then head_node l else last xs)"
  using wf_chain_prev [of m "head_node l # xs" "tail_node l" "[]"] by (simp add: is_list_chain)

lemma list_back_is_list:
  "is_list m l xs \<Longrightarrow> list_back m l = (if xs = [] then None else Some (last xs))"
  using is_list_prev_tail [of m l xs] by (auto simp: list_back_def list_empty_is_list)

lemma list_pop_front_is_list:
  assumes "is_list m l (x # xs)"
  shows "\<exists>m'. list_pop_front m l = Some (x, m') \<and> is_list m' l xs \<and>
    agree_off (set (chain_of l xs)) m m'"
  using list_remove_is_list [of m l "[]" x xs] list_front_is_list [OF assms] assms
  by (auto simp: list_pop_front_def)

lemma list_pop_back_is_list:
  assumes "is_list m l (xs @ [x])"
  shows "\<exists>m'. list_pop_back m l = Some (x, m') \<and> is_list m' l xs \<and>
    agree_off (set (chain_of l xs)) m m'"
  using list_remove_is_list [of m l xs x "[]"] list_back_is_list [OF assms] assms
  by (auto simp: list_pop_back_def)

lemma list_pop_empty:
  "is_list m l [] \<Longrightarrow> list_pop_front m l = None \<and> list_pop_back m l = None"
  by (simp add: list_pop_front_def list_pop_back_def list_front_is_list list_back_is_list)

lemma list_size_loop_chain:
  "wf_chain m (us @ ys @ [t]) \<Longrightarrow>
    list_size_loop m (hd (ys @ [t])) t cnt = Some (cnt + length ys)"
proof (induction ys arbitrary: us cnt)
  case Nil
  then show ?case by (simp add: list_size_loop.simps)
next
  case (Cons y ys)
  have "y \<noteq> t"
    using Cons.prems by (auto simp: wf_chain_def)
  moreover obtain b vs where "ys @ [t] = b # vs"
    by (cases "ys @ [t]") auto
  then have "list_next m y = Some (hd (ys @ [t]))"
    using list_next_chain [of m us y b vs] Cons.prems by simp
  ultimately show ?case
    using Cons.IH [of "us @ [y]" "cnt + 1"] Cons.prems by (simp add: list_size_loop.simps [of m y])
qed

lemma list_size_is_list: "is_list m l xs \<Longrightarrow> list_size m l = Some (length xs)"
  using list_size_loop_chain [of m "[head_node l]" xs "tail_node l" 0]
  by (simp add: list_size_def is_list_begin is_list_end is_list_chain)

subsection \<open>Reversal\<close>

lemma linked_rev:
  assumes "linked m ps"
    and "\<And>b. b \<in> set (tl ps) \<Longrightarrow> next_of m' b = prev_of m b"
    and "\<And>a. a \<in> set (butlast ps) \<Longrightarrow> prev_of m' a = next_of m a"
  shows "linked m' (rev ps)"
  using assms
proof (induction ps rule: induct_list012)
  case (3 a b ps)
  then have "linked m' (rev (b # ps))"
    by simp
  with 3 show ?case
    by (auto simp: linked_append)
qed simp_all

definition swapped_on :: "addr set \<Rightarrow> links \<Rightarrow> links \<Rightarrow> bool" where
  "swapped_on A m m' \<longleftrightarrow>
     (\<forall>a. (a \<in> A \<longrightarrow> prev_of m' a = next_of m a \<and> next_of m' a = prev_of m a) \<and>
          (a \<notin> A \<longrightarrow> prev_of m' a = prev_of m a \<and> next_of m' a = next_of m a))"

lemma swapped_on_step:
  "swapped_on A m m' \<Longrightarrow> e \<notin> A \<Longrightarrow> swapped_on (insert e A) m (swap_links m' e)"
  by (auto simp: swapped_on_def swap_links_def Let_def)

lemma list_reverse_loop_chain:
  assumes "wf_chain m (us @ ys @ [t])" "swapped_on A m m'" "A \<inter> set ys = {}"
  shows "\<exists>m''. list_reverse_loop m' (hd (ys @ [t])) t = Some m'' \<and> swapped_on (A \<union> set ys) m m''"
  using assms
proof (induction ys arbitrary: us A m')
  case Nil
  then show ?case by (simp add: list_reverse_loop.simps)
next
  case (Cons y ys)
  let ?m = "swap_links m' y"
  have y: "y \<noteq> t" "y \<noteq> 0"
    using Cons.prems(1) by (auto simp: wf_chain_def)
  have "swapped_on (insert y A) m ?m"
    using swapped_on_step [OF Cons.prems(2)] Cons.prems(3) by simp
  moreover have "next_of m y = hd (ys @ [t])"
    using wf_chain_next [of m us y "ys @ [t]"] Cons.prems(1) by simp
  ultimately have "prev_of ?m y = hd (ys @ [t])"
    by (simp add: swapped_on_def)
  moreover have "insert y A \<inter> set ys = {}"
    using Cons.prems(1,3) by (auto simp: wf_chain_def)
  ultimately show ?case
    using Cons.IH [of "us @ [y]" "insert y A" ?m] Cons.prems(1) y
      \<open>swapped_on (insert y A) m ?m\<close>
    by (auto simp: list_reverse_loop.simps [of m' y] Let_def)
qed

lemma list_reverse_is_list:
  assumes "is_list m l xs"
  shows "\<exists>m'. list_reverse m l = Some m' \<and> is_list m' l (rev xs)"
proof (cases "xs = []")
  case True
  with assms show ?thesis
    by (auto simp: list_reverse_def list_empty_is_list)
next
  case False
  define h t f z where "h = head_node l" and "t = tail_node l" and "f = hd xs" and "z = last xs"
  have wf: "wf_chain m ([h] @ xs @ [t])"
    using assms by (simp add: is_list_chain h_def t_def)
  then have ps: "distinct (h # xs @ [t])" "0 \<notin> set (h # xs @ [t])" and fz: "f \<in> set xs" "z \<in> set xs"
    using False by (auto simp: wf_chain_def f_def z_def)
  from list_reverse_loop_chain [OF wf, of "{}" m] obtain m1 where
    m1: "list_reverse_loop m (hd (xs @ [t])) t = Some m1" "swapped_on (set xs) m m1"
    by (auto simp: swapped_on_def)
  have dist: "h \<noteq> t" "f \<noteq> h" "f \<noteq> t" "z \<noteq> h" "z \<noteq> t"
    using ps fz by auto
  have ends: "next_of m h = f" "prev_of m t = z" "next_of m z = t" "prev_of m f = h"
      "prev_of m h = 0" "next_of m t = 0"
    using wf False by (auto simp: wf_chain_def linked_append linked_Cons f_def z_def hd_append)
  have m1_ends: "next_of m1 h = f" "prev_of m1 t = z" "prev_of m1 z = t" "next_of m1 f = h"
      "prev_of m1 h = 0" "next_of m1 t = 0"
    using m1(2) ends fz ps by (auto simp: swapped_on_def)
  let ?m2 = "swap_next_prev m1 h t"
  let ?m3 = "swap_prev_next ?m2 (next_of ?m2 h) (prev_of ?m2 t)"
  have m3: "prev_of ?m3 = (prev_of m1)(t := f, z := h)" "next_of ?m3 = (next_of m1)(h := z, f := t)"
    using dist m1_ends by (auto simp: swap_next_prev_def swap_prev_next_def Let_def fun_eq_iff)
  have "linked ?m3 (rev xs)"
  proof (rule linked_rev [where m = m])
    show "linked m xs"
      using wf by (auto simp: wf_chain_def linked_append linked_Cons)
    have "f \<notin> set (tl xs)" "z \<notin> set (butlast xs)"
      using ps False unfolding f_def z_def
      by (cases xs, simp_all, cases xs rule: rev_cases, simp_all)
    then show "next_of ?m3 b = prev_of m b" if "b \<in> set (tl xs)" for b
      using that m1(2) ps m3 by (auto simp: swapped_on_def dest: in_set_tlD)
    show "prev_of ?m3 a = next_of m a" if "a \<in> set (butlast xs)" for a
      using that m1(2) ps m3 \<open>z \<notin> set (butlast xs)\<close> by (auto simp: swapped_on_def dest: in_set_butlastD)
  qed
  then have "wf_chain ?m3 (h # rev xs @ [t])"
    using ps False dist m3 m1_ends
    by (auto simp: wf_chain_def linked_Cons linked_append hd_rev last_rev hd_append simp flip: f_def z_def)
  then show ?thesis
    using assms False m1(1)
    by (auto simp: list_reverse_def list_empty_is_list is_list_begin is_list_end Let_def is_list_chain
        simp flip: h_def t_def)
qed

section \<open>Lists as queues\<close>

text \<open>Threads queue by \<^verbatim>\<open>list_push_back\<close> and leave by \<^verbatim>\<open>list_pop_front\<close>; a node may be
  pushed when it is not on the list.\<close>

interpretation list_queue: fifo "\<lambda>m. is_list m l" "\<lambda>e. fresh_node e l"
  "\<lambda>m e. list_push_back m l e" "\<lambda>m. list_pop_front m l" for l
proof unfold_locales
  show "\<exists>s'. list_push_back s l e = Some s' \<and> is_list s' l (xs @ [e])"
    if "is_list s l xs" "fresh_node e l xs" for s xs e
    using list_push_back_is_list [OF that] by blast
  show "\<exists>s'. list_pop_front s l = Some (x, s') \<and> is_list s' l xs" if "is_list s l (x # xs)" for s x xs
    using list_pop_front_is_list [OF that] by blast
qed

text \<open>
  C24: a \<^verbatim>\<open>struct list\<close> used through \<^verbatim>\<open>list_push_back\<close> and \<^verbatim>\<open>list_pop_front\<close> is a
  first-in first-out queue: pushing distinct new nodes and popping until empty returns the old
  elements and then the new ones, in order, and no assertion fails on the way.
\<close>

theorem list_push_pop_fifo:
  assumes "is_list m l xs" "room_all (\<lambda>e. fresh_node e l) es xs"
  shows "\<exists>m1 m2. put_all (\<lambda>m e. list_push_back m l e) m es = Some m1 \<and>
    get_all (\<lambda>m. list_pop_front m l) m1 (length xs + length es) = Some (xs @ es, m2) \<and> is_list m2 l []"
  using list_queue.put_all_get_all [OF assms] .

theorem list_push_pop_fifo_witness:
  "\<exists>m m1 m2. list_init \<lparr>prev_of = \<lambda>_. 0, next_of = \<lambda>_. 0\<rparr> 8 = Some m \<and>
    put_all (\<lambda>m e. list_push_back m 8 e) m [40, 24, 32] = Some m1 \<and>
    get_all (\<lambda>m. list_pop_front m 8) m1 3 = Some ([40, 24, 32], m2) \<and> is_list m2 8 []"
proof -
  obtain m where m: "list_init \<lparr>prev_of = \<lambda>_. 0, next_of = \<lambda>_. 0\<rparr> 8 = Some m" "is_list m 8 []"
    using list_init_is_list [of 8 "\<lparr>prev_of = \<lambda>_. 0, next_of = \<lambda>_. 0\<rparr>"] by auto
  have "room_all (\<lambda>e. fresh_node e 8) [40, 24, 32] []"
    by (simp add: fresh_node_def chain_of_def head_node_def tail_node_def)
  from list_push_pop_fifo [OF m(2) this] m(1) show ?thesis
    by (simp add: numeral_3_eq_3)
qed

text \<open>
  \<^verbatim>\<open>list_splice\<close> moves the elements from \<open>f\<close> up to but not including \<open>n\<close> in front of \<open>b\<close>,
  here inside one list, and \<^verbatim>\<open>list_reverse\<close> reverses the list; both always return.
\<close>

theorem list_splice_reverse:
  assumes "is_list m l (us @ b # ws @ f # ss @ n # vs)"
  shows "\<exists>m1 m2. list_splice m b f n = Some m1 \<and> is_list m1 l (us @ f # ss @ b # ws @ n # vs) \<and>
    list_reverse m1 l = Some m2 \<and> is_list m2 l (rev (us @ f # ss @ b # ws @ n # vs))"
proof -
  have "wf_chain m ((head_node l # us) @ b # ws @ (f # ss) @ n # (vs @ [tail_node l]))"
    using assms by (simp add: is_list_chain)
  from list_splice_chain [OF this] obtain m1 where
    "list_splice m b f n = Some m1" "is_list m1 l (us @ f # ss @ b # ws @ n # vs)"
    by (auto simp: is_list_chain)
  then show ?thesis
    using list_reverse_is_list by blast
qed

theorem list_splice_reverse_witness:
  "\<exists>m m1 m2. is_list m 8 [24, 32, 40] \<and> list_splice m 24 32 40 = Some m1 \<and> is_list m1 8 [32, 24, 40] \<and>
    list_reverse m1 8 = Some m2 \<and> is_list m2 8 [40, 24, 32]"
proof -
  let ?m = "\<lparr>prev_of = (\<lambda>_. 0)(24 := 8, 32 := 24, 40 := 32, 16 := 40),
            next_of = (\<lambda>_. 0)(8 := 24, 24 := 32, 32 := 40, 40 := 16)\<rparr>"
  have m: "is_list ?m 8 ([] @ 24 # [] @ 32 # [] @ 40 # [])"
    by (simp add: is_list_def wf_chain_def chain_of_def head_node_def tail_node_def)
  from list_splice_reverse [OF m] m show ?thesis by fastforce
qed

end
