(* ===== verification/List_Sort.thy ===== *)
theory List_Sort
  imports Kernel_List
begin

text \<open>
  \<^verbatim>\<open>list_sort\<close> of src/pintos/src/lib/kernel/list.c: a natural merge sort that relinks the
  nodes in place. Each C routine is first related to a function on HOL lists
  (\<open>split_run\<close>, \<open>merge_runs\<close>, \<open>sort_pass\<close>); the order-theoretic facts are proved on
  those, in the context of \<open>strict_weak_order\<close>.
\<close>

section \<open>The passes on HOL lists\<close>

fun split_run :: "('a \<Rightarrow> 'a \<Rightarrow> bool) \<Rightarrow> 'a list \<Rightarrow> 'a list \<times> 'a list" where
  "split_run lt [] = ([], [])"
| "split_run lt [x] = ([x], [])"
| "split_run lt (x # y # zs) =
     (if lt y x then ([x], y # zs)
      else (x # fst (split_run lt (y # zs)), snd (split_run lt (y # zs))))"

fun merge_runs :: "('a \<Rightarrow> 'a \<Rightarrow> bool) \<Rightarrow> 'a list \<Rightarrow> 'a list \<Rightarrow> 'a list" where
  "merge_runs lt [] ys = ys"
| "merge_runs lt xs [] = xs"
| "merge_runs lt (x # xs) (y # ys) =
     (if \<not> lt y x then x # merge_runs lt xs (y # ys) else y # merge_runs lt (x # xs) ys)"

lemma split_run_append: "fst (split_run lt xs) @ snd (split_run lt xs) = xs"
  by (induction lt xs rule: split_run.induct) auto

lemma split_run_nonempty: "xs \<noteq> [] \<Longrightarrow> fst (split_run lt xs) \<noteq> []"
  by (induction lt xs rule: split_run.induct) auto

lemma split_run_length:
  "xs \<noteq> [] \<Longrightarrow> length (snd (split_run lt xs)) < length xs"
  by (induction lt xs rule: split_run.induct) auto

function sort_pass :: "('a \<Rightarrow> 'a \<Rightarrow> bool) \<Rightarrow> 'a list \<Rightarrow> nat \<times> 'a list" where
  "sort_pass lt xs =
     (if xs = [] then (0, [])
      else if snd (split_run lt xs) = [] then (1, xs)
      else let rest = snd (split_run lt xs);
               p = sort_pass lt (snd (split_run lt rest))
           in (Suc (fst p), merge_runs lt (fst (split_run lt xs)) (fst (split_run lt rest)) @ snd p))"
  by pat_completeness auto
termination
  by (relation "measure (\<lambda>(lt, xs). length xs)")
    (auto intro: less_trans [OF split_run_length split_run_length])

declare sort_pass.simps [simp del]

fun run_cnt :: "('a \<Rightarrow> 'a \<Rightarrow> bool) \<Rightarrow> 'a list \<Rightarrow> nat" where
  "run_cnt lt [] = 0"
| "run_cnt lt [x] = 1"
| "run_cnt lt (x # y # zs) = (if lt y x then Suc (run_cnt lt (y # zs)) else run_cnt lt (y # zs))"

abbreviation ascending :: "('a \<Rightarrow> 'a \<Rightarrow> bool) \<Rightarrow> 'a list \<Rightarrow> bool" where
  "ascending lt \<equiv> successively (\<lambda>x y. \<not> lt y x)"

lemma split_run_hd: "xs \<noteq> [] \<Longrightarrow> hd (fst (split_run lt xs)) = hd xs"
  by (induction lt xs rule: split_run.induct) auto

lemma split_run_ascending: "ascending lt (fst (split_run lt xs))"
proof (induction lt xs rule: split_run.induct)
  case (3 lt x y zs)
  have "hd (fst (split_run lt (y # zs))) = y"
    by (simp add: split_run_hd)
  with 3 show ?case
    by (auto simp: successively_Cons)
qed auto

lemma split_run_whole: "snd (split_run lt xs) = [] \<Longrightarrow> fst (split_run lt xs) = xs"
  using split_run_append [of lt xs] by simp

lemma run_cnt_split: "xs \<noteq> [] \<Longrightarrow> run_cnt lt xs = Suc (run_cnt lt (snd (split_run lt xs)))"
  by (induction lt xs rule: split_run.induct) auto

lemma run_cnt_append:
  "ascending lt rs \<Longrightarrow> run_cnt lt (rs @ ys) \<le> Suc (run_cnt lt ys)"
proof (induction rs rule: induct_list012)
  case (2 x)
  then show ?case by (cases ys) auto
next
  case (3 x y zs)
  then show ?case by simp
qed simp

lemma mset_merge_runs: "mset (merge_runs lt xs ys) = mset xs + mset ys"
  by (induction lt xs ys rule: merge_runs.induct) auto

lemma set_merge_runs: "set (merge_runs lt xs ys) = set xs \<union> set ys"
  using arg_cong [OF mset_merge_runs, of set_mset] by simp

lemma mset_split_run:
  "mset (fst (split_run lt xs)) + mset (snd (split_run lt xs)) = mset xs"
  using arg_cong [OF split_run_append, of mset] by simp

lemma mset_sort_pass: "mset (snd (sort_pass lt xs)) = mset xs"
proof (induction lt xs rule: sort_pass.induct)
  case (1 lt xs)
  show ?case
    using 1 mset_split_run [of lt xs] mset_split_run [of lt "snd (split_run lt xs)"]
    by (simp add: sort_pass.simps [of lt xs] Let_def mset_merge_runs add.assoc)
qed

lemma sort_pass_cnt: "fst (sort_pass lt xs) = (run_cnt lt xs + 1) div 2"
proof (induction lt xs rule: sort_pass.induct)
  case (1 lt xs)
  let ?r = "snd (split_run lt xs)"
  show ?case
  proof (cases "xs = [] \<or> ?r = []")
    case True
    then show ?thesis
      using run_cnt_split [of xs lt] by (auto simp: sort_pass.simps [of lt xs])
  next
    case False
    then have "run_cnt lt xs = Suc (Suc (run_cnt lt (snd (split_run lt ?r))))"
      using run_cnt_split [of xs lt] run_cnt_split [of ?r lt] by simp
    then show ?thesis
      using 1 False by (simp add: sort_pass.simps [of lt xs] Let_def)
  qed
qed

text \<open>Induction rules that keep the comparison function fixed.\<close>

lemma merge_runs_induct [case_names Nil Nil2 Cons]:
  fixes P :: "'a list \<Rightarrow> 'a list \<Rightarrow> bool"
  assumes "\<And>ys. P [] ys" "\<And>x xs. P (x # xs) []"
    and "\<And>x xs y ys. P xs (y # ys) \<Longrightarrow> P (x # xs) ys \<Longrightarrow> P (x # xs) (y # ys)"
  shows "P xs ys"
proof (induction xs arbitrary: ys)
  case (Cons x xs)
  then show ?case
    by (induction ys) (auto intro: assms)
qed (rule assms)

lemma sort_pass_induct [case_names Nil Run Merge]:
  assumes "P []" "\<And>xs. xs \<noteq> [] \<Longrightarrow> snd (split_run lt xs) = [] \<Longrightarrow> P xs"
    and "\<And>xs. xs \<noteq> [] \<Longrightarrow> snd (split_run lt xs) \<noteq> [] \<Longrightarrow>
      P (snd (split_run lt (snd (split_run lt xs)))) \<Longrightarrow> P xs"
  shows "P xs"
proof (induction xs rule: length_induct)
  case (1 xs)
  show ?case
  proof (cases "xs = [] \<or> snd (split_run lt xs) = []")
    case False
    then have "length (snd (split_run lt (snd (split_run lt xs)))) < length xs"
      by (auto intro: less_trans [OF split_run_length split_run_length])
    with 1 False assms(3) [of xs] show ?thesis by blast
  qed (use assms in \<open>cases "xs = []"; auto\<close>)
qed

lemma sort_pass_Nil [simp]: "sort_pass lt [] = (0, [])"
  by (simp add: sort_pass.simps)

lemma sort_pass_Run: "xs \<noteq> [] \<Longrightarrow> snd (split_run lt xs) = [] \<Longrightarrow> sort_pass lt xs = (1, xs)"
  by (simp add: sort_pass.simps)

lemma sort_pass_Merge:
  "xs \<noteq> [] \<Longrightarrow> snd (split_run lt xs) = rest \<Longrightarrow> rest \<noteq> [] \<Longrightarrow>
    sort_pass lt xs =
      (Suc (fst (sort_pass lt (snd (split_run lt rest)))),
       merge_runs lt (fst (split_run lt xs)) (fst (split_run lt rest)) @
         snd (sort_pass lt (snd (split_run lt rest))))"
  by (simp add: sort_pass.simps [of lt xs] Let_def)

definition equiv_to :: "('a \<Rightarrow> 'a \<Rightarrow> bool) \<Rightarrow> 'a \<Rightarrow> 'a \<Rightarrow> bool" where
  "equiv_to lt k z \<longleftrightarrow> \<not> lt k z \<and> \<not> lt z k"

context strict_weak_order
begin

lemma merge_runs_sorted:
  "sorted_wrt (\<lambda>x y. \<not> lt y x) xs \<Longrightarrow> sorted_wrt (\<lambda>x y. \<not> lt y x) ys \<Longrightarrow>
    sorted_wrt (\<lambda>x y. \<not> lt y x) (merge_runs lt xs ys)"
proof (induction xs ys rule: merge_runs_induct)
  case (Cons x xs y ys)
  then show ?case
    by (auto simp: set_merge_runs dest: asym negtrans)
qed auto

lemma merge_runs_stable:
  assumes "sorted_wrt (\<lambda>x y. \<not> lt y x) xs" "sorted_wrt (\<lambda>x y. \<not> lt y x) ys"
  shows "filter (equiv_to lt k) (merge_runs lt xs ys) =
    filter (equiv_to lt k) xs @ filter (equiv_to lt k) ys"
  using assms
proof (induction xs ys rule: merge_runs_induct)
  case (Cons x xs y ys)
  have "filter (equiv_to lt k) (x # xs) = []" if "lt y x" "equiv_to lt k y"
  proof -
    have "\<not> equiv_to lt k z" if "z \<in> set (x # xs)" for z
    proof -
      have "\<not> lt z x"
        using that Cons.prems(1) irrefl by auto
      with \<open>lt y x\<close> have "lt y z"
        by (rule lt_le_trans)
      then show ?thesis
        using \<open>equiv_to lt k y\<close> negtrans unfolding equiv_to_def by blast
    qed
    then show ?thesis
      unfolding filter_empty_conv by blast
  qed
  with Cons show ?case
    by (cases "lt y x") auto
qed auto

lemma split_run_sorted: "sorted_wrt (\<lambda>x y. \<not> lt y x) (fst (split_run lt xs))"
  using split_run_ascending [of lt xs] by (simp add: successively_sorted)

lemma sort_pass_stable:
  "filter (equiv_to lt k) (snd (sort_pass lt xs)) = filter (equiv_to lt k) xs"
proof (induction xs rule: sort_pass_induct [where lt = lt])
  case (Merge xs)
  let ?r = "snd (split_run lt xs)"
  have "filter (equiv_to lt k) xs = filter (equiv_to lt k) (fst (split_run lt xs)) @
      filter (equiv_to lt k) (fst (split_run lt ?r)) @ filter (equiv_to lt k) (snd (split_run lt ?r))"
    using split_run_append [of lt xs] split_run_append [of lt ?r] by (metis filter_append)
  with Merge show ?case
    by (simp add: sort_pass_Merge merge_runs_stable split_run_sorted)
qed (simp_all add: sort_pass_Run)

lemma sort_pass_runs: "run_cnt lt (snd (sort_pass lt xs)) \<le> fst (sort_pass lt xs)"
proof (induction xs rule: sort_pass_induct [where lt = lt])
  case (Run xs)
  then show ?case
    using run_cnt_split [of xs lt] by (simp add: sort_pass_Run)
next
  case (Merge xs)
  let ?r = "snd (split_run lt xs)"
  have "ascending lt (merge_runs lt (fst (split_run lt xs)) (fst (split_run lt ?r)))"
    by (simp add: successively_sorted merge_runs_sorted split_run_sorted)
  from run_cnt_append [OF this] Merge show ?case
    by (simp add: sort_pass_Merge) (meson Suc_le_mono le_trans)
qed simp

lemma run_cnt_le_1_ascending: "run_cnt lt xs \<le> 1 \<Longrightarrow> ascending lt xs"
proof (induction lt xs rule: run_cnt.induct)
  case (3 lt x y zs)
  have "0 < run_cnt lt (y # zs)"
    using run_cnt_split [of "y # zs" lt] by simp
  with 3 show ?case
    by (auto split: if_splits)
qed auto

end

section \<open>The routines on the store\<close>

lemma is_sorted_loop_chain:
  assumes "wf_chain m (us @ xs @ b # vs)" "xs \<noteq> []"
  shows "is_sorted_loop m (hd xs) b lt = Some (ascending lt xs)"
  using assms
proof (induction xs arbitrary: us rule: induct_list012)
  case (2 x)
  then show ?case
    using list_next_chain [of m us x b vs] by (simp add: is_sorted_loop.simps)
next
  case (3 x y zs)
  then have "list_next m x = Some y" "list_prev m y = Some x" "y \<noteq> b"
    using list_next_chain [of m us x y "zs @ b # vs"] list_prev_chain [of m us x y "zs @ b # vs"]
    by (auto simp: wf_chain_def)
  then show ?case
    using "3.IH"(2) [of "us @ [x]"] "3.prems" by (simp add: is_sorted_loop.simps [of m x])
qed simp

lemma is_sorted_chain:
  assumes "wf_chain m (us @ xs @ b # vs)"
  shows "is_sorted m (hd (xs @ [b])) b lt = Some (ascending lt xs)"
proof (cases xs)
  case (Cons x zs)
  then have "x \<noteq> b"
    using assms by (auto simp: wf_chain_def)
  with Cons show ?thesis
    using is_sorted_loop_chain [OF assms, of lt] by (simp add: is_sorted_def)
qed (simp add: is_sorted_def)

lemma find_end_of_run_loop_chain:
  assumes "wf_chain m (us @ xs @ b # vs)" "xs \<noteq> []"
  shows "find_end_of_run_loop m (hd xs) b lt = Some (hd (snd (split_run lt xs) @ [b]))"
  using assms
proof (induction xs arbitrary: us rule: induct_list012)
  case (2 x)
  then show ?case
    using list_next_chain [of m us x b vs] by (simp add: find_end_of_run_loop.simps)
next
  case (3 x y zs)
  then have "list_next m x = Some y" "list_prev m y = Some x" "y \<noteq> b"
    using list_next_chain [of m us x y "zs @ b # vs"] list_prev_chain [of m us x y "zs @ b # vs"]
    by (auto simp: wf_chain_def)
  then show ?case
    using "3.IH"(2) [of "us @ [x]"] "3.prems" by (simp add: find_end_of_run_loop.simps [of m x])
qed simp

lemma find_end_of_run_chain:
  assumes "wf_chain m (us @ xs @ b # vs)" "xs \<noteq> []"
  shows "find_end_of_run m (hd xs) b lt = Some (hd (snd (split_run lt xs) @ [b]))"
proof -
  have "hd xs \<noteq> b" "hd xs \<noteq> 0" "b \<noteq> 0"
    using assms by (cases xs; auto simp: wf_chain_def)+
  then show ?thesis
    using find_end_of_run_loop_chain [OF assms] by (simp add: find_end_of_run_def)
qed

lemma inplace_merge_loop_chain:
  assumes "wf_chain m (us @ xs @ ys @ b # vs)" "us \<noteq> []"
  shows "\<exists>m'. inplace_merge_loop m (hd (xs @ ys @ [b])) (hd (ys @ [b])) b lt = Some m' \<and>
    wf_chain m' (us @ merge_runs lt xs ys @ b # vs) \<and>
    agree_off (set (us @ xs @ ys @ b # vs)) m m'"
  using assms
proof (induction xs ys arbitrary: us m rule: merge_runs_induct)
  case (Nil ys)
  then show ?case by (auto simp: inplace_merge_loop.simps)
next
  case (Nil2 x xs)
  then show ?case by (auto simp: inplace_merge_loop.simps)
next
  case (Cons x xs y ys)
  have xy: "x \<noteq> y" "y \<noteq> b"
    using Cons.prems(1) by (auto simp: wf_chain_def)
  show ?case
  proof (cases "lt y x")
    case False
    obtain c cs where c: "xs @ y # ys @ b # vs = c # cs"
      by (cases "xs @ y # ys @ b # vs") auto
    then have "hd (xs @ y # ys @ [b]) = c"
      by (cases xs) auto
    moreover have "list_next m x = Some c"
      using list_next_chain [of m us x c cs] Cons.prems(1) c by simp
    ultimately show ?thesis
      using Cons.IH(1) [of m "us @ [x]"] Cons.prems False xy
      by (simp add: inplace_merge_loop.simps [of m x y] Un_commute insert_commute)
  next
    case True
    obtain n ns where n: "ys @ b # vs = n # ns"
      by (cases "ys @ b # vs") auto
    then have n': "hd (ys @ [b]) = n"
      by (cases ys) auto
    have wf: "wf_chain m ((us @ x # xs) @ y # n # ns)"
      using Cons.prems(1) n by simp
    have steps: "list_next m y = Some n" "list_prev m n = Some y"
      using list_next_chain [OF wf] list_prev_chain [OF wf] by simp_all
    obtain m1 where m1: "list_splice m x y n = Some m1" "wf_chain m1 (us @ [y] @ x # xs @ n # ns)"
        "agree_off (set (us @ x # xs @ [y] @ n # ns)) m m1"
      using list_splice_chain [of m us x xs "[y]" n ns] wf Cons.prems(2) by auto
    have "wf_chain m1 ((us @ [y]) @ (x # xs) @ ys @ b # vs)"
      using m1(2) n by simp
    from Cons.IH(2) [OF this] obtain m2 where
      m2: "inplace_merge_loop m1 x n b lt = Some m2"
        "wf_chain m2 (us @ y # merge_runs lt (x # xs) ys @ b # vs)"
        "agree_off (set ((us @ [y]) @ (x # xs) @ ys @ b # vs)) m1 m2"
      using n' by auto
    have "set (us @ x # xs @ [y] @ n # ns) = set (us @ (x # xs) @ (y # ys) @ b # vs)"
      "set ((us @ [y]) @ (x # xs) @ ys @ b # vs) = set (us @ (x # xs) @ (y # ys) @ b # vs)"
      using arg_cong [OF n, of set] by auto
    with m1(3) m2(3) have "agree_off (set (us @ (x # xs) @ (y # ys) @ b # vs)) m m2"
      by (metis agree_off_trans)
    then show ?thesis
      using True xy steps m1(1) m2(1,2) by (simp add: inplace_merge_loop.simps [of m x y])
  qed
qed

lemma inplace_merge_chain:
  assumes wf: "wf_chain m (us @ xs @ ys @ b # vs)" and "us \<noteq> []"
    and asc: "ascending lt xs" "ascending lt ys"
  shows "\<exists>m'. inplace_merge m (hd (xs @ ys @ [b])) (hd (ys @ [b])) b lt = Some m' \<and>
    wf_chain m' (us @ merge_runs lt xs ys @ b # vs) \<and>
    agree_off (set (us @ xs @ ys @ b # vs)) m m'"
proof -
  have nonnull: "hd (xs @ ys @ [b]) \<noteq> 0" "hd (ys @ [b]) \<noteq> 0" "b \<noteq> 0"
    using wf by (cases xs; cases ys; auto simp: wf_chain_def)+
  have "is_sorted m (hd (ys @ [b])) b lt = Some True"
    using is_sorted_chain [of m "us @ xs" ys b vs lt] wf asc by simp
  moreover obtain c cs where c: "ys @ b # vs = c # cs"
    by (cases "ys @ b # vs") auto
  then have c': "hd (ys @ [b]) = c" "hd (xs @ ys @ [b]) = hd (xs @ [c])"
    by (cases ys; cases xs; auto)+
  then have "is_sorted m (hd (xs @ ys @ [b])) (hd (ys @ [b])) lt = Some True"
    using is_sorted_chain [of m us xs c cs lt] wf asc c by simp
  ultimately show ?thesis
    using inplace_merge_loop_chain [OF wf \<open>us \<noteq> []\<close>] nonnull by (simp add: inplace_merge_def)
qed

lemma list_sort_pass_chain:
  assumes "wf_chain m (us @ xs @ [tail_node l])" "us \<noteq> []" "l \<noteq> 0"
  shows "\<exists>m'. list_sort_pass m l lt (hd (xs @ [tail_node l])) cnt = Some (cnt + fst (sort_pass lt xs), m') \<and>
    wf_chain m' (us @ snd (sort_pass lt xs) @ [tail_node l]) \<and>
    agree_off (set (us @ xs @ [tail_node l])) m m'"
  using assms
proof (induction xs arbitrary: us m cnt rule: sort_pass_induct [where lt = lt])
  case Nil
  then show ?case
    by (simp add: list_sort_pass.simps list_end_def)
next
  case (Run xs)
  have "hd xs \<noteq> tail_node l"
    using Run.prems(1) Run.hyps(1) by (cases xs) (auto simp: wf_chain_def)
  moreover have "find_end_of_run m (hd xs) (tail_node l) lt = Some (tail_node l)"
    using find_end_of_run_chain [of m us xs "tail_node l" "[]" lt] Run by simp
  ultimately show ?case
    using Run by (simp add: list_sort_pass.simps list_end_def sort_pass_Run)
next
  case (Merge xs)
  define t where "t = tail_node l"
  define rs where "rs = fst (split_run lt xs)"
  define rest where "rest = snd (split_run lt xs)"
  define rs' where "rs' = fst (split_run lt rest)"
  define rest' where "rest' = snd (split_run lt rest)"
  have eqs: "xs = rs @ rest" "rest = rs' @ rest'" and ne: "rs \<noteq> []" "rest \<noteq> []" "rs' \<noteq> []"
    using Merge.hyps split_run_append [of lt xs] split_run_append [of lt rest]
      split_run_nonempty [of xs lt] split_run_nonempty [of rest lt]
    by (simp_all add: rs_def rest_def rs'_def rest'_def)
  have wf: "wf_chain m (us @ rs @ rest @ [t])"
    using Merge.prems(1) eqs(1) by (simp add: t_def)
  have ends: "hd xs \<noteq> t" "hd rest \<noteq> t" "hd (xs @ [t]) = hd xs"
    using wf ne eqs by (cases rest; cases rs; auto simp: wf_chain_def)+
  have "hd xs = hd rs" "hd rest = hd rs'"
    using eqs ne by simp_all
  have find1: "find_end_of_run m (hd xs) t lt = Some (hd rest)"
    using find_end_of_run_chain [of m us xs t "[]" lt, folded rest_def] Merge ne
    by (simp flip: t_def)
  have find2: "find_end_of_run m (hd rest) t lt = Some (hd (rest' @ [t]))"
    using find_end_of_run_chain [of m "us @ rs" rest t "[]" lt] wf ne by (simp flip: rest'_def)
  obtain b vs where b: "rest' @ [t] = b # vs"
    by (cases "rest' @ [t]") auto
  have "wf_chain m (us @ rs @ rs' @ b # vs)"
    using wf eqs(2) b by simp
  from inplace_merge_chain [OF this Merge.prems(2)] obtain m1 where
    m1: "inplace_merge m (hd xs) (hd rest) b lt = Some m1"
      "wf_chain m1 (us @ merge_runs lt rs rs' @ b # vs)"
      "agree_off (set (us @ rs @ rs' @ b # vs)) m m1"
    using split_run_ascending [of lt xs, folded rs_def] split_run_ascending [of lt rest, folded rs'_def]
      ne(1,3) \<open>hd rest = hd rs'\<close> \<open>hd xs = hd rs\<close> by auto
  have "wf_chain m1 ((us @ merge_runs lt rs rs') @ rest' @ [tail_node l])"
    using m1(2) b by (simp add: t_def)
  from Merge.IH [folded rest_def, folded rest'_def, OF this, of "Suc cnt"] Merge.prems obtain m2 where
    m2: "list_sort_pass m1 l lt (hd (rest' @ [t])) (Suc cnt) =
          Some (Suc cnt + fst (sort_pass lt rest'), m2)"
      "wf_chain m2 ((us @ merge_runs lt rs rs') @ snd (sort_pass lt rest') @ [t])"
      "agree_off (set ((us @ merge_runs lt rs rs') @ rest' @ [t])) m1 m2"
    by (auto simp: t_def)
  have sp: "sort_pass lt xs =
      (Suc (fst (sort_pass lt rest')), merge_runs lt rs rs' @ snd (sort_pass lt rest'))"
    using sort_pass_Merge [OF Merge.hyps(1) refl Merge.hyps(2)]
    by (simp add: rs_def rest_def rs'_def rest'_def)
  have "set (us @ rs @ rs' @ b # vs) = set (us @ xs @ [t])"
    "set ((us @ merge_runs lt rs rs') @ rest' @ [t]) = set (us @ xs @ [t])"
    unfolding b [symmetric] by (auto simp: set_merge_runs eqs)
  then have "agree_off (set (us @ xs @ [t])) m m2"
    using m1(3) m2(3) by (metis agree_off_trans)
  moreover have "list_sort_pass m l lt (hd (xs @ [t])) cnt = Some (Suc cnt + fst (sort_pass lt rest'), m2)"
    using ends find1 find2 m1(1) m2(1) b Merge.prems(3)
    by (simp add: list_sort_pass.simps [of m l lt "hd xs"] list_end_def flip: t_def)
  ultimately show ?case
    using m2(2) by (simp add: sp flip: t_def)
qed

context strict_weak_order
begin

lemma sort_pass_decreases:
  "1 < fst (sort_pass lt xs) \<Longrightarrow> run_cnt lt (snd (sort_pass lt xs)) < run_cnt lt xs"
  using sort_pass_runs [of xs] sort_pass_cnt [of lt xs] by linarith

end

lemma list_sort_loop_is_list:
  fixes lt :: less_func
  assumes "strict_weak_order lt" "is_list m l xs"
  shows "\<exists>m' ys. list_sort_loop m l lt = Some m' \<and> is_list m' l ys \<and> mset ys = mset xs \<and>
    ascending lt ys \<and> (\<forall>k. filter (equiv_to lt k) ys = filter (equiv_to lt k) xs) \<and>
    agree_off (set (chain_of l xs)) m m'"
  using assms(2)
proof (induction "run_cnt lt xs" arbitrary: m xs rule: less_induct)
  case less
  have l: "l \<noteq> 0" and wf: "wf_chain m ([head_node l] @ xs @ [tail_node l])"
    using less.prems is_list_nonnull [OF less.prems] by (simp_all add: is_list_chain)
  obtain m1 where m1: "list_sort_pass m l lt (hd (xs @ [tail_node l])) 0 = Some (fst (sort_pass lt xs), m1)"
      "is_list m1 l (snd (sort_pass lt xs))" "agree_off (set (chain_of l xs)) m m1"
    using list_sort_pass_chain [OF wf _ l, of lt 0] by (auto simp: is_list_chain chain_of_def)
  note facts = mset_sort_pass [of lt xs] strict_weak_order.sort_pass_stable [OF assms(1)]
  have step: "list_sort_loop m l lt =
      (if fst (sort_pass lt xs) > 1 then list_sort_loop m1 l lt else Some m1)"
    using m1(1) is_list_begin [OF less.prems] by (simp add: list_sort_loop.simps [of m])
  show ?case
  proof (cases "fst (sort_pass lt xs) > 1")
    case True
    then have "run_cnt lt (snd (sort_pass lt xs)) < run_cnt lt xs"
      by (rule strict_weak_order.sort_pass_decreases [OF assms(1)])
    from less.hyps [OF this m1(2)] obtain m2 ys where
      m2: "list_sort_loop m1 l lt = Some m2" "is_list m2 l ys"
        "mset ys = mset (snd (sort_pass lt xs))" "ascending lt ys"
        "\<forall>k. filter (equiv_to lt k) ys = filter (equiv_to lt k) (snd (sort_pass lt xs))"
        "agree_off (set (chain_of l (snd (sort_pass lt xs)))) m1 m2"
      by auto
    have "set (chain_of l (snd (sort_pass lt xs))) = set (chain_of l xs)"
      using arg_cong [OF facts(1), of set_mset] by (simp add: set_chain_of)
    with m1(3) m2(6) have "agree_off (set (chain_of l xs)) m m2"
      by (metis agree_off_trans)
    with m2 True step facts show ?thesis by auto
  next
    case False
    then have "ascending lt (snd (sort_pass lt xs))"
      using strict_weak_order.sort_pass_runs [OF assms(1), of xs]
        strict_weak_order.run_cnt_le_1_ascending [OF assms(1)] by simp
    with m1 False step facts show ?thesis by auto
  qed
qed

text \<open>
  C1: \<^verbatim>\<open>list_sort\<close> (\<^verbatim>\<open>lib/kernel/list.c\<close>) never fails an assertion and always returns when
  the comparison function is a strict weak order; it relinks exactly the nodes of the list, so
  that they form a permutation of the old list, in ascending order, elements that compare equal
  keeping their relative order (stability), and writes no node outside the list.
\<close>

theorem list_sort_correct:
  assumes "strict_weak_order lt" "is_list m l xs"
  shows "\<exists>m' ys. list_sort m l lt = Some m' \<and> is_list m' l ys \<and> mset ys = mset xs \<and>
    sorted_wrt (\<lambda>x y. \<not> lt y x) ys \<and>
    (\<forall>k. filter (equiv_to lt k) ys = filter (equiv_to lt k) xs) \<and>
    agree_off (set (chain_of l xs)) m m'"
proof -
  obtain m' ys where m': "list_sort_loop m l lt = Some m'" "is_list m' l ys" "mset ys = mset xs"
    "ascending lt ys" "\<forall>k. filter (equiv_to lt k) ys = filter (equiv_to lt k) xs"
    "agree_off (set (chain_of l xs)) m m'"
    using list_sort_loop_is_list [OF assms] by auto
  have "is_sorted m' (hd (ys @ [tail_node l])) (tail_node l) lt = Some True"
    using is_sorted_chain [of m' "[head_node l]" ys "tail_node l" "[]" lt] m'(2,4)
    by (simp add: is_list_chain)
  then have "list_sort m l lt = Some m'"
    using m'(1,2) is_list_nonnull [OF assms(2)]
    by (simp add: list_sort_def is_list_begin is_list_end)
  then show ?thesis
    using m' strict_weak_order.successively_sorted [OF assms(1)] by auto
qed

text \<open>A two-element list at address 8 (head node 8, tail node 16) with nodes 40 and 24.\<close>

definition two_nodes :: links where
  "two_nodes = \<lparr>prev_of = (\<lambda>_. 0)(16 := 24, 24 := 40, 40 := 8),
                next_of = (\<lambda>_. 0)(8 := 40, 40 := 24, 24 := 16)\<rparr>"

lemma two_nodes_is_list: "is_list two_nodes 8 [40, 24]"
  by (simp add: two_nodes_def is_list_def wf_chain_def chain_of_def head_node_def tail_node_def)

theorem list_sort_correct_witness:
  "strict_weak_order (\<lambda>a b. (a::addr) < b) \<and> is_list two_nodes 8 [40, 24] \<and>
   (\<exists>m' ys. list_sort two_nodes 8 (\<lambda>a b. a < b) = Some m' \<and> is_list m' 8 ys \<and>
     mset ys = {#24, 40#} \<and> sorted_wrt (\<lambda>x y. \<not> y < x) ys)"
  using list_sort_correct [OF strict_weak_order_key(1) [of "\<lambda>a. a"] two_nodes_is_list]
    two_nodes_is_list strict_weak_order_key(1) [of "\<lambda>a::addr. a"]
  by (simp add: add_mset_commute) blast

section \<open>Ordered insertion\<close>

lemma list_insert_ordered_loop_chain:
  assumes "wf_chain m (us @ xs @ [t])"
  shows "list_insert_ordered_loop m (hd (xs @ [t])) t e lt =
    Some (hd (dropWhile (\<lambda>x. \<not> lt e x) xs @ [t]))"
  using assms
proof (induction xs arbitrary: us)
  case Nil
  then show ?case by (simp add: list_insert_ordered_loop.simps)
next
  case (Cons x xs)
  have "x \<noteq> t"
    using Cons.prems by (auto simp: wf_chain_def)
  obtain b vs where "xs @ [t] = b # vs"
    by (cases "xs @ [t]") auto
  then have "list_next m x = Some (hd (xs @ [t]))"
    using list_next_chain [of m us x b vs] Cons.prems by simp
  then show ?case
    using Cons.IH [of "us @ [x]"] Cons.prems \<open>x \<noteq> t\<close>
    by (simp add: list_insert_ordered_loop.simps [of m x])
qed

lemma list_insert_ordered_is_list:
  assumes "is_list m l xs" "fresh_node e l xs"
  shows "\<exists>m'. list_insert_ordered m l e lt = Some m' \<and>
    is_list m' l (takeWhile (\<lambda>x. \<not> lt e x) xs @ e # dropWhile (\<lambda>x. \<not> lt e x) xs) \<and>
    agree_off (insert e (set (chain_of l xs))) m m'"
proof -
  have "list_insert_ordered_loop m (hd (xs @ [tail_node l])) (tail_node l) e lt =
      Some (hd (dropWhile (\<lambda>x. \<not> lt e x) xs @ [tail_node l]))"
    using list_insert_ordered_loop_chain [of m "[head_node l]"] assms(1) by (simp add: is_list_chain)
  then have "list_insert_ordered m l e lt = list_insert m (hd (dropWhile (\<lambda>x. \<not> lt e x) xs @ [tail_node l])) e"
    using assms is_list_nonnull [OF assms(1)]
    by (simp add: list_insert_ordered_def is_list_begin is_list_end fresh_node_def)
  then show ?thesis
    using list_insert_is_list [of m l "takeWhile (\<lambda>x. \<not> lt e x) xs" "dropWhile (\<lambda>x. \<not> lt e x) xs" e] assms
    by simp
qed

context strict_weak_order
begin

lemma dropWhile_greater:
  "sorted_wrt (\<lambda>x y. \<not> lt y x) xs \<Longrightarrow> v \<in> set (dropWhile (\<lambda>x. \<not> lt e x) xs) \<Longrightarrow> lt e v"
proof (induction xs)
  case (Cons x xs)
  show ?case
  proof (cases "lt e x")
    case True
    then show ?thesis
      using Cons.prems lt_le_trans [of e x v] by (cases "v = x") simp_all
  next
    case False
    then show ?thesis
      using Cons by simp
  qed
qed simp

lemma sorted_wrt_between:
  "sorted_wrt R (us @ vs) \<Longrightarrow> (\<And>u. u \<in> set us \<Longrightarrow> R u e) \<Longrightarrow> (\<And>v. v \<in> set vs \<Longrightarrow> R e v) \<Longrightarrow>
   sorted_wrt R (us @ e # vs)"
  by (simp add: sorted_wrt_append)

lemma insert_position_sorted:
  assumes "sorted_wrt (\<lambda>x y. \<not> lt y x) xs"
  shows "sorted_wrt (\<lambda>x y. \<not> lt y x)
    (takeWhile (\<lambda>x. \<not> lt e x) xs @ e # dropWhile (\<lambda>x. \<not> lt e x) xs)"
proof (rule sorted_wrt_between)
  show "sorted_wrt (\<lambda>x y. \<not> lt y x) (takeWhile (\<lambda>x. \<not> lt e x) xs @ dropWhile (\<lambda>x. \<not> lt e x) xs)"
    using assms by simp
  show "\<not> lt v e" if "v \<in> set (dropWhile (\<lambda>x. \<not> lt e x) xs)" for v
    using dropWhile_greater [OF assms that] by (rule asym)
  show "\<not> lt e u" if "u \<in> set (takeWhile (\<lambda>x. \<not> lt e x) xs)" for u
    using set_takeWhileD [OF that] by simp
qed

end

text \<open>
  C23: \<^verbatim>\<open>list_insert_ordered\<close> puts a new node in front of the first element that is greater and
  so keeps a sorted list sorted; elements equal to the new one stay in front of it.
\<close>

theorem list_insert_ordered_sorted:
  assumes "strict_weak_order lt" "is_list m l xs" "fresh_node e l xs"
    and "sorted_wrt (\<lambda>x y. \<not> lt y x) xs"
  shows "\<exists>m' us vs. list_insert_ordered m l e lt = Some m' \<and> is_list m' l (us @ e # vs) \<and>
    xs = us @ vs \<and> sorted_wrt (\<lambda>x y. \<not> lt y x) (us @ e # vs) \<and>
    (\<forall>u\<in>set us. \<not> lt e u) \<and> (\<forall>v\<in>set vs. lt e v)"
proof -
  let ?us = "takeWhile (\<lambda>x. \<not> lt e x) xs" and ?vs = "dropWhile (\<lambda>x. \<not> lt e x) xs"
  have "\<forall>v\<in>set ?vs. lt e v"
    using strict_weak_order.dropWhile_greater [OF assms(1,4)] by blast
  moreover have "\<forall>u\<in>set ?us. \<not> lt e u"
    by (blast dest: set_takeWhileD)
  moreover have "xs = ?us @ ?vs"
    by simp
  moreover obtain m' where "list_insert_ordered m l e lt = Some m'" "is_list m' l (?us @ e # ?vs)"
    using list_insert_ordered_is_list [OF assms(2,3), of lt] by blast
  ultimately show ?thesis
    using strict_weak_order.insert_position_sorted [OF assms(1,4), of e] by blast
qed

theorem list_insert_ordered_sorted_witness:
  "\<exists>m' us vs. list_insert_ordered two_nodes 8 32 (\<lambda>a b. a > b) = Some m' \<and>
    is_list m' 8 (us @ 32 # vs) \<and> [40, 24] = us @ vs \<and> sorted_wrt (\<lambda>x y. \<not> y > x) (us @ 32 # vs)"
proof -
  have "fresh_node 32 8 [40, 24]"
    by (simp add: fresh_node_def chain_of_def head_node_def tail_node_def)
  from list_insert_ordered_sorted [OF strict_weak_order_key(2) [of "\<lambda>a. a"] two_nodes_is_list this]
  show ?thesis
    by simp blast
qed

section \<open>Extremal elements\<close>

lemma list_max_loop_chain:
  assumes "wf_chain m (us @ xs @ [t])"
  shows "list_max_loop m mx (hd (xs @ [t])) t lt =
    Some (fold (\<lambda>e mx. if lt mx e then e else mx) xs mx)"
  using assms
proof (induction xs arbitrary: us mx)
  case Nil
  then show ?case by (simp add: list_max_loop.simps)
next
  case (Cons x xs)
  have "x \<noteq> t"
    using Cons.prems by (auto simp: wf_chain_def)
  moreover have "list_next m x = Some (hd (xs @ [t]))"
    using list_next_chain [of m us x "hd (xs @ [t])" "tl (xs @ [t])"] Cons.prems by simp
  ultimately show ?case
    using Cons.IH [of "us @ [x]"] Cons.prems by (simp add: list_max_loop.simps [of m mx x])
qed

lemma list_max_is_list:
  assumes "is_list m l xs"
  shows "list_max m l lt = Some (if xs = [] then tail_node l
    else fold (\<lambda>e mx. if lt mx e then e else mx) (tl xs) (hd xs))"
proof (cases xs)
  case Nil
  then show ?thesis
    using assms by (simp add: list_max_def is_list_begin is_list_end)
next
  case (Cons x ys)
  then have wf: "wf_chain m ([head_node l] @ x # ys @ [tail_node l])"
    using assms by (simp add: is_list_chain)
  then have "x \<noteq> tail_node l"
    by (auto simp: wf_chain_def)
  moreover have "list_next m x = Some (hd (ys @ [tail_node l]))"
    using list_next_chain [of m "[head_node l]" x "hd (ys @ [tail_node l])" "tl (ys @ [tail_node l])"] wf
    by simp
  ultimately show ?thesis
    using assms list_max_loop_chain [of m "[head_node l, x]" ys "tail_node l"] wf Cons
    by (simp add: list_max_def is_list_begin is_list_end)
qed

lemma list_min_loop_flip:
  assumes "wf_chain m (us @ xs @ [t])"
  shows "list_min_loop m mn (hd (xs @ [t])) t lt = list_max_loop m mn (hd (xs @ [t])) t (\<lambda>a b. lt b a)"
  using assms
proof (induction xs arbitrary: us mn)
  case Nil
  then show ?case by (simp add: list_max_loop.simps list_min_loop.simps)
next
  case (Cons x xs)
  have "list_next m x = Some (hd (xs @ [t]))"
    using list_next_chain [of m us x "hd (xs @ [t])" "tl (xs @ [t])"] Cons.prems by simp
  then show ?case
    using Cons.IH [of "us @ [x]"] Cons.prems
    by (simp add: list_max_loop.simps [of m mn x] list_min_loop.simps [of m mn x])
qed

lemma list_min_flip:
  assumes "is_list m l xs"
  shows "list_min m l lt = list_max m l (\<lambda>a b. lt b a)"
proof (cases xs)
  case (Cons x ys)
  then have wf: "wf_chain m ([head_node l] @ x # ys @ [tail_node l])"
    using assms by (simp add: is_list_chain)
  then have "list_next m x = Some (hd (ys @ [tail_node l]))"
    using list_next_chain [of m "[head_node l]" x "hd (ys @ [tail_node l])" "tl (ys @ [tail_node l])"]
    by simp
  then show ?thesis
    using assms list_min_loop_flip [of m "[head_node l, x]" ys "tail_node l"] wf Cons
    by (simp add: list_max_def list_min_def is_list_begin is_list_end)
qed (use assms in \<open>simp add: list_max_def list_min_def is_list_begin is_list_end\<close>)

context strict_weak_order
begin

lemma fold_max_first:
  "\<exists>us vs. x # xs = us @ fold (\<lambda>e mx. if lt mx e then e else mx) xs x # vs \<and>
    (\<forall>u\<in>set us. lt u (fold (\<lambda>e mx. if lt mx e then e else mx) xs x)) \<and>
    (\<forall>v\<in>set vs. \<not> lt (fold (\<lambda>e mx. if lt mx e then e else mx) xs x) v)"
proof (induction xs rule: rev_induct)
  case (snoc z xs)
  define r where "r = fold (\<lambda>e mx. if lt mx e then e else mx) xs x"
  obtain us vs where uv: "x # xs = us @ r # vs" "\<forall>u\<in>set us. lt u r" "\<forall>v\<in>set vs. \<not> lt r v"
    using snoc unfolding r_def by blast
  have f: "fold (\<lambda>e mx. if lt mx e then e else mx) (xs @ [z]) x = (if lt r z then z else r)"
    by (simp add: r_def)
  show ?case
  proof (cases "lt r z")
    case True
    have "\<forall>u\<in>set (x # xs). lt u z"
      unfolding uv(1) using uv(2,3) True by (auto intro: lt_trans le_lt_trans)
    then show ?thesis
      unfolding f using True by (intro exI [of _ "x # xs"] exI [of _ "[]"]) simp
  next
    case False
    have "x # xs @ [z] = us @ r # (vs @ [z])"
      using uv(1) by (metis append_Cons append_assoc)
    then show ?thesis
      unfolding f using uv(2,3) False by (intro exI [of _ us] exI [of _ "vs @ [z]"]) simp
  qed
qed (intro exI [of _ "[]"], simp)

lemma dual: "strict_weak_order (\<lambda>a b. lt b a)"
  by unfold_locales (use asym negtrans in blast)+

end

text \<open>
  \<^verbatim>\<open>list_max\<close> and \<^verbatim>\<open>list_min\<close> on a non-empty list return its first maximum and its
  first minimum: everything before it is strictly worse, nothing after it is better.
\<close>

theorem list_max_min_first:
  assumes "strict_weak_order lt" "is_list m l xs" "xs \<noteq> []"
  shows "(\<exists>us x vs. list_max m l lt = Some x \<and> xs = us @ x # vs \<and>
      (\<forall>u\<in>set us. lt u x) \<and> (\<forall>v\<in>set vs. \<not> lt x v)) \<and>
    (\<exists>us x vs. list_min m l lt = Some x \<and> xs = us @ x # vs \<and>
      (\<forall>u\<in>set us. lt x u) \<and> (\<forall>v\<in>set vs. \<not> lt v x))"
proof -
  obtain y ys where xs: "xs = y # ys"
    using assms(3) by (cases xs) auto
  have *: "\<exists>us x vs. list_max m l lt = Some x \<and> xs = us @ x # vs \<and>
      (\<forall>u\<in>set us. lt u x) \<and> (\<forall>v\<in>set vs. \<not> lt x v)" if "strict_weak_order lt" for lt
    using strict_weak_order.fold_max_first [OF that, of y ys] list_max_is_list [OF assms(2), of lt]
    unfolding xs by auto
  show ?thesis
    using * [OF assms(1)] * [OF strict_weak_order.dual [OF assms(1)]]
    unfolding list_min_flip [OF assms(2)] by (rule conjI)
qed

theorem list_max_min_first_witness:
  "(\<exists>us x vs. list_max two_nodes 8 (\<lambda>a b. a < b) = Some x \<and> [40, 24] = us @ x # vs \<and>
      (\<forall>u\<in>set us. u < x) \<and> (\<forall>v\<in>set vs. \<not> x < v)) \<and>
   (\<exists>us x vs. list_min two_nodes 8 (\<lambda>a b. a < b) = Some x \<and> [40, 24] = us @ x # vs \<and>
      (\<forall>u\<in>set us. x < u) \<and> (\<forall>v\<in>set vs. \<not> v < x))"
  by (rule list_max_min_first [OF strict_weak_order_key(1) [of "\<lambda>a. a"] two_nodes_is_list]) simp

section \<open>Removing adjacent duplicates\<close>

text \<open>What \<^verbatim>\<open>list_unique\<close> keeps and what it moves to \<open>dups\<close>, on a list with head \<open>x\<close>.\<close>

fun unique_kept :: "('a \<Rightarrow> 'a \<Rightarrow> bool) \<Rightarrow> 'a \<Rightarrow> 'a list \<Rightarrow> 'a list" where
  "unique_kept lt x [] = [x]"
| "unique_kept lt x (y # ys) =
    (if equiv_to lt x y then unique_kept lt x ys else x # unique_kept lt y ys)"

fun unique_dups :: "('a \<Rightarrow> 'a \<Rightarrow> bool) \<Rightarrow> 'a \<Rightarrow> 'a list \<Rightarrow> 'a list" where
  "unique_dups lt x [] = []"
| "unique_dups lt x (y # ys) =
    (if equiv_to lt x y then y # unique_dups lt x ys else unique_dups lt y ys)"

lemma mset_unique: "mset (unique_kept lt x ys) + mset (unique_dups lt x ys) = mset (x # ys)"
  by (induction lt x ys rule: unique_kept.induct) (auto simp: add_mset_commute)

lemma successively_unique:
  "successively (\<lambda>a b. \<not> equiv_to lt a b) (unique_kept lt x ys) \<and> hd (unique_kept lt x ys) = x"
proof (induction lt x ys rule: unique_kept.induct)
  case (2 lt x y ys)
  then show ?case
    by (cases "unique_kept lt y ys") auto
qed simp

lemma list_unique_loop_is_list:
  assumes "is_list m l (us @ x # ys)"
    and "dups \<noteq> 0 \<Longrightarrow> is_list m dups ds"
    and "dups \<noteq> 0 \<Longrightarrow> set (chain_of l (us @ x # ys)) \<inter> set (chain_of dups ds) = {}"
  shows "\<exists>m'. list_unique_loop m x (tail_node l) dups lt = Some m' \<and>
    is_list m' l (us @ unique_kept lt x ys) \<and>
    (dups \<noteq> 0 \<longrightarrow> is_list m' dups (ds @ unique_dups lt x ys))"
  using assms
proof (induction lt x ys arbitrary: m us ds rule: unique_kept.induct)
  case (1 lt x)
  then have "list_next m x = Some (tail_node l)"
    using list_next_chain [of m "head_node l # us" x "tail_node l" "[]"] by (simp add: is_list_chain)
  then show ?case
    using 1 by (simp add: list_unique_loop.simps)
next
  case (2 lt x y ys)
  have nxt: "list_next m x = Some y" "y \<noteq> tail_node l"
    using list_next_chain [of m "head_node l # us" x y "ys @ [tail_node l]"] 2(3)
    by (auto simp: is_list_chain wf_chain_def)
  show ?case
  proof (cases "equiv_to lt x y")
    case False
    then have "list_unique_loop m x (tail_node l) dups lt = list_unique_loop m y (tail_node l) dups lt"
      using nxt by (subst list_unique_loop.simps) (auto simp: equiv_to_def)
    then show ?thesis
      using 2(2) [OF False, of m "us @ [x]" ds] 2(3-5) False by simp
  next
    case True
    obtain m1 where m1: "list_remove m y = Some (hd (ys @ [tail_node l]), m1)"
        "is_list m1 l (us @ x # ys)" "agree_off (set (chain_of l (us @ x # ys))) m m1"
      using list_remove_is_list [of m l "us @ [x]" y ys] 2(3) by auto
    have m2: "\<exists>m2. (if dups \<noteq> 0 then list_push_back m1 dups y else Some m1) = Some m2 \<and>
        is_list m2 l (us @ x # ys) \<and> (dups \<noteq> 0 \<longrightarrow> is_list m2 dups (ds @ [y]))"
    proof (cases "dups = 0")
      case False
      have disj: "set (chain_of l (us @ x # y # ys)) \<inter> set (chain_of dups ds) = {}"
        using 2(5) False by simp
      have "is_list m1 dups ds"
        by (rule is_list_agree_off [OF 2(4) m1(3)]) (use False disj in \<open>auto simp: set_chain_of\<close>)
      moreover have "fresh_node y dups ds"
        using disj is_list_elems [OF 2(3)] by (auto simp: fresh_node_def set_chain_of)
      ultimately obtain m2 where m2: "list_push_back m1 dups y = Some m2" "is_list m2 dups (ds @ [y])"
          "agree_off (insert y (set (chain_of dups ds))) m1 m2"
        using list_push_back_is_list by blast
      have "is_list m2 l (us @ x # ys)"
        by (rule is_list_agree_off [OF m1(2) m2(3)])
          (use disj is_list_elems [OF 2(3)] in \<open>auto simp: set_chain_of\<close>)
      with m2 False show ?thesis by simp
    qed (use m1 in simp)
    then obtain m2 where m2: "(if dups \<noteq> 0 then list_push_back m1 dups y else Some m1) = Some m2"
        "is_list m2 l (us @ x # ys)" "dups \<noteq> 0 \<Longrightarrow> is_list m2 dups (ds @ [y])"
      by blast
    have "set (chain_of l (us @ x # ys)) \<inter> set (chain_of dups (ds @ [y])) = {}" if "dups \<noteq> 0"
      using 2(5) [OF that] is_list_elems [OF 2(3)] by (auto simp: set_chain_of)
    moreover have "list_unique_loop m x (tail_node l) dups lt = list_unique_loop m2 x (tail_node l) dups lt"
      using nxt True m1(1) m2(1) by (subst list_unique_loop.simps) (auto simp: equiv_to_def)
    ultimately show ?thesis
      using 2(1) [OF True m2(2) m2(3)] True by simp
  qed
qed

text \<open>
  \<^verbatim>\<open>list_unique\<close> on a non-empty list returns; the list keeps one element of each run of
  adjacent equal elements, no two neighbours are equal afterwards, and the removed elements are
  appended, in order, to the disjoint list \<open>dups\<close>; nothing is lost.
\<close>

theorem list_unique_correct:
  assumes "is_list m l (x # ys)" "is_list m dups ds"
    and "set (chain_of l (x # ys)) \<inter> set (chain_of dups ds) = {}"
  shows "\<exists>m' ks es. list_unique m l dups lt = Some m' \<and> is_list m' l ks \<and> is_list m' dups (ds @ es) \<and>
    mset ks + mset es = mset (x # ys) \<and> successively (\<lambda>a b. \<not> equiv_to lt a b) ks"
proof -
  obtain m' where "list_unique_loop m x (tail_node l) dups lt = Some m'"
      "is_list m' l (unique_kept lt x ys)" "is_list m' dups (ds @ unique_dups lt x ys)"
    using list_unique_loop_is_list [of m l "[]" x ys dups ds lt] assms is_list_nonnull [OF assms(2)] by auto
  moreover from this(1) have "list_unique m l dups lt = Some m'"
    using assms is_list_nonnull [OF assms(1)]
    by (simp add: list_unique_def list_empty_is_list is_list_begin is_list_end)
  ultimately show ?thesis
    using mset_unique [of lt x ys] successively_unique [of lt x ys] by auto
qed

text \<open>The two-element list at 8 beside an empty list at 56.\<close>

definition two_lists :: links where
  "two_lists = set_prev (set_next two_nodes 56 64) 64 56"

theorem list_unique_correct_witness:
  "\<exists>m' ks es. list_unique two_lists 8 56 (\<lambda>_ _. False) = Some m' \<and> is_list m' 8 ks \<and>
    is_list m' 56 es \<and> mset ks + mset es = {#24, 40#}"
proof -
  have "is_list two_lists 8 [40, 24]" "is_list two_lists 56 []"
    "set (chain_of 8 [40, 24]) \<inter> set (chain_of 56 []) = {}"
    by (simp_all add: two_lists_def two_nodes_def is_list_def wf_chain_def chain_of_def head_node_def
        tail_node_def set_prev_def set_next_def)
  from list_unique_correct [OF this, of "\<lambda>_ _. False"] show ?thesis
    by (simp add: add_mset_commute) blast
qed

end
