(* ===== verification/Bitmap.thy ===== *)
theory Bitmap
  imports Prelude
begin

text \<open>
  The bitmaps of \<^verbatim>\<open>lib/kernel/bitmap.c\<close>: an array of 32-bit elements read as an array of bits,
  with \<^verbatim>\<open>size_t\<close> as a natural number whose additions wrap at \<^term>\<open>SIZE_MOD\<close>. An operation returns
  \<^term>\<open>None\<close> when an assertion of the source fails or it would touch an element outside the array.
  The reference is the list of bits \<open>bits_of\<close>: every operation is shown to act on it, and
  \<^verbatim>\<open>bitmap_scan_and_flip\<close> is shown to be an allocator of index ranges.
\<close>

section \<open>Definitions\<close>

abbreviation ELEM_BITS :: nat where "ELEM_BITS \<equiv> 32"

definition BITMAP_ERROR :: nat where "BITMAP_ERROR = SIZE_MOD - 1"

record bitmap =
  bit_cnt :: nat
  bits :: "u32 list"

definition elem_idx :: "nat \<Rightarrow> nat" where
  "elem_idx bit_idx = bit_idx div ELEM_BITS"

definition bit_mask :: "nat \<Rightarrow> u32" where
  "bit_mask bit_idx = push_bit (bit_idx mod ELEM_BITS) 1"

definition elem_cnt :: "nat \<Rightarrow> nat" where
  "elem_cnt n = ((n + ELEM_BITS - 1) mod SIZE_MOD) div ELEM_BITS"

definition byte_cnt :: "nat \<Rightarrow> nat" where
  "byte_cnt n = 4 * elem_cnt n"

definition last_mask :: "bitmap \<Rightarrow> u32" where
  "last_mask b = (let last_bits = bit_cnt b mod ELEM_BITS
                  in if last_bits \<noteq> 0 then push_bit last_bits 1 - 1 else - 1)"

text \<open>The element at an index, and the array with that element replaced; outside the array
  neither is defined.\<close>

definition load_elem :: "bitmap \<Rightarrow> nat \<Rightarrow> u32 option" where
  "load_elem b i = (if i < length (bits b) then Some (bits b ! i) else None)"

definition store_elem :: "bitmap \<Rightarrow> nat \<Rightarrow> u32 \<Rightarrow> bitmap option" where
  "store_elem b i e = (if i < length (bits b) then Some (b\<lparr>bits := (bits b)[i := e]\<rparr>) else None)"

definition bitmap_size :: "bitmap \<Rightarrow> nat" where
  "bitmap_size b = bit_cnt b"

definition bitmap_mark :: "bitmap \<Rightarrow> nat \<Rightarrow> bitmap option" where
  "bitmap_mark b bit_idx = do {
     let idx = elem_idx bit_idx;
     let mask = bit_mask bit_idx;
     e \<leftarrow> load_elem b idx;
     store_elem b idx (e OR mask) }"

definition bitmap_reset :: "bitmap \<Rightarrow> nat \<Rightarrow> bitmap option" where
  "bitmap_reset b bit_idx = do {
     let idx = elem_idx bit_idx;
     let mask = bit_mask bit_idx;
     e \<leftarrow> load_elem b idx;
     store_elem b idx (e AND NOT mask) }"

definition bitmap_flip :: "bitmap \<Rightarrow> nat \<Rightarrow> bitmap option" where
  "bitmap_flip b bit_idx = do {
     let idx = elem_idx bit_idx;
     let mask = bit_mask bit_idx;
     e \<leftarrow> load_elem b idx;
     store_elem b idx (e XOR mask) }"

definition bitmap_set :: "bitmap \<Rightarrow> nat \<Rightarrow> bool \<Rightarrow> bitmap option" where
  "bitmap_set b idx v = do {
     ASSERT (idx < bit_cnt b);
     if v then bitmap_mark b idx else bitmap_reset b idx }"

definition bitmap_test :: "bitmap \<Rightarrow> nat \<Rightarrow> bool option" where
  "bitmap_test b idx = do {
     ASSERT (idx < bit_cnt b);
     e \<leftarrow> load_elem b (elem_idx idx);
     Some (e AND bit_mask idx \<noteq> 0) }"

text \<open>The index \<open>start + i\<close> computed in \<^verbatim>\<open>size_t\<close>.\<close>

definition size_add :: "nat \<Rightarrow> nat \<Rightarrow> nat" where
  "size_add a b = (a + b) mod SIZE_MOD"

function bitmap_set_multiple_loop :: "bitmap \<Rightarrow> nat \<Rightarrow> nat \<Rightarrow> bool \<Rightarrow> nat \<Rightarrow> bitmap option" where
  "bitmap_set_multiple_loop b start cnt v i =
     (if i < cnt
      then do {
        b \<leftarrow> bitmap_set b (size_add start i) v;
        bitmap_set_multiple_loop b start cnt v (i + 1) }
      else Some b)"
  by pat_completeness auto
termination by (relation "measure (\<lambda>(_, _, cnt, _, i). cnt - i)") auto

definition bitmap_set_multiple :: "bitmap \<Rightarrow> nat \<Rightarrow> nat \<Rightarrow> bool \<Rightarrow> bitmap option" where
  "bitmap_set_multiple b start cnt v = do {
     ASSERT (start \<le> bit_cnt b);
     ASSERT (size_add start cnt \<le> bit_cnt b);
     bitmap_set_multiple_loop b start cnt v 0 }"

definition bitmap_set_all :: "bitmap \<Rightarrow> bool \<Rightarrow> bitmap option" where
  "bitmap_set_all b v = bitmap_set_multiple b 0 (bitmap_size b) v"

text \<open>\<^verbatim>\<open>malloc\<close> decides whether the two allocations succeed; \<open>block\<close> is the second block with
  whatever it held. The inner option is the null pointer returned to the caller.\<close>

definition bitmap_create :: "bool \<Rightarrow> u32 list option \<Rightarrow> nat \<Rightarrow> bitmap option option" where
  "bitmap_create ok block cnt =
     (if ok then
        if block \<noteq> None \<or> cnt = 0
        then do {
          b \<leftarrow> bitmap_set_all \<lparr>bit_cnt = cnt, bits = (case block of Some es \<Rightarrow> es | None \<Rightarrow> [])\<rparr> False;
          Some (Some b) }
        else Some None
      else Some None)"

text \<open>\<^verbatim>\<open>struct bitmap\<close> itself takes eight bytes.\<close>

definition bitmap_buf_size :: "nat \<Rightarrow> nat" where
  "bitmap_buf_size cnt = size_add 8 (byte_cnt cnt)"

definition bitmap_create_in_buf :: "nat \<Rightarrow> u32 list \<Rightarrow> nat \<Rightarrow> bitmap option" where
  "bitmap_create_in_buf cnt block block_size = do {
     ASSERT (block_size \<ge> bitmap_buf_size cnt);
     bitmap_set_all \<lparr>bit_cnt = cnt, bits = block\<rparr> False }"

function bitmap_count_loop :: "bitmap \<Rightarrow> nat \<Rightarrow> nat \<Rightarrow> bool \<Rightarrow> nat \<Rightarrow> nat \<Rightarrow> nat option" where
  "bitmap_count_loop b start cnt v i value_cnt =
     (if i < cnt
      then do {
        t \<leftarrow> bitmap_test b (size_add start i);
        bitmap_count_loop b start cnt v (i + 1) (if t = v then value_cnt + 1 else value_cnt) }
      else Some value_cnt)"
  by pat_completeness auto
termination by (relation "measure (\<lambda>(_, _, cnt, _, i, _). cnt - i)") auto

definition bitmap_count :: "bitmap \<Rightarrow> nat \<Rightarrow> nat \<Rightarrow> bool \<Rightarrow> nat option" where
  "bitmap_count b start cnt v = do {
     ASSERT (start \<le> bit_cnt b);
     ASSERT (size_add start cnt \<le> bit_cnt b);
     bitmap_count_loop b start cnt v 0 0 }"

function bitmap_contains_loop :: "bitmap \<Rightarrow> nat \<Rightarrow> nat \<Rightarrow> bool \<Rightarrow> nat \<Rightarrow> bool option" where
  "bitmap_contains_loop b start cnt v i =
     (if i < cnt
      then do {
        t \<leftarrow> bitmap_test b (size_add start i);
        if t = v then Some True else bitmap_contains_loop b start cnt v (i + 1) }
      else Some False)"
  by pat_completeness auto
termination by (relation "measure (\<lambda>(_, _, cnt, _, i). cnt - i)") auto

definition bitmap_contains :: "bitmap \<Rightarrow> nat \<Rightarrow> nat \<Rightarrow> bool \<Rightarrow> bool option" where
  "bitmap_contains b start cnt v = do {
     ASSERT (start \<le> bit_cnt b);
     ASSERT (size_add start cnt \<le> bit_cnt b);
     bitmap_contains_loop b start cnt v 0 }"

definition bitmap_any :: "bitmap \<Rightarrow> nat \<Rightarrow> nat \<Rightarrow> bool option" where
  "bitmap_any b start cnt = bitmap_contains b start cnt True"

definition bitmap_none :: "bitmap \<Rightarrow> nat \<Rightarrow> nat \<Rightarrow> bool option" where
  "bitmap_none b start cnt = do { c \<leftarrow> bitmap_contains b start cnt True; Some (\<not> c) }"

definition bitmap_all :: "bitmap \<Rightarrow> nat \<Rightarrow> nat \<Rightarrow> bool option" where
  "bitmap_all b start cnt = do { c \<leftarrow> bitmap_contains b start cnt False; Some (\<not> c) }"

text \<open>The counter of \<^verbatim>\<open>bitmap_scan\<close> passes \<open>last\<close> without wrapping: it could only wrap for
  \<open>cnt = 0\<close>, where the first test already returns.\<close>

function bitmap_scan_loop :: "bitmap \<Rightarrow> nat \<Rightarrow> nat \<Rightarrow> bool \<Rightarrow> nat \<Rightarrow> nat option" where
  "bitmap_scan_loop b lst cnt v i =
     (if i \<le> lst
      then do {
        c \<leftarrow> bitmap_contains b i cnt (\<not> v);
        if \<not> c then Some i else bitmap_scan_loop b lst cnt v (i + 1) }
      else Some BITMAP_ERROR)"
  by pat_completeness auto
termination by (relation "measure (\<lambda>(_, lst, _, _, i). Suc lst - i)") auto

definition bitmap_scan :: "bitmap \<Rightarrow> nat \<Rightarrow> nat \<Rightarrow> bool \<Rightarrow> nat option" where
  "bitmap_scan b start cnt v = do {
     ASSERT (start \<le> bit_cnt b);
     if cnt \<le> bit_cnt b
     then bitmap_scan_loop b (bit_cnt b - cnt) cnt v start
     else Some BITMAP_ERROR }"

definition bitmap_scan_and_flip :: "bitmap \<Rightarrow> nat \<Rightarrow> nat \<Rightarrow> bool \<Rightarrow> (nat \<times> bitmap) option" where
  "bitmap_scan_and_flip b start cnt v = do {
     idx \<leftarrow> bitmap_scan b start cnt v;
     if idx \<noteq> BITMAP_ERROR
     then do { b \<leftarrow> bitmap_set_multiple b idx cnt (\<not> v); Some (idx, b) }
     else Some (idx, b) }"

definition bitmap_file_size :: "bitmap \<Rightarrow> nat" where
  "bitmap_file_size b = byte_cnt (bit_cnt b)"

declare bitmap_set_multiple_loop.simps [simp del] bitmap_count_loop.simps [simp del]
  bitmap_contains_loop.simps [simp del] bitmap_scan_loop.simps [simp del]

section \<open>The bits of a bitmap\<close>

definition bits_of :: "bitmap \<Rightarrow> bool list" where
  "bits_of b = map (\<lambda>i. bit (bits b ! (i div ELEM_BITS)) (i mod ELEM_BITS)) [0..<bit_cnt b]"

text \<open>Well-formedness: the array has room for every bit, and rounding the bit count up to whole
  elements does not wrap.\<close>

definition bitmap_ok :: "bitmap \<Rightarrow> bool" where
  "bitmap_ok b \<longleftrightarrow> bit_cnt b + 31 < SIZE_MOD \<and> length (bits b) = elem_cnt (bit_cnt b)"

lemma length_bits_of [simp]: "length (bits_of b) = bit_cnt b"
  by (simp add: bits_of_def)

lemma nth_bits_of: "i < bit_cnt b \<Longrightarrow> bits_of b ! i = bit (bits b ! (i div 32)) (i mod 32)"
  by (simp add: bits_of_def)

lemma elem_cnt_nowrap: "n + 31 < SIZE_MOD \<Longrightarrow> elem_cnt n = DIV_ROUND_UP n 32"
  by (simp add: elem_cnt_def DIV_ROUND_UP_def)

lemma elem_idx_less: "bitmap_ok b \<Longrightarrow> i < bit_cnt b \<Longrightarrow> elem_idx i < length (bits b)"
  by (simp add: bitmap_ok_def elem_cnt_nowrap elem_idx_def less_DIV_ROUND_UP_iff)

lemma bit_bit_mask: "n < 32 \<Longrightarrow> bit (bit_mask i) n \<longleftrightarrow> n = i mod 32"
  by (auto simp: bit_mask_def bit_simps)

lemma and_mask_nonzero: "(w::u32) AND bit_mask i \<noteq> 0 \<longleftrightarrow> bit w (i mod 32)"
proof
  assume w: "bit w (i mod 32)"
  have "bit (w AND bit_mask i) (i mod 32)"
    using w by (simp add: bit_and_iff bit_bit_mask)
  then show "w AND bit_mask i \<noteq> 0"
    by (metis bit_0_eq bot_apply bot_bool_def)
next
  assume "w AND bit_mask i \<noteq> 0"
  then show "bit w (i mod 32)"
    by (rule contrapos_np) (rule bit_word_eqI, auto simp: bit_and_iff bit_bit_mask)
qed

lemma bitmap_test_ok: "bitmap_ok b \<Longrightarrow> i < bit_cnt b \<Longrightarrow> bitmap_test b i = Some (bits_of b ! i)"
  using elem_idx_less [of b i]
  by (simp add: bitmap_test_def load_elem_def and_mask_nonzero nth_bits_of) (simp add: elem_idx_def)

text \<open>Replacing one element by one that differs at one bit only replaces that bit.\<close>

lemma bits_of_update:
  assumes ok: "bitmap_ok b" and i: "i < bit_cnt b"
    and e: "\<And>n. n < 32 \<Longrightarrow> bit e n = (if n = i mod 32 then v else bit (bits b ! (i div 32)) n)"
  shows "\<exists>b'. store_elem b (elem_idx i) e = Some b' \<and> bitmap_ok b' \<and> bit_cnt b' = bit_cnt b \<and>
    bits_of b' = (bits_of b)[i := v]"
proof -
  let ?b = "b\<lparr>bits := (bits b)[i div 32 := e]\<rparr>"
  have len: "i div 32 < length (bits b)"
    using elem_idx_less [OF ok i] by (simp add: elem_idx_def)
  have "bits_of ?b ! j = (bits_of b)[i := v] ! j" if "j < bit_cnt b" for j
  proof (cases "j div 32 = i div 32")
    case True
    then have "j mod 32 = i mod 32 \<longleftrightarrow> j = i"
      by (metis div_mult_mod_eq)
    with True that len i e show ?thesis
      by (auto simp: nth_bits_of nth_list_update)
  next
    case False
    with that show ?thesis
      by (auto simp: nth_bits_of nth_list_update)
  qed
  then have "bits_of ?b = (bits_of b)[i := v]"
    by (intro nth_equalityI) simp_all
  with ok len show ?thesis
    by (simp add: store_elem_def elem_idx_def bitmap_ok_def)
qed

lemma bitmap_single_ok:
  assumes "bitmap_ok b" "i < bit_cnt b"
  shows "\<exists>b'. bitmap_mark b i = Some b' \<and> bitmap_ok b' \<and> bit_cnt b' = bit_cnt b \<and>
      bits_of b' = (bits_of b)[i := True]"
    and "\<exists>b'. bitmap_reset b i = Some b' \<and> bitmap_ok b' \<and> bit_cnt b' = bit_cnt b \<and>
      bits_of b' = (bits_of b)[i := False]"
    and "\<exists>b'. bitmap_flip b i = Some b' \<and> bitmap_ok b' \<and> bit_cnt b' = bit_cnt b \<and>
      bits_of b' = (bits_of b)[i := \<not> bits_of b ! i]"
  using bits_of_update [OF assms, of "bits b ! elem_idx i OR bit_mask i" True]
    bits_of_update [OF assms, of "bits b ! elem_idx i AND NOT (bit_mask i)" False]
    bits_of_update [OF assms, of "bits b ! elem_idx i XOR bit_mask i" "\<not> bits_of b ! i"]
    elem_idx_less [OF assms] nth_bits_of [OF assms(2)]
  by (simp_all add: bitmap_mark_def bitmap_reset_def bitmap_flip_def load_elem_def bit_simps
      bit_bit_mask elem_idx_def Let_def)

lemma bitmap_set_ok:
  "bitmap_ok b \<Longrightarrow> i < bit_cnt b \<Longrightarrow> \<exists>b'. bitmap_set b i v = Some b' \<and> bitmap_ok b' \<and>
    bit_cnt b' = bit_cnt b \<and> bits_of b' = (bits_of b)[i := v]"
  using bitmap_single_ok [of b i] by (cases v) (simp_all add: bitmap_set_def)

section \<open>Ranges\<close>

lemma size_add_in: "bitmap_ok b \<Longrightarrow> start + i \<le> bit_cnt b \<Longrightarrow> size_add start i = start + i"
  by (simp add: size_add_def bitmap_ok_def)

definition set_range :: "'a list \<Rightarrow> nat \<Rightarrow> nat \<Rightarrow> 'a \<Rightarrow> 'a list" where
  "set_range xs start cnt v = take start xs @ replicate cnt v @ drop (start + cnt) xs"

lemma length_set_range [simp]: "start + cnt \<le> length xs \<Longrightarrow> length (set_range xs start cnt v) = length xs"
  by (simp add: set_range_def)

lemma nth_set_range:
  "start + cnt \<le> length xs \<Longrightarrow> i < length xs \<Longrightarrow>
   set_range xs start cnt v ! i = (if start \<le> i \<and> i < start + cnt then v else xs ! i)"
  by (auto simp: set_range_def nth_append min_def)

lemma set_range_Suc:
  assumes "start + Suc n \<le> length xs"
  shows "(set_range xs start n v)[start + n := v] = set_range xs start (Suc n) v"
  using assms by (intro nth_equalityI) (auto simp: nth_set_range nth_list_update)

lemma bitmap_set_multiple_loop_ok:
  assumes "bitmap_ok b" "start + cnt \<le> bit_cnt b" "i \<le> cnt" "bit_cnt b = length bs"
    "bits_of b = set_range bs start i v"
  shows "\<exists>b'. bitmap_set_multiple_loop b start cnt v i = Some b' \<and> bitmap_ok b' \<and>
    bit_cnt b' = bit_cnt b \<and> bits_of b' = set_range bs start cnt v"
  using assms
proof (induction b start cnt v i rule: bitmap_set_multiple_loop.induct)
  case (1 b start cnt v i)
  show ?case
  proof (cases "i < cnt")
    case True
    then obtain b1 where b1: "bitmap_set b (size_add start i) v = Some b1" "bitmap_ok b1"
        "bit_cnt b1 = bit_cnt b" "bits_of b1 = set_range bs start (Suc i) v"
      using bitmap_set_ok [of b "start + i" v] 1(2-) size_add_in [of b start i]
        set_range_Suc [of start i bs v] by auto
    then show ?thesis
      using 1(1) [OF True b1(1) b1(2)] 1(3-) True by (simp add: bitmap_set_multiple_loop.simps [of b])
  next
    case False
    then show ?thesis
      using 1(2-) by (simp add: bitmap_set_multiple_loop.simps)
  qed
qed

lemma bitmap_set_multiple_ok:
  assumes "bitmap_ok b" "start + cnt \<le> bit_cnt b"
  shows "\<exists>b'. bitmap_set_multiple b start cnt v = Some b' \<and> bitmap_ok b' \<and>
    bit_cnt b' = bit_cnt b \<and> bits_of b' = set_range (bits_of b) start cnt v"
  using bitmap_set_multiple_loop_ok [OF assms, of 0 "bits_of b" v] assms size_add_in [OF assms]
  by (simp add: bitmap_set_multiple_def set_range_def)

lemma take_drop_Suc_bits:
  "start + i < length xs \<Longrightarrow> take (Suc n) (drop (start + i) xs) = xs ! (start + i) # take n (drop (start + Suc i) xs)"
  by (simp add: Cons_nth_drop_Suc [symmetric])

lemma bitmap_count_loop_ok:
  assumes "bitmap_ok b" "start + cnt \<le> bit_cnt b"
  shows "bitmap_count_loop b start cnt v i c =
    Some (c + length (filter ((=) v) (take (cnt - i) (drop (start + i) (bits_of b)))))"
  using assms
proof (induction b start cnt v i c rule: bitmap_count_loop.induct)
  case (1 b start cnt v i c)
  show ?case
  proof (cases "i < cnt")
    case True
    then have "bitmap_test b (size_add start i) = Some (bits_of b ! (start + i))"
      using 1(2-) by (simp add: size_add_in bitmap_test_ok)
    then show ?thesis
      using 1(1) [OF True] 1(2-) True take_drop_Suc_bits [of start i "bits_of b" "cnt - Suc i"]
      by (simp add: bitmap_count_loop.simps [of b start cnt v i] Suc_diff_Suc)
  qed (simp add: bitmap_count_loop.simps)
qed

lemma bitmap_count_ok:
  assumes "bitmap_ok b" "start + cnt \<le> bit_cnt b"
  shows "bitmap_count b start cnt v = Some (length (filter ((=) v) (take cnt (drop start (bits_of b)))))"
  using assms bitmap_count_loop_ok [OF assms, of v 0 0] by (simp add: bitmap_count_def size_add_in)

lemma bitmap_contains_loop_ok:
  assumes "bitmap_ok b" "start + cnt \<le> bit_cnt b"
  shows "bitmap_contains_loop b start cnt v i =
    Some (v \<in> set (take (cnt - i) (drop (start + i) (bits_of b))))"
  using assms
proof (induction b start cnt v i rule: bitmap_contains_loop.induct)
  case (1 b start cnt v i)
  show ?case
  proof (cases "i < cnt")
    case True
    then have "bitmap_test b (size_add start i) = Some (bits_of b ! (start + i))"
      using 1(2-) by (simp add: size_add_in bitmap_test_ok)
    then show ?thesis
      using 1(1) [OF True] 1(2-) True take_drop_Suc_bits [of start i "bits_of b" "cnt - Suc i"]
      by (auto simp: bitmap_contains_loop.simps [of b start cnt v i] Suc_diff_Suc)
  qed (simp add: bitmap_contains_loop.simps)
qed

lemma bitmap_contains_ok:
  assumes "bitmap_ok b" "start + cnt \<le> bit_cnt b"
  shows "bitmap_contains b start cnt v = Some (v \<in> set (take cnt (drop start (bits_of b))))"
  using assms bitmap_contains_loop_ok [OF assms, of v 0] by (simp add: bitmap_contains_def size_add_in)

text \<open>\<open>run_at xs v cnt i\<close>: the \<open>cnt\<close> entries from \<open>i\<close> on exist and are all \<open>v\<close>.\<close>

definition run_at :: "'a list \<Rightarrow> 'a \<Rightarrow> nat \<Rightarrow> nat \<Rightarrow> bool" where
  "run_at xs v cnt i \<longleftrightarrow> i + cnt \<le> length xs \<and> (\<forall>j<cnt. xs ! (i + j) = v)"

lemma run_at_contains:
  fixes xs :: "bool list"
  shows "i + cnt \<le> length xs \<Longrightarrow> run_at xs v cnt i \<longleftrightarrow> (\<not> v) \<notin> set (take cnt (drop i xs))"
  by (auto simp: run_at_def in_set_conv_nth)

lemma bitmap_scan_loop_ok:
  assumes "bitmap_ok b" "cnt \<le> bit_cnt b" "lst = bit_cnt b - cnt"
  shows "\<exists>r. bitmap_scan_loop b lst cnt v i = Some r \<and>
    (r = BITMAP_ERROR \<and> (\<forall>j\<ge>i. \<not> run_at (bits_of b) v cnt j) \<or>
     r < BITMAP_ERROR \<and> i \<le> r \<and> run_at (bits_of b) v cnt r \<and> (\<forall>j. i \<le> j \<and> j < r \<longrightarrow> \<not> run_at (bits_of b) v cnt j))"
  using assms
proof (induction b lst cnt v i rule: bitmap_scan_loop.induct)
  case (1 b lst cnt v i)
  show ?case
  proof (cases "i \<le> lst")
    case True
    have c: "bitmap_contains b i cnt (\<not> v) = Some (\<not> run_at (bits_of b) v cnt i)"
      using bitmap_contains_ok [of b i cnt "\<not> v"] run_at_contains [of i cnt "bits_of b" v] 1(2-) True
      by simp
    show ?thesis
    proof (cases "run_at (bits_of b) v cnt i")
      case run: True
      then have "bitmap_scan_loop b lst cnt v i = Some i"
        using c True by (simp add: bitmap_scan_loop.simps [of b lst cnt v i])
      moreover have "i < BITMAP_ERROR"
        using True 1(2-) by (auto simp: bitmap_ok_def BITMAP_ERROR_def)
      ultimately show ?thesis
        using run by auto
    next
      case False
      then have "bitmap_scan_loop b lst cnt v i = bitmap_scan_loop b lst cnt v (i + 1)"
        using c True by (simp add: bitmap_scan_loop.simps [of b lst cnt v i])
      moreover have "(\<forall>j\<ge>i. \<not> run_at (bits_of b) v cnt j) \<longleftrightarrow> (\<forall>j\<ge>i + 1. \<not> run_at (bits_of b) v cnt j)"
        "(\<forall>j. i \<le> j \<and> j < r \<longrightarrow> \<not> run_at (bits_of b) v cnt j) \<longleftrightarrow>
          (\<forall>j. i + 1 \<le> j \<and> j < r \<longrightarrow> \<not> run_at (bits_of b) v cnt j)" for r
        using False all_ge_Suc [of i "\<lambda>j. \<not> run_at (bits_of b) v cnt j"]
          all_between_Suc [of "\<lambda>j. \<not> run_at (bits_of b) v cnt j" i r] by simp_all
      ultimately show ?thesis
        using 1(1) [OF True c] 1(2-) False by (auto dest: Suc_leD)
    qed
  next
    case False
    then show ?thesis
      using 1(3,4) by (simp add: bitmap_scan_loop.simps run_at_def) linarith
  qed
qed

lemma bitmap_scan_ok:
  assumes "bitmap_ok b" "start \<le> bit_cnt b"
  shows "\<exists>r. bitmap_scan b start cnt v = Some r \<and>
    (r = BITMAP_ERROR \<and> (\<forall>j\<ge>start. \<not> run_at (bits_of b) v cnt j) \<or>
     r < BITMAP_ERROR \<and> start \<le> r \<and> run_at (bits_of b) v cnt r \<and>
       (\<forall>j. start \<le> j \<and> j < r \<longrightarrow> \<not> run_at (bits_of b) v cnt j))"
proof (cases "cnt \<le> bit_cnt b")
  case True
  then show ?thesis
    using bitmap_scan_loop_ok [OF assms(1) True refl, of v start] assms by (simp add: bitmap_scan_def)
next
  case False
  then show ?thesis
    using assms by (simp add: bitmap_scan_def run_at_def)
qed

section \<open>Index allocation\<close>

text \<open>
  The interface under which the page allocator, the free map of the file system and the swap
  table use a bitmap: \<open>used s\<close> are the allocated indices below \<open>cap s\<close>, \<open>alloc s n\<close> takes the \<open>n\<close>
  indices from the returned one on, \<open>release s i n\<close> gives the \<open>n\<close> indices from \<open>i\<close> on back.
\<close>

locale range_allocator =
  fixes inv :: "'s \<Rightarrow> bool"
    and used :: "'s \<Rightarrow> nat set"
    and cap :: "'s \<Rightarrow> nat"
    and alloc :: "'s \<Rightarrow> nat \<Rightarrow> (nat option \<times> 's) option"
    and release :: "'s \<Rightarrow> nat \<Rightarrow> nat \<Rightarrow> 's option"
  assumes alloc_spec: "inv s \<Longrightarrow> \<exists>r s'. alloc s n = Some (r, s') \<and> inv s' \<and> cap s' = cap s \<and>
      (case r of
         Some i \<Rightarrow> i + n \<le> cap s \<and> {i..<i + n} \<inter> used s = {} \<and> used s' = used s \<union> {i..<i + n}
       | None \<Rightarrow> used s' = used s \<and> (\<forall>i. i + n \<le> cap s \<longrightarrow> {i..<i + n} \<inter> used s \<noteq> {}))"
    and release_spec: "inv s \<Longrightarrow> i + n \<le> cap s \<Longrightarrow>
      \<exists>s'. release s i n = Some s' \<and> inv s' \<and> cap s' = cap s \<and> used s' = used s - {i..<i + n}"
begin

text \<open>Giving back what was just taken restores the set of used indices.\<close>

lemma alloc_release:
  assumes "inv s" "alloc s n = Some (Some i, s1)"
  shows "\<exists>s2. release s1 i n = Some s2 \<and> inv s2 \<and> used s2 = used s"
proof -
  have s1: "inv s1" "i + n \<le> cap s1" "{i..<i + n} \<inter> used s = {}" "used s1 = used s \<union> {i..<i + n}"
    using alloc_spec [OF assms(1), of n] assms(2) by auto
  from release_spec [OF s1(1,2)] s1(3,4) show ?thesis by auto
qed

end

text \<open>A sequence of requests; \<open>serve\<close> collects the granted ranges.\<close>

fun serve :: "('s \<Rightarrow> nat \<Rightarrow> (nat option \<times> 's) option) \<Rightarrow> 's \<Rightarrow> nat list \<Rightarrow> ((nat \<times> nat) list \<times> 's) option" where
  "serve alloc s [] = Some ([], s)"
| "serve alloc s (n # ns) = do {
     (r, s) \<leftarrow> alloc s n;
     (rs, s) \<leftarrow> serve alloc s ns;
     Some (case r of Some i \<Rightarrow> (i, n) # rs | None \<Rightarrow> rs, s) }"

fun disjoint_ranges :: "nat set \<Rightarrow> (nat \<times> nat) list \<Rightarrow> bool" where
  "disjoint_ranges U [] \<longleftrightarrow> True"
| "disjoint_ranges U ((i, n) # rs) \<longleftrightarrow> {i..<i + n} \<inter> U = {} \<and> disjoint_ranges (U \<union> {i..<i + n}) rs"

context range_allocator
begin

lemma serve_disjoint:
  "inv s \<Longrightarrow> \<exists>rs s'. serve alloc s ns = Some (rs, s') \<and> inv s' \<and> cap s' = cap s \<and>
     disjoint_ranges (used s) rs \<and> (\<forall>(i, n)\<in>set rs. i + n \<le> cap s)"
proof (induction ns arbitrary: s)
  case (Cons n ns)
  obtain r s1 where s1: "alloc s n = Some (r, s1)" "inv s1" "cap s1 = cap s"
    and r: "case r of Some i \<Rightarrow> i + n \<le> cap s \<and> {i..<i + n} \<inter> used s = {} \<and> used s1 = used s \<union> {i..<i + n}
      | None \<Rightarrow> used s1 = used s \<and> (\<forall>i. i + n \<le> cap s \<longrightarrow> {i..<i + n} \<inter> used s \<noteq> {})"
    using alloc_spec [OF Cons.prems, of n] by blast
  obtain rs s2 where "serve alloc s1 ns = Some (rs, s2)" "inv s2" "cap s2 = cap s"
    "disjoint_ranges (used s1) rs" "\<forall>(i, n)\<in>set rs. i + n \<le> cap s"
    using Cons.IH [OF s1(2)] s1(3) by auto
  with s1 r show ?case
    by (cases r) auto
qed simp

end

definition used_bits :: "bitmap \<Rightarrow> nat set" where
  "used_bits b = {i. i < bit_cnt b \<and> bits_of b ! i}"

definition bitmap_alloc :: "bitmap \<Rightarrow> nat \<Rightarrow> (nat option \<times> bitmap) option" where
  "bitmap_alloc b n = do {
     (i, b) \<leftarrow> bitmap_scan_and_flip b 0 n False;
     Some (if i = BITMAP_ERROR then None else Some i, b) }"

lemma used_bits_set_range:
  assumes "bits_of b' = set_range (bits_of b) i n v" "bit_cnt b' = bit_cnt b" "i + n \<le> bit_cnt b"
  shows "used_bits b' = (if v then used_bits b \<union> {i..<i + n} else used_bits b - {i..<i + n})"
  using assms by (auto simp: used_bits_def nth_set_range split: if_splits)

lemma run_at_free:
  "i + n \<le> bit_cnt b \<Longrightarrow> run_at (bits_of b) False n i \<longleftrightarrow> {i..<i + n} \<inter> used_bits b = {}"
proof -
  have "(\<forall>j<n. \<not> bits_of b ! (i + j)) \<longleftrightarrow> (\<forall>k\<in>{i..<i + n}. \<not> bits_of b ! k)"
    by (auto dest: bspec [of _ _ "i + _"]) (metis add_diff_inverse_nat le_add_diff_inverse nat_add_left_cancel_less)
  then show "i + n \<le> bit_cnt b \<Longrightarrow> ?thesis"
    by (auto simp: run_at_def used_bits_def)
qed

lemma bitmap_scan_and_flip_ok:
  assumes "bitmap_ok b" "start \<le> bit_cnt b"
  shows "\<exists>r b'. bitmap_scan_and_flip b start cnt v = Some (r, b') \<and> bitmap_ok b' \<and> bit_cnt b' = bit_cnt b \<and>
    (r = BITMAP_ERROR \<and> b' = b \<and> (\<forall>j\<ge>start. \<not> run_at (bits_of b) v cnt j) \<or>
     r < BITMAP_ERROR \<and> start \<le> r \<and> run_at (bits_of b) v cnt r \<and>
       (\<forall>j. start \<le> j \<and> j < r \<longrightarrow> \<not> run_at (bits_of b) v cnt j) \<and>
       bits_of b' = set_range (bits_of b) r cnt (\<not> v))"
proof -
  obtain r where r: "bitmap_scan b start cnt v = Some r"
    "r = BITMAP_ERROR \<and> (\<forall>j\<ge>start. \<not> run_at (bits_of b) v cnt j) \<or>
     r < BITMAP_ERROR \<and> start \<le> r \<and> run_at (bits_of b) v cnt r \<and>
       (\<forall>j. start \<le> j \<and> j < r \<longrightarrow> \<not> run_at (bits_of b) v cnt j)"
    using bitmap_scan_ok [OF assms, of cnt v] by blast
  then show ?thesis
  proof (cases "r = BITMAP_ERROR")
    case False
    with r have "r + cnt \<le> bit_cnt b"
      by (simp add: run_at_def)
    from bitmap_set_multiple_ok [OF assms(1) this, of "\<not> v"] r False assms show ?thesis
      by (auto simp: bitmap_scan_and_flip_def)
  qed (use assms in \<open>simp add: bitmap_scan_and_flip_def\<close>)
qed

interpretation bitmap_allocator: range_allocator bitmap_ok used_bits bit_cnt bitmap_alloc
  "\<lambda>b i n. bitmap_set_multiple b i n False"
proof unfold_locales
  show "\<exists>s'. bitmap_set_multiple s i n False = Some s' \<and> bitmap_ok s' \<and> bit_cnt s' = bit_cnt s \<and>
      used_bits s' = used_bits s - {i..<i + n}" if "bitmap_ok s" "i + n \<le> bit_cnt s" for s i n
    using bitmap_set_multiple_ok [OF that, of False] used_bits_set_range [OF _ _ that(2), of _ False] by auto
next
  fix s n
  assume "bitmap_ok s"
  then obtain r b' where *: "bitmap_scan_and_flip s 0 n False = Some (r, b')" "bitmap_ok b'"
    "bit_cnt b' = bit_cnt s"
    "r = BITMAP_ERROR \<and> b' = s \<and> (\<forall>j. \<not> run_at (bits_of s) False n j) \<or>
     r < BITMAP_ERROR \<and> run_at (bits_of s) False n r \<and> bits_of b' = set_range (bits_of s) r n True"
    using bitmap_scan_and_flip_ok [of s 0 n False] by auto
  show "\<exists>r s'. bitmap_alloc s n = Some (r, s') \<and> bitmap_ok s' \<and> bit_cnt s' = bit_cnt s \<and>
      (case r of
         Some i \<Rightarrow> i + n \<le> bit_cnt s \<and> {i..<i + n} \<inter> used_bits s = {} \<and> used_bits s' = used_bits s \<union> {i..<i + n}
       | None \<Rightarrow> used_bits s' = used_bits s \<and> (\<forall>i. i + n \<le> bit_cnt s \<longrightarrow> {i..<i + n} \<inter> used_bits s \<noteq> {}))"
  proof (cases "r = BITMAP_ERROR")
    case True
    with * show ?thesis by (auto simp: bitmap_alloc_def simp flip: run_at_free)
  next
    case False
    with * have "r + n \<le> bit_cnt s"
      by (simp add: run_at_def)
    with False * used_bits_set_range [of b' s r n True] show ?thesis
      by (simp add: bitmap_alloc_def run_at_free)
  qed
qed

section \<open>Properties\<close>

text \<open>A bitmap of 40 bits with bits 0, 1 and 33 set.\<close>

definition sample_bitmap :: bitmap where
  "sample_bitmap = \<lparr>bit_cnt = 40, bits = [3, 2]\<rparr>"

lemma sample_bitmap_ok: "bitmap_ok sample_bitmap"
  by (simp add: sample_bitmap_def bitmap_ok_def elem_cnt_def)

text \<open>
  C35: on a well-formed bitmap the single-bit operations act on the list of bits exactly as their
  names say, at every index below the size, and leave all other bits alone; none of them touches
  memory outside the array.
\<close>

theorem bitmap_bit_ops_refine:
  assumes "bitmap_ok b" "i < bit_cnt b"
  shows "bitmap_test b i = Some (bits_of b ! i) \<and>
    (\<exists>b'. bitmap_set b i v = Some b' \<and> bitmap_ok b' \<and> bits_of b' = (bits_of b)[i := v]) \<and>
    (\<exists>b'. bitmap_flip b i = Some b' \<and> bitmap_ok b' \<and> bits_of b' = (bits_of b)[i := \<not> bits_of b ! i])"
  using bitmap_test_ok [OF assms] bitmap_set_ok [OF assms, of v] bitmap_single_ok(3) [OF assms] by blast

theorem bitmap_bit_ops_refine_witness:
  "bitmap_ok sample_bitmap \<and> 33 < bit_cnt sample_bitmap \<and> bitmap_test sample_bitmap 33 = Some (bits_of sample_bitmap ! 33) \<and>
    bits_of sample_bitmap ! 33 \<and>
    (\<exists>b'. bitmap_set sample_bitmap 33 False = Some b' \<and> bits_of b' = (bits_of sample_bitmap)[33 := False])"
proof -
  have "33 < bit_cnt sample_bitmap" "bits_of sample_bitmap ! 33"
    by (simp_all add: sample_bitmap_def bits_of_def)
  with bitmap_bit_ops_refine [OF sample_bitmap_ok this(1), of False] sample_bitmap_ok show ?thesis
    by blast
qed

text \<open>
  C36: on a well-formed bitmap and a range inside it, \<^verbatim>\<open>bitmap_set_multiple\<close> sets exactly the range,
  \<^verbatim>\<open>bitmap_count\<close> counts the matching bits in it and \<^verbatim>\<open>bitmap_contains\<close> decides whether there is one.
\<close>

theorem bitmap_range_ops_refine:
  assumes "bitmap_ok b" "start + cnt \<le> bit_cnt b"
  shows "(\<exists>b'. bitmap_set_multiple b start cnt v = Some b' \<and> bitmap_ok b' \<and>
      bits_of b' = take start (bits_of b) @ replicate cnt v @ drop (start + cnt) (bits_of b)) \<and>
    bitmap_count b start cnt v = Some (length (filter ((=) v) (take cnt (drop start (bits_of b))))) \<and>
    bitmap_contains b start cnt v = Some (v \<in> set (take cnt (drop start (bits_of b)))) \<and>
    bitmap_all b start cnt = Some (\<forall>x\<in>set (take cnt (drop start (bits_of b))). x) \<and>
    bitmap_none b start cnt = Some (\<forall>x\<in>set (take cnt (drop start (bits_of b))). \<not> x)"
proof -
  have "(False \<notin> X) = (\<forall>x\<in>X. x)" "(True \<notin> X) = (\<forall>x\<in>X. \<not> x)" for X
    by (metis (full_types))+
  then show ?thesis
    using bitmap_set_multiple_ok [OF assms, of v] bitmap_count_ok [OF assms, of v]
      bitmap_contains_ok [OF assms]
    by (auto simp: set_range_def bitmap_all_def bitmap_none_def)
qed

theorem bitmap_range_ops_refine_witness:
  "bitmap_count sample_bitmap 1 33 True = Some 2 \<and> bitmap_contains sample_bitmap 2 31 True = Some False"
proof -
  have *: "1 + 33 \<le> bit_cnt sample_bitmap" "2 + 31 \<le> bit_cnt sample_bitmap"
    by (simp_all add: sample_bitmap_def)
  from bitmap_range_ops_refine [OF sample_bitmap_ok *(1), of True]
    bitmap_range_ops_refine [OF sample_bitmap_ok *(2), of True]
  show ?thesis
    by (simp add: sample_bitmap_def bits_of_def upt_rec)
qed


lemma all_less_5: "(\<forall>j<5. P (j::nat)) \<longleftrightarrow> P 0 \<and> P 1 \<and> P 2 \<and> P 3 \<and> P 4"
  by (auto simp: less_Suc_eq numeral_eq_Suc)


text \<open>
  \<^verbatim>\<open>bitmap_create\<close> returns the null pointer when either allocation fails and otherwise a
  well-formed bitmap whose bits are all false, whatever the allocated block held.
\<close>

theorem bitmap_create_ok:
  assumes "cnt + 31 < SIZE_MOD" "length block = elem_cnt cnt"
  shows "(\<exists>b. bitmap_create True (Some block) cnt = Some (Some b) \<and> bitmap_ok b \<and>
      bits_of b = replicate cnt False) \<and>
    bitmap_create False (Some block) cnt = Some None \<and>
    (0 < cnt \<longrightarrow> bitmap_create True None cnt = Some None)"
proof -
  have ok: "bitmap_ok \<lparr>bit_cnt = cnt, bits = block\<rparr>"
    using assms by (simp add: bitmap_ok_def)
  from bitmap_set_multiple_ok [OF this, of 0 cnt False] show ?thesis
    by (auto simp: bitmap_create_def bitmap_set_all_def bitmap_size_def set_range_def)
qed

theorem bitmap_create_ok_witness:
  "\<exists>b. bitmap_create True (Some [7, 42]) 40 = Some (Some b) \<and> bitmap_ok b \<and> bits_of b = replicate 40 False"
  using bitmap_create_ok [of 40 "[7, 42]"] by (simp add: elem_cnt_def)

text \<open>
  C25: a bitmap serves any sequence of requests with pairwise disjoint ranges inside the bitmap, none
  of which was in use before; releasing a granted range restores the used set.
\<close>

theorem bitmap_serves_disjoint:
  assumes "bitmap_ok b"
  shows "(\<exists>rs b'. serve bitmap_alloc b ns = Some (rs, b') \<and> bitmap_ok b' \<and>
      disjoint_ranges (used_bits b) rs \<and> (\<forall>(i, n)\<in>set rs. i + n \<le> bit_cnt b)) \<and>
    (\<forall>n i b1. bitmap_alloc b n = Some (Some i, b1) \<longrightarrow>
      (\<exists>b2. bitmap_set_multiple b1 i n False = Some b2 \<and> used_bits b2 = used_bits b))"
  using bitmap_allocator.serve_disjoint [OF assms, of ns] bitmap_allocator.alloc_release [OF assms] by blast

theorem bitmap_serves_disjoint_witness:
  "\<exists>rs b'. serve bitmap_alloc sample_bitmap [3, 40, 1] = Some (rs, b') \<and>
    disjoint_ranges (used_bits sample_bitmap) rs"
  using bitmap_serves_disjoint [OF sample_bitmap_ok, of "[3, 40, 1]"] by blast

end
