(* ===== verification/Arithmetic.thy ===== *)
theory Arithmetic
  imports Prelude "HOL-Library.Signed_Division"
begin

text \<open>
  The 64-bit division routines of \<^verbatim>\<open>lib/arithmetic.c\<close>, built on the 64-by-32-bit \<^verbatim>\<open>divl\<close>
  instruction. \<^term>\<open>None\<close> is the divide error trap. The routines are shown to compute the exact
  quotient and never to trap on a non-zero divisor; the remainder routines return 32 bits only.
\<close>

section \<open>Definitions\<close>

definition divl :: "u64 \<Rightarrow> u32 \<Rightarrow> u32 option" where
  "divl n d = (if d = 0 \<or> unat n div unat d \<ge> 2 ^ 32 then None
               else Some (word_of_nat (unat n div unat d)))"

definition nlz_step :: "nat \<Rightarrow> u32 \<Rightarrow> nat \<times> u32 \<Rightarrow> nat \<times> u32" where
  "nlz_step k bound = (\<lambda>(n, x). if x \<le> bound then (n + k, push_bit k x) else (n, x))"

definition nlz :: "u32 \<Rightarrow> nat" where
  "nlz x =
     (let (n, x) = nlz_step 16 0x0000FFFF (0, x);
          (n, x) = nlz_step 8 0x00FFFFFF (n, x);
          (n, x) = nlz_step 4 0x0FFFFFFF (n, x);
          (n, x) = nlz_step 2 0x3FFFFFFF (n, x)
      in if x \<le> 0x7FFFFFFF then n + 1 else n)"

definition udiv64 :: "u64 \<Rightarrow> u64 \<Rightarrow> u64 option" where
  "udiv64 n d =
     (if drop_bit 32 d = 0 then
        (let b = push_bit 32 1 :: u64;
             n1 = ucast (drop_bit 32 n) :: u32;
             n0 = ucast n :: u32;
             d0 = ucast d :: u32
         in if d0 = 0 then None
            else do {
              q \<leftarrow> divl (b * ucast (n1 mod d0) + ucast n0) d0;
              Some (ucast q + b * ucast (n1 div d0)) })
      else if n < d then Some 0
      else
        (let d1 = ucast (drop_bit 32 d) :: u32;
             s = nlz d1
         in do {
           q \<leftarrow> divl (drop_bit 1 n) (ucast (drop_bit 32 (push_bit s d)));
           let q = (ucast (drop_bit (31 - s) q) :: u64);
           Some (if n - (q - 1) * d < d then q - 1 else q) }))"

definition umod64 :: "u64 \<Rightarrow> u64 \<Rightarrow> u32 option" where
  "umod64 n d = do { q \<leftarrow> udiv64 n d; Some (ucast (n - d * q)) }"

definition sdiv64 :: "u64 \<Rightarrow> u64 \<Rightarrow> u64 option" where
  "sdiv64 n d =
     (let n_abs = (if sint n \<ge> 0 then n else - n);
          d_abs = (if sint d \<ge> 0 then d else - d)
      in do {
        q_abs \<leftarrow> udiv64 n_abs d_abs;
        Some (if (sint n < 0) = (sint d < 0) then q_abs else - q_abs) })"

definition smod64 :: "u64 \<Rightarrow> u64 \<Rightarrow> u32 option" where
  "smod64 n d = do { q \<leftarrow> sdiv64 n d; Some (ucast (n - d * q)) }"

text \<open>The routines the compiler calls; the unsigned remainder is zero-extended, the signed one
  sign-extended.\<close>

definition divdi3 :: "u64 \<Rightarrow> u64 \<Rightarrow> u64 option" where
  "divdi3 n d = sdiv64 n d"

definition moddi3 :: "u64 \<Rightarrow> u64 \<Rightarrow> u64 option" where
  "moddi3 n d = do { r \<leftarrow> smod64 n d; Some (scast r) }"

definition udivdi3 :: "u64 \<Rightarrow> u64 \<Rightarrow> u64 option" where
  "udivdi3 n d = udiv64 n d"

definition umoddi3 :: "u64 \<Rightarrow> u64 \<Rightarrow> u64 option" where
  "umoddi3 n d = do { r \<leftarrow> umod64 n d; Some (ucast r) }"

section \<open>Leading zeros\<close>

lemma unat_u32_less: "unat (x::u32) < 4294967296"
  using unsigned_less [of x, where ?'a = nat] by simp

lemma unat_u64_less: "unat (x::u64) < 18446744073709551616"
  using unsigned_less [of x, where ?'a = nat] by simp

lemma unat_push_bit_small:
  fixes x :: "'a::len word"
  assumes "unat x * 2 ^ k < 2 ^ LENGTH('a)"
  shows "unat (push_bit k x) = unat x * 2 ^ k"
  unfolding unsigned_push_bit_eq push_bit_eq_mult [of _ "unat x"] by (rule take_bit_nat_eq_self) (rule assms)

text \<open>A step normalises \<open>x\<close> by \<open>k\<close> places when its \<open>k\<close> top bits are zero.\<close>

definition normalised :: "nat \<Rightarrow> u32 \<Rightarrow> nat \<times> u32 \<Rightarrow> bool" where
  "normalised j x = (\<lambda>(n, y). unat y = unat x * 2 ^ n \<and> 2 ^ j \<le> unat y)"

lemma nlz_step_normalised:
  assumes "normalised j x p" "unat bound = 2 ^ (32 - k) - 1" "k \<le> 32" "32 - k \<le> j + k"
  shows "normalised (32 - k) x (nlz_step k bound p)"
proof -
  obtain n y where p: "p = (n, y)" and y: "unat y = unat x * 2 ^ n" "2 ^ j \<le> unat y"
    using assms(1) by (cases p) (auto simp: normalised_def)
  show ?thesis
  proof (cases "y \<le> bound")
    case True
    then have "unat y < 2 ^ (32 - k)"
      using assms(2) le_imp_less_Suc [of "unat y" "2 ^ (32 - k) - 1"] by (simp add: word_le_nat_alt)
    then have "unat y * 2 ^ k < 2 ^ (32 - k) * 2 ^ k"
      by (simp add: mult_less_mono1)
    also have "\<dots> = 2 ^ 32"
      using assms(3) by (simp flip: power_add)
    finally have "unat (push_bit k y) = unat y * 2 ^ k"
      by (intro unat_push_bit_small) simp
    moreover have "2 ^ (32 - k) \<le> unat y * 2 ^ k"
    proof -
      have "(2::nat) ^ (32 - k) \<le> 2 ^ (j + k)"
        using assms(4) by (intro power_increasing) auto
      also have "\<dots> = 2 ^ j * 2 ^ k"
        by (rule power_add)
      also have "\<dots> \<le> unat y * 2 ^ k"
        using y(2) by (intro mult_le_mono1)
      finally show ?thesis .
    qed
    ultimately show ?thesis
      using True y(1) by (simp add: p nlz_step_def normalised_def power_add)
  next
    case False
    then have "2 ^ (32 - k) \<le> unat y"
      using assms(2) by (simp add: word_le_nat_alt)
    with False y show ?thesis
      by (simp add: p nlz_step_def normalised_def)
  qed
qed

lemma nlz_correct:
  assumes "x \<noteq> 0"
  shows "2 ^ 31 \<le> unat x * 2 ^ nlz x \<and> unat x * 2 ^ nlz x < 2 ^ 32"
proof -
  define p1 where "p1 = nlz_step 16 0x0000FFFF (0, x)"
  define p2 where "p2 = nlz_step 8 0x00FFFFFF p1"
  define p3 where "p3 = nlz_step 4 0x0FFFFFFF p2"
  define p4 where "p4 = nlz_step 2 0x3FFFFFFF p3"
  have "normalised 0 x (0, x)"
    using assms by (simp add: normalised_def Suc_le_eq unat_gt_0)
  from nlz_step_normalised [OF this, where k = 16 and bound = "0x0000FFFF"] have "normalised 16 x p1"
    by (simp add: p1_def)
  from nlz_step_normalised [OF this, where k = 8 and bound = "0x00FFFFFF"] have "normalised 24 x p2"
    by (simp add: p2_def)
  from nlz_step_normalised [OF this, where k = 4 and bound = "0x0FFFFFFF"] have "normalised 28 x p3"
    by (simp add: p3_def)
  from nlz_step_normalised [OF this, where k = 2 and bound = "0x3FFFFFFF"] have 4: "normalised 30 x p4"
    by (simp add: p4_def)
  obtain n y where p4: "p4 = (n, y)"
    by (cases p4)
  have "nlz x = (if y \<le> 0x7FFFFFFF then n + 1 else n)"
    unfolding nlz_def p1_def [symmetric] Let_def by (simp add: p4 flip: p2_def p3_def p4_def split: prod.split)
  moreover have "unat y = unat x * 2 ^ n" "2 ^ 30 \<le> unat y"
    using 4 by (simp_all add: p4 normalised_def)
  moreover have "y \<le> 0x7FFFFFFF \<longleftrightarrow> unat y < 2 ^ 31"
    by (simp add: word_le_nat_alt) linarith
  ultimately show ?thesis
    using unat_u32_less [of y] by simp
qed

section \<open>Unsigned division\<close>

text \<open>The words of the source read as natural numbers.\<close>

lemma unat_drop_32: "unat (drop_bit 32 (n::u64)) = unat n div 2 ^ 32"
  using unat_u64_less [of n]
  by (subst unsigned_drop_bit_eq) (simp add: take_bit_nat_eq_self drop_bit_eq_div)

lemma unat_high: "unat (ucast (drop_bit 32 (n::u64)) :: u32) = unat n div 2 ^ 32"
proof -
  have "unat n div 2 ^ 32 < 2 ^ 32"
    using unat_u64_less [of n] by (simp add: div_less_iff_less_mult)
  then show ?thesis
    unfolding unsigned_ucast_eq unat_drop_32 by (intro take_bit_nat_eq_self) simp
qed

lemma unat_low: "unat (ucast (n::u64) :: u32) = unat n mod 2 ^ 32"
  by (simp add: unsigned_ucast_eq take_bit_eq_mod)

lemma unat_widen: "unat (ucast (x::u32) :: u64) = unat x"
  using unat_u32_less [of x] by (simp add: unsigned_ucast_eq take_bit_nat_eq_self)

lemma unat_mult_nowrap: "unat (a::u64) * unat b < 2 ^ 64 \<Longrightarrow> unat (a * b) = unat a * unat b"
  by (simp add: unat_word_ariths)

lemma unat_add_nowrap: "unat (a::u64) + unat b < 2 ^ 64 \<Longrightarrow> unat (a + b) = unat a + unat b"
  by (simp add: unat_word_ariths)

lemma unat_base: "unat (push_bit 32 1 :: u64) = 2 ^ 32"
  by simp

lemma divl_ok:
  "unat d \<noteq> 0 \<Longrightarrow> unat n div unat d < 2 ^ 32 \<Longrightarrow> \<exists>q. divl n d = Some q \<and> unat q = unat n div unat d"
  by (auto simp: divl_def unsigned_of_nat take_bit_nat_eq_self)

lemma schoolbook:
  fixes N D :: nat
  assumes "0 < D"
  shows "(2 ^ 32 * (N div 2 ^ 32 mod D) + N mod 2 ^ 32) div D + 2 ^ 32 * (N div 2 ^ 32 div D) = N div D"
    and "(2 ^ 32 * (N div 2 ^ 32 mod D) + N mod 2 ^ 32) div D < 2 ^ 32"
proof -
  define H where "H = N div 2 ^ 32"
  define R where "R = 2 ^ 32 * (H mod D) + N mod 2 ^ 32"
  have "N = 2 ^ 32 * H + N mod 2 ^ 32"
    by (simp add: H_def)
  also have "2 ^ 32 * H = D * (2 ^ 32 * (H div D)) + 2 ^ 32 * (H mod D)"
    using div_mult_mod_eq [of H D] by (metis add_mult_distrib2 mult.commute mult.left_commute)
  finally have "N = R + D * (2 ^ 32 * (H div D))"
    by (simp add: R_def)
  then have "N div D = R div D + 2 ^ 32 * (H div D)"
    using assms by (metis div_mult_self2 add.commute not_less0)
  moreover have "R < 2 ^ 32 * D"
  proof -
    have "R < 2 ^ 32 * (H mod D) + 2 ^ 32 * 1"
      by (simp add: R_def)
    also have "\<dots> = 2 ^ 32 * Suc (H mod D)"
      by simp
    also have "\<dots> \<le> 2 ^ 32 * D"
      using assms by (intro mult_le_mono2 Suc_leI mod_less_divisor)
    finally show ?thesis .
  qed
  then have "R div D < 2 ^ 32"
    using assms by (simp add: div_less_iff_less_mult)
  ultimately show "(2 ^ 32 * (N div 2 ^ 32 mod D) + N mod 2 ^ 32) div D + 2 ^ 32 * (N div 2 ^ 32 div D) = N div D"
    "(2 ^ 32 * (N div 2 ^ 32 mod D) + N mod 2 ^ 32) div D < 2 ^ 32"
    by (simp_all add: R_def H_def)
qed

lemma unat_schoolbook:
  fixes n :: u64 and d0 :: u32
  assumes "d0 \<noteq> 0"
  shows "unat (push_bit 32 1 * ucast (ucast (drop_bit 32 n) mod d0) + ucast (ucast n :: u32) :: u64) =
    2 ^ 32 * (unat n div 2 ^ 32 mod unat d0) + unat n mod 2 ^ 32"
proof -
  have m: "unat (push_bit 32 1 * ucast (ucast (drop_bit 32 n) mod d0) :: u64) =
      2 ^ 32 * (unat n div 2 ^ 32 mod unat d0)"
    using unat_mult_nowrap [of "push_bit 32 1" "ucast (ucast (drop_bit 32 n) mod d0 :: u32)"]
      unat_u32_less [of "ucast (drop_bit 32 n) mod d0"]
    unfolding unat_base unat_widen unat_mod_distrib unat_high by simp
  moreover have "unat n div 2 ^ 32 mod unat d0 < 2 ^ 32"
    using unat_u32_less [of "ucast (drop_bit 32 n) mod d0"] unfolding unat_mod_distrib unat_high by simp
  ultimately show ?thesis
    using unat_add_nowrap [of "push_bit 32 1 * ucast (ucast (drop_bit 32 n) mod d0)" "ucast (ucast n :: u32)"]
    unfolding unat_widen unat_low by simp
qed

lemma udiv64_short:
  assumes "d \<noteq> 0" "drop_bit 32 d = 0"
  shows "udiv64 n d = Some (n div d)"
proof -
  define d0 where "d0 = (ucast d :: u32)"
  have "unat d div 2 ^ 32 = 0"
    using arg_cong [OF assms(2), of "\<lambda>x. unat (ucast x :: u32)"] unfolding unat_high by simp
  then have "unat d < 2 ^ 32"
    by (simp add: div_eq_0_iff)
  then have D: "unat d0 = unat d"
    unfolding d0_def unat_low by simp
  have pos: "0 < unat d"
    using assms(1) by (simp add: unat_gt_0)
  then have nz: "d0 \<noteq> 0"
    using D by auto
  define N where "N = unat n"
  let ?x = "push_bit 32 1 * ucast (ucast (drop_bit 32 n) mod d0) + ucast (ucast n :: u32) :: u64"
  obtain q where q: "divl ?x d0 = Some q" "unat q = unat ?x div unat d0"
    using divl_ok [of d0 ?x] schoolbook(2) [OF pos, of N] pos
    unfolding unat_schoolbook [OF nz] D N_def by blast
  have "unat (push_bit 32 1 * ucast (ucast (drop_bit 32 n) div d0) :: u64) = 2 ^ 32 * (N div 2 ^ 32 div unat d)"
    using unat_mult_nowrap [of "push_bit 32 1" "ucast (ucast (drop_bit 32 n) div d0 :: u32)"]
      unat_u32_less [of "ucast (drop_bit 32 n) div d0"]
    unfolding unat_base unat_widen unat_div_distrib unat_high D N_def by simp
  moreover have "N div unat d < 2 ^ 64"
    using unat_u64_less [of n] by (simp add: N_def) (meson div_le_dividend le_less_trans)
  ultimately have "unat (ucast q + push_bit 32 1 * ucast (ucast (drop_bit 32 n) div d0) :: u64) = unat (n div d)"
    using unat_add_nowrap [of "ucast q" "push_bit 32 1 * ucast (ucast (drop_bit 32 n) div d0)"]
      schoolbook(1) [OF pos, of N] q(2)
    unfolding unat_widen unat_schoolbook [OF nz] unat_div_distrib D N_def by simp
  then show ?thesis
    using q(1) nz assms(2) unfolding udiv64_def Let_def d0_def [symmetric]
    by (simp add: word_eq_iff_unsigned [where ?'a = nat])
qed

text \<open>The estimate of the quotient from the normalised top half of the divisor is at most one too
  large.\<close>

lemma quotient_estimate:
  fixes N D V s :: nat
  assumes "s \<le> 31" "2 ^ 31 \<le> V" "V * 2 ^ 32 \<le> D * 2 ^ s" "D * 2 ^ s < (V + 1) * 2 ^ 32" "N < 2 ^ 64"
  shows "N div D \<le> N div 2 div V div 2 ^ (31 - s)" "N div 2 div V div 2 ^ (31 - s) \<le> N div D + 1"
proof -
  define X where "X = V * 2 ^ (32 - s)"
  define Q where "Q = N div D"
  have pw: "(2::nat) ^ 32 = 2 ^ (32 - s) * 2 ^ s" "(2::nat) ^ 64 = 2 ^ (63 - s) * 2 ^ (s + 1)"
    "(2::nat) ^ (63 - s) = 2 ^ 31 * 2 ^ (32 - s)" "(2::nat) ^ (32 - s) = 2 * 2 ^ (31 - s)"
  proof -
    have "63 - s = 31 + (32 - s)" "32 - s = Suc (31 - s)" "32 = (32 - s) + s" "64 = (63 - s) + (s + 1)"
      using assms(1) by simp_all
    then show "(2::nat) ^ 32 = 2 ^ (32 - s) * 2 ^ s" "(2::nat) ^ 64 = 2 ^ (63 - s) * 2 ^ (s + 1)"
      "(2::nat) ^ (63 - s) = 2 ^ 31 * 2 ^ (32 - s)" "(2::nat) ^ (32 - s) = 2 * 2 ^ (31 - s)"
      by (metis power_add power_Suc)+
  qed
  have q0: "N div 2 div V div 2 ^ (31 - s) = N div X"
    unfolding X_def pw(4) by (simp add: div_mult2_eq [symmetric] ac_simps)
  have XD: "X \<le> D" "D < X + 2 ^ (32 - s)"
  proof -
    have "X * 2 ^ s \<le> D * 2 ^ s" "D * 2 ^ s < (X + 2 ^ (32 - s)) * 2 ^ s"
      using assms(3,4) unfolding pw(1) X_def by (simp_all add: algebra_simps)
    then show "X \<le> D" "D < X + 2 ^ (32 - s)"
      by simp_all
  qed
  have X: "2 ^ (63 - s) \<le> X"
    unfolding X_def pw(3) using assms(2) by (rule mult_le_mono1)
  then have "0 < X"
    by (rule less_le_trans [rotated]) simp
  have "Q < 2 ^ (s + 1)"
  proof -
    have "N < D * 2 ^ (s + 1)"
      using assms(5) mult_le_mono1 [OF order_trans [OF X XD(1)], of "2 ^ (s + 1)"] unfolding pw(2) by linarith
    then show ?thesis
      using XD(1) \<open>0 < X\<close> by (simp add: Q_def div_less_iff_less_mult mult.commute)
  qed
  have gap: "(Q + 1) * (D - X) \<le> X"
  proof -
    have "(Q + 1) * (D - X) \<le> 2 ^ (s + 1) * (2 ^ (32 - s) - 1)"
      using \<open>Q < 2 ^ (s + 1)\<close> XD by (intro mult_le_mono) auto
    also have "\<dots> \<le> 2 ^ (63 - s)"
    proof (cases "s = 31")
      case False
      have "(2::nat) ^ (s + 1) * (2 ^ (32 - s) - 1) \<le> 2 ^ (s + 1) * 2 ^ (32 - s)"
        by simp
      also have "\<dots> = 2 ^ 33"
        using assms(1) by (simp flip: power_add)
      also have "\<dots> \<le> 2 ^ (63 - s)"
        using False assms(1) by (intro power_increasing) auto
      finally show ?thesis .
    qed simp
    also note X
    finally show ?thesis .
  qed
  show "N div D \<le> N div 2 div V div 2 ^ (31 - s)"
    unfolding q0 by (rule div_le_mono2 [OF \<open>0 < X\<close> XD(1)])
  define e where "e = D - X"
  have e: "D = X + e"
    using XD(1) by (simp add: e_def)
  have "N < D + D * Q"
    unfolding Q_def using XD(1) \<open>0 < X\<close> by (intro dividend_less_times_div) simp
  also have "\<dots> = X * (Q + 1) + (Q + 1) * (D - X)"
    by (simp add: e algebra_simps)
  also have "\<dots> \<le> X * (Q + 2)"
    using gap by simp
  finally have "N div X < Q + 2"
    using \<open>0 < X\<close> by (simp add: div_less_iff_less_mult mult.commute)
  then show "N div 2 div V div 2 ^ (31 - s) \<le> N div D + 1"
    unfolding q0 Q_def by simp
qed

text \<open>Normalising the divisor keeps it inside 64 bits.\<close>

lemma normalise_divisor:
  fixes D s :: nat
  assumes "2 ^ 31 \<le> D div 2 ^ 32 * 2 ^ s" "D div 2 ^ 32 * 2 ^ s < 2 ^ 32"
  shows "s \<le> 31" "D * 2 ^ s < 2 ^ 64" "2 ^ 31 \<le> D * 2 ^ s div 2 ^ 32"
proof -
  define H where "H = D div 2 ^ 32"
  have "H \<noteq> 0"
    using assms(1) [folded H_def] by (intro notI) simp
  then have "2 ^ s \<le> H * 2 ^ s"
    by (cases H) auto
  then have "(2::nat) ^ s < 2 ^ 32"
    using assms(2) unfolding H_def by linarith
  then have s: "s < 32"
    by (rule power_less_imp_less_exp [rotated]) simp
  then show "s \<le> 31"
    by simp
  have "H * 2 ^ s + 2 ^ s \<le> 2 ^ 32"
  proof -
    have "H < 2 ^ (32 - s)"
    proof -
      have "H * 2 ^ s < 2 ^ (32 - s) * 2 ^ s"
        using assms(2) s power_add [of "2::nat" "32 - s" s] unfolding H_def by simp
      then show ?thesis by simp
    qed
    then have "(H + 1) * 2 ^ s \<le> 2 ^ (32 - s) * 2 ^ s"
      by (intro mult_le_mono1) simp
    then show ?thesis
      using s power_add [of "2::nat" "32 - s" s] by simp
  qed
  moreover have "D < (H + 1) * 2 ^ 32"
    unfolding H_def by (simp add: dividend_less_div_times)
  then have "D * 2 ^ s < (H * 2 ^ s + 2 ^ s) * 2 ^ 32"
    using mult_less_mono1 [of D "(H + 1) * 2 ^ 32" "2 ^ s"] by (simp add: algebra_simps)
  ultimately show "D * 2 ^ s < 2 ^ 64"
    using mult_le_mono1 [of "H * 2 ^ s + 2 ^ s" "2 ^ 32" "2 ^ 32"] by simp
  have "H * 2 ^ 32 * 2 ^ s \<le> D * 2 ^ s"
    unfolding H_def by (intro mult_le_mono1) simp
  then have "H * 2 ^ s \<le> D * 2 ^ s div 2 ^ 32"
    by (simp add: less_eq_div_iff_mult_less_eq algebra_simps)
  then show "2 ^ 31 \<le> D * 2 ^ s div 2 ^ 32"
    using assms(1) unfolding H_def by linarith
qed

text \<open>The final comparison corrects the estimate.\<close>

lemma quotient_fixup:
  fixes n d q :: u64
  assumes "d \<le> n" "unat n div unat d \<le> unat q" "unat q \<le> unat n div unat d + 1" "d \<noteq> 0"
  shows "(if n - (q - 1) * d < d then q - 1 else q) = n div d"
proof -
  define N D Q where "N = unat n" and "D = unat d" and "Q = N div D"
  have D: "0 < D" "D \<le> N"
    using assms(1,4) by (simp_all add: D_def N_def unat_gt_0 word_le_nat_alt)
  then have "1 \<le> Q"
    unfolding Q_def by (metis One_nat_def Suc_leI div_greater_zero_iff)
  then have "q \<noteq> 0"
    using assms(2) by (auto simp: Q_def N_def D_def)
  then have q1: "unat (q - 1) = unat q - 1"
    by (rule unat_minus_one)
  have "(unat q - 1) * D \<le> Q * D" "Q * D \<le> N"
    using assms(3) by (auto simp: Q_def N_def D_def intro: mult_le_mono1)
  then have le: "(unat q - 1) * D \<le> N"
    by (rule order_trans)
  then have mul: "unat ((q - 1) * d) = (unat q - 1) * D"
    using unat_mult_nowrap [of "q - 1" d] unat_u64_less [of n]
    unfolding q1 N_def D_def by simp
  then have sub: "unat (n - (q - 1) * d) = N - (unat q - 1) * D"
    using le by (simp add: unat_sub word_le_nat_alt N_def)
  consider "unat q = Q" | "unat q = Q + 1"
    using assms(2,3) by (fastforce simp: Q_def N_def D_def)
  then show ?thesis
  proof cases
    case 1
    have "(Q - 1) * D + D = Q * D"
      using \<open>1 \<le> Q\<close> by (cases Q) simp_all
    then have "\<not> N - (Q - 1) * D < D"
      using \<open>Q * D \<le> N\<close> by linarith
    with 1 sub show ?thesis
      by (simp add: word_less_nat_alt D_def [symmetric] word_eq_iff_unsigned [where ?'a = nat] unat_div_distrib Q_def N_def [symmetric])
  next
    case 2
    have "N - Q * D < D"
      using D(1) by (simp add: Q_def minus_div_mult_eq_mod)
    with 2 sub q1 show ?thesis
      by (simp add: word_less_nat_alt D_def [symmetric] word_eq_iff_unsigned [where ?'a = nat] unat_div_distrib Q_def N_def [symmetric])
  qed
qed

lemma udiv64_long:
  assumes "drop_bit 32 d \<noteq> 0"
  shows "udiv64 n d = Some (n div d)"
proof (cases "n < d")
  case True
  then have "n div d = 0"
    by (simp add: word_eq_iff_unsigned [where ?'a = nat] unat_div_distrib word_less_nat_alt)
  with assms True show ?thesis
    by (simp add: udiv64_def)
next
  case False
  define N D where "N = unat n" and "D = unat d"
  define d1 where "d1 = (ucast (drop_bit 32 d) :: u32)"
  define s where "s = nlz d1"
  define V where "V = D * 2 ^ s div 2 ^ 32"
  have ND: "D \<le> N" "N < 2 ^ 64" "D < 2 ^ 64"
    using False unat_u64_less [of n] unat_u64_less [of d] by (simp_all add: N_def D_def word_le_nat_alt not_less)
  have d1: "unat d1 = D div 2 ^ 32"
    unfolding d1_def D_def by (rule unat_high)
  have "d1 \<noteq> 0"
    using assms unat_drop_32 [of d] d1 by (metis D_def unat_eq_zero)
  from nlz_correct [OF this] have norm: "2 ^ 31 \<le> D div 2 ^ 32 * 2 ^ s" "D div 2 ^ 32 * 2 ^ s < 2 ^ 32"
    by (simp_all add: d1 s_def)
  note nd = normalise_divisor [OF norm]
  define v where "v = (ucast (drop_bit 32 (push_bit s d)) :: u32)"
  have v: "unat v = V"
    unfolding v_def unat_high V_def using nd(2) by (subst unat_push_bit_small) (simp_all add: D_def)
  have "N div 2 div V < 2 ^ 32"
    using ND(2) nd(3) by (simp add: V_def div_less_iff_less_mult)
  moreover have half: "unat (drop_bit 1 n) = N div 2"
    by (simp add: N_def drop_bit_Suc unat_div_distrib)
  moreover have "V \<noteq> 0"
    using nd(3) by (simp add: V_def)
  ultimately obtain q1 where q1: "divl (drop_bit 1 n) v = Some q1" "unat q1 = N div 2 div V"
    using divl_ok [of v "drop_bit 1 n"] v by auto
  define q where "q = (ucast (drop_bit (31 - s) q1) :: u64)"
  have q: "unat q = N div 2 div V div 2 ^ (31 - s)"
    unfolding q_def unat_widen
    by (subst unsigned_drop_bit_eq) (use unat_u32_less [of q1] in \<open>simp add: drop_bit_eq_div take_bit_nat_eq_self q1(2)\<close>)
  have "V * 2 ^ 32 \<le> D * 2 ^ s" "D * 2 ^ s < (V + 1) * 2 ^ 32"
    unfolding V_def by (simp_all add: dividend_less_div_times)
  from quotient_estimate [OF nd(1) nd(3) [folded V_def] this ND(2)] have est: "N div D \<le> unat q" "unat q \<le> N div D + 1"
    by (simp_all add: q)
  have "(if n - (q - 1) * d < d then q - 1 else q) = n div d"
    by (rule quotient_fixup [OF _ est [unfolded N_def D_def]]) (use False assms in auto)
  with assms False q1(1) show ?thesis
    unfolding q_def v_def s_def d1_def by (simp add: udiv64_def Let_def split del: if_split)
qed

lemma udiv64_div: "d \<noteq> 0 \<Longrightarrow> udiv64 n d = Some (n div d)"
  using udiv64_short udiv64_long by blast

text \<open>
  C5: \<^verbatim>\<open>udiv64\<close> returns the exact quotient for every dividend and every non-zero divisor, on both
  branches, with no divide error from \<^verbatim>\<open>divl\<close>; a zero divisor traps.
\<close>

theorem udiv64_correct: "udiv64 n d = (if d = 0 then None else Some (n div d))"
  using udiv64_div [of d n] by (simp add: udiv64_def)

section \<open>Signed division and remainders\<close>

lemma uint_abs: "uint (if sint (n::u64) \<ge> 0 then n else - n) = \<bar>sint n\<bar>"
proof (cases "sint n \<ge> 0")
  case True
  have "uint n = sint n mod 2 ^ 64"
    using uint_word_of_int [of "sint n", where ?'a = 64] by simp
  then show ?thesis
    using True sint_less [of n] by (simp add: mod_pos_pos_trivial)
next
  case False
  have "uint (- n) = (- sint n) mod 2 ^ 64"
    using uint_word_of_int [of "- sint n", where ?'a = 64] by simp
  then show ?thesis
    using False sint_greater_eq [of n] by (simp add: mod_pos_pos_trivial)
qed

lemma sint_word_of_int_in_range:
  "- (2 ^ 63) \<le> k \<Longrightarrow> k < 2 ^ 63 \<Longrightarrow> sint (word_of_int k :: u64) = k"
  by (simp add: signed_of_int signed_take_bit_int_eq_self)

lemma sdiv_bounds:
  fixes n d :: int
  assumes "- (2 ^ 63) \<le> n" "n < 2 ^ 63" "d \<noteq> 0"
  shows "- (2 ^ 63) \<le> n sdiv d" "\<not> (n = - (2 ^ 63) \<and> d = - 1) \<Longrightarrow> n sdiv d < 2 ^ 63"
proof -
  have abs: "\<bar>n sdiv d\<bar> = \<bar>n\<bar> div \<bar>d\<bar>"
    using assms(3) by (simp add: signed_divide_int_def abs_mult sgn_if pos_imp_zdiv_nonneg_iff)
  also have "\<dots> \<le> \<bar>n\<bar>"
    using assms(3) zdiv_mono2 [of "\<bar>n\<bar>" 1 "\<bar>d\<bar>"] by simp
  finally have le: "\<bar>n sdiv d\<bar> \<le> \<bar>n\<bar>" .
  then show "- (2 ^ 63) \<le> n sdiv d"
    using assms(1,2) by linarith
  show "n sdiv d < 2 ^ 63" if "\<not> (n = - (2 ^ 63) \<and> d = - 1)"
  proof (cases "n = - (2 ^ 63)")
    case True
    then have "d \<noteq> - 1"
      using that by simp
    then have "d = 1 \<or> 2 \<le> \<bar>d\<bar>"
      using assms(3) by linarith
    then show ?thesis
    proof
      assume "2 \<le> \<bar>d\<bar>"
      then have "\<bar>n\<bar> div \<bar>d\<bar> \<le> \<bar>n\<bar> div 2"
        by (intro zdiv_mono2) auto
      with abs True show ?thesis by simp
    qed (use True in \<open>simp add: signed_divide_int_def\<close>)
  next
    case False
    then show ?thesis
      using le assms(1,2) by linarith
  qed
qed

lemma sdiv64_eq:
  "sdiv64 n d = (if d = 0 then None else Some (word_of_int (sint n sdiv sint d)))"
proof (cases "d = 0")
  case False
  define a b where "a = (if sint n \<ge> 0 then n else - n)" and "b = (if sint d \<ge> 0 then d else - d)"
  have "b \<noteq> 0"
    using False by (simp add: b_def)
  then have q: "udiv64 a b = Some (a div b)"
    by (rule udiv64_div)
  have "uint (a div b) = \<bar>sint n\<bar> div \<bar>sint d\<bar>"
    by (simp only: uint_div_distrib a_def b_def uint_abs)
  then have ab: "a div b = word_of_int (\<bar>sint n\<bar> div \<bar>sint d\<bar>)"
    by (metis word_of_int_uint)
  have "(if (sint n < 0) = (sint d < 0) then a div b else - (a div b)) = word_of_int (sint n sdiv sint d)"
    unfolding ab signed_divide_int_def using False
    by (cases "sint n" "0 :: int" rule: linorder_cases; cases "sint d" "0 :: int" rule: linorder_cases) auto
  with q False show ?thesis
    by (simp add: sdiv64_def Let_def flip: a_def b_def)
qed (simp add: sdiv64_def udiv64_def)

text \<open>
  \<^verbatim>\<open>sdiv64\<close> (called by the compiler as \<^verbatim>\<open>__divdi3\<close>) is C's signed division: the quotient of the
  signed values truncated toward zero, exact except for the one overflowing case
  \<open>- 2 ^ 63\<close> divided by \<open>- 1\<close>, where it wraps.
\<close>

theorem sdiv64_truncates:
  assumes "d \<noteq> 0"
  shows "\<exists>q. divdi3 n d = Some q \<and> (if sint n = - (2 ^ 63) \<and> sint d = - 1 then q = n
    else sint q = sint n sdiv sint d)"
proof -
  have bounds: "- (2 ^ 63) \<le> sint n" "sint n < 2 ^ 63" "sint d \<noteq> 0"
    using sint_greater_eq [of n] sint_less [of n] assms signed_eq_0_iff [of d] by simp_all
  show ?thesis
  proof (cases "sint n = - (2 ^ 63) \<and> sint d = - 1")
    case True
    have "word_of_int (sint n) = n"
      by simp
    with True have "n = word_of_int (- (2 ^ 63))"
      by simp
    with True assms show ?thesis
      by (simp add: divdi3_def sdiv64_eq signed_divide_int_def)
  next
    case False
    have "- (2 ^ 63) \<le> sint n sdiv sint d" "sint n sdiv sint d < 2 ^ 63"
      using sdiv_bounds [OF bounds] False by auto
    then have "sint (word_of_int (sint n sdiv sint d) :: u64) = sint n sdiv sint d"
      by (simp add: sint_word_of_int_in_range)
    with False assms show ?thesis
      by (auto simp: divdi3_def sdiv64_eq)
  qed
qed

theorem sdiv64_truncates_witness:
  "divdi3 (- 7) 2 = Some (- 3) \<and> (\<exists>q. divdi3 (- 7) 2 = Some q \<and> sint q = - 3)"
  using sdiv64_truncates [of 2 "- 7"] by (simp add: divdi3_def sdiv64_eq signed_divide_int_def)

text \<open>
  C39: \<^verbatim>\<open>umod64\<close> has the return type \<^verbatim>\<open>uint32_t\<close>, so \<^verbatim>\<open>__umoddi3\<close> yields the remainder modulo
  \<open>2 ^ 32\<close>: right exactly when the true remainder fits in 32 bits.
\<close>

theorem umoddi3_truncated:
  assumes "d \<noteq> 0"
  shows "\<exists>r. umoddi3 n d = Some r \<and> unat r = unat n mod unat d mod 2 ^ 32 \<and>
    (r = n mod d \<longleftrightarrow> unat n mod unat d < 2 ^ 32)"
proof -
  define r where "r = (ucast (ucast (n mod d) :: u32) :: u64)"
  have "umoddi3 n d = Some r"
    using assms by (simp add: umoddi3_def umod64_def udiv64_div r_def minus_mult_div_eq_mod)
  moreover have "unat r = unat n mod unat d mod 2 ^ 32"
    unfolding r_def unat_widen unat_low unat_mod_distrib ..
  moreover have "unat n mod unat d mod 2 ^ 32 = unat n mod unat d \<longleftrightarrow> unat n mod unat d < 2 ^ 32"
    by (metis mod_less mod_less_divisor zero_less_numeral zero_less_power)
  ultimately show ?thesis
    by (intro exI [of _ r]) (simp add: word_eq_iff_unsigned [where ?'a = nat] unat_mod_distrib)
qed

theorem umoddi3_truncated_witness:
  "umoddi3 (2 ^ 32) (2 ^ 33) = Some 0 \<and> (2 ^ 32 :: u64) mod 2 ^ 33 = 2 ^ 32 \<and>
   (\<exists>r. umoddi3 (2 ^ 32) (2 ^ 33) = Some r \<and> r \<noteq> 2 ^ 32 mod 2 ^ 33)"
proof -
  have nz: "(2 ^ 33 :: u64) \<noteq> 0" "(2 ^ 32 :: u64) mod 2 ^ 33 = 2 ^ 32"
    by simp_all
  obtain r where r: "umoddi3 (2 ^ 32) (2 ^ 33) = Some r" "unat r = 2 ^ 32 mod 2 ^ 33 mod 2 ^ 32"
    using umoddi3_truncated [OF nz(1), of "2 ^ 32"] by auto
  then have "r = 0"
    by (simp add: unat_eq_zero)
  with r(1) nz(2) show ?thesis by simp
qed

end
