(* ===== verification/Kstring.thy ===== *)
theory Kstring
  imports Prelude "HOL-Library.Sublist"
begin

text \<open>
  The memory and string functions of \<^verbatim>\<open>lib/string.c\<close> and the character classes of
  \<^verbatim>\<open>lib/ctype.h\<close>, on a memory of bytes. A pointer is an address, the null pointer is 0; a function
  that writes returns the new memory. Loops that run until a terminator are partial functions:
  \<^term>\<open>None\<close> is a failed assertion or a loop that never ends. \<open>cstr m p xs\<close> reads the
  null-terminated string at \<open>p\<close>; each function is shown to return and to compute its list
  counterpart.
\<close>

section \<open>Memory\<close>

type_synonym mem = "addr \<Rightarrow> u8"

definition block :: "mem \<Rightarrow> addr \<Rightarrow> nat \<Rightarrow> u8 list" where
  "block m p n = map m [p..<p + n]"

definition cstr :: "mem \<Rightarrow> addr \<Rightarrow> u8 list \<Rightarrow> bool" where
  "cstr m p xs \<longleftrightarrow> p \<noteq> NULL \<and> block m p (length xs) = xs \<and> 0 \<notin> set xs \<and> m (p + length xs) = 0"

section \<open>Definitions\<close>

definition isspace :: "u8 \<Rightarrow> bool" where
  "isspace c \<longleftrightarrow> c = 32 \<or> c = 12 \<or> c = 10 \<or> c = 13 \<or> c = 9 \<or> c = 11"

definition isdigit :: "u8 \<Rightarrow> bool" where
  "isdigit c \<longleftrightarrow> 48 \<le> c \<and> c \<le> 57"

fun memcpy_loop :: "mem \<Rightarrow> addr \<Rightarrow> addr \<Rightarrow> nat \<Rightarrow> mem" where
  "memcpy_loop m dst src 0 = m"
| "memcpy_loop m dst src (Suc sz) = memcpy_loop (m(dst := m src)) (dst + 1) (src + 1) sz"

definition memcpy :: "mem \<Rightarrow> addr \<Rightarrow> addr \<Rightarrow> nat \<Rightarrow> (addr \<times> mem) option" where
  "memcpy m dst0 src sz = do {
     ASSERT (dst0 \<noteq> NULL \<or> sz = 0);
     ASSERT (src \<noteq> NULL \<or> sz = 0);
     Some (dst0, memcpy_loop m dst0 src sz) }"

fun memmove_up :: "mem \<Rightarrow> addr \<Rightarrow> addr \<Rightarrow> nat \<Rightarrow> addr \<times> mem" where
  "memmove_up m dst src 0 = (dst, m)"
| "memmove_up m dst src (Suc sz) = memmove_up (m(dst := m src)) (dst + 1) (src + 1) sz"

fun memmove_down :: "mem \<Rightarrow> addr \<Rightarrow> addr \<Rightarrow> nat \<Rightarrow> addr \<times> mem" where
  "memmove_down m dst src 0 = (dst, m)"
| "memmove_down m dst src (Suc sz) =
     memmove_down (m(dst - 1 := m (src - 1))) (dst - 1) (src - 1) sz"

definition memmove :: "mem \<Rightarrow> addr \<Rightarrow> addr \<Rightarrow> nat \<Rightarrow> (addr \<times> mem) option" where
  "memmove m dst src sz = do {
     ASSERT (dst \<noteq> NULL \<or> sz = 0);
     ASSERT (src \<noteq> NULL \<or> sz = 0);
     Some (if dst < src then memmove_up m dst src sz
           else memmove_down m (dst + sz) (src + sz) sz) }"

fun memcmp_loop :: "mem \<Rightarrow> addr \<Rightarrow> addr \<Rightarrow> nat \<Rightarrow> int" where
  "memcmp_loop m a b 0 = 0"
| "memcmp_loop m a b (Suc sz) =
     (if m a \<noteq> m b then if m a > m b then 1 else - 1
      else memcmp_loop m (a + 1) (b + 1) sz)"

definition memcmp :: "mem \<Rightarrow> addr \<Rightarrow> addr \<Rightarrow> nat \<Rightarrow> int option" where
  "memcmp m a b sz = do {
     ASSERT (a \<noteq> NULL \<or> sz = 0);
     ASSERT (b \<noteq> NULL \<or> sz = 0);
     Some (memcmp_loop m a b sz) }"

partial_function (option) strcmp_loop :: "mem \<Rightarrow> addr \<Rightarrow> addr \<Rightarrow> int option" where
  "strcmp_loop m a b =
     (if m a \<noteq> 0 \<and> m a = m b then strcmp_loop m (a + 1) (b + 1)
      else Some (if m a < m b then - 1 else if m a > m b then 1 else 0))"

definition strcmp :: "mem \<Rightarrow> addr \<Rightarrow> addr \<Rightarrow> int option" where
  "strcmp m a b = do {
     ASSERT (a \<noteq> NULL);
     ASSERT (b \<noteq> NULL);
     strcmp_loop m a b }"

fun memchr_loop :: "mem \<Rightarrow> addr \<Rightarrow> u8 \<Rightarrow> nat \<Rightarrow> addr" where
  "memchr_loop m p ch 0 = NULL"
| "memchr_loop m p ch (Suc sz) = (if m p = ch then p else memchr_loop m (p + 1) ch sz)"

definition memchr :: "mem \<Rightarrow> addr \<Rightarrow> u8 \<Rightarrow> nat \<Rightarrow> addr option" where
  "memchr m p ch sz = do {
     ASSERT (p \<noteq> NULL \<or> sz = 0);
     Some (memchr_loop m p ch sz) }"

partial_function (option) strchr_loop :: "mem \<Rightarrow> addr \<Rightarrow> u8 \<Rightarrow> addr option" where
  "strchr_loop m p c =
     (if m p = c then Some p
      else if m p = 0 then Some NULL
      else strchr_loop m (p + 1) c)"

definition strchr :: "mem \<Rightarrow> addr \<Rightarrow> u8 \<Rightarrow> addr option" where
  "strchr m p c = do {
     ASSERT (p \<noteq> NULL);
     strchr_loop m p c }"

partial_function (option) strcspn_loop :: "mem \<Rightarrow> addr \<Rightarrow> addr \<Rightarrow> nat \<Rightarrow> nat option" where
  "strcspn_loop m p stop len =
     (if m (p + len) \<noteq> 0 then do {
        r \<leftarrow> strchr m stop (m (p + len));
        if r \<noteq> NULL then Some len else strcspn_loop m p stop (len + 1) }
      else Some len)"

definition strcspn :: "mem \<Rightarrow> addr \<Rightarrow> addr \<Rightarrow> nat option" where
  "strcspn m p stop = strcspn_loop m p stop 0"

partial_function (option) strpbrk :: "mem \<Rightarrow> addr \<Rightarrow> addr \<Rightarrow> addr option" where
  "strpbrk m p stop =
     (if m p \<noteq> 0 then do {
        r \<leftarrow> strchr m stop (m p);
        if r \<noteq> NULL then Some p else strpbrk m (p + 1) stop }
      else Some NULL)"

partial_function (option) strrchr_loop :: "mem \<Rightarrow> addr \<Rightarrow> u8 \<Rightarrow> addr \<Rightarrow> addr option" where
  "strrchr_loop m s c p =
     (if m s \<noteq> 0 then strrchr_loop m (s + 1) c (if m s = c then s else p)
      else Some p)"

definition strrchr :: "mem \<Rightarrow> addr \<Rightarrow> u8 \<Rightarrow> addr option" where
  "strrchr m s c = strrchr_loop m s c NULL"

partial_function (option) strspn_loop :: "mem \<Rightarrow> addr \<Rightarrow> addr \<Rightarrow> nat \<Rightarrow> nat option" where
  "strspn_loop m p skip len =
     (if m (p + len) \<noteq> 0 then do {
        r \<leftarrow> strchr m skip (m (p + len));
        if r = NULL then Some len else strspn_loop m p skip (len + 1) }
      else Some len)"

definition strspn :: "mem \<Rightarrow> addr \<Rightarrow> addr \<Rightarrow> nat option" where
  "strspn m p skip = strspn_loop m p skip 0"

partial_function (option) strlen_loop :: "mem \<Rightarrow> addr \<Rightarrow> addr \<Rightarrow> nat option" where
  "strlen_loop m string p = (if m p \<noteq> 0 then strlen_loop m string (p + 1) else Some (p - string))"

definition strlen :: "mem \<Rightarrow> addr \<Rightarrow> nat option" where
  "strlen m string = do {
     ASSERT (string \<noteq> NULL);
     strlen_loop m string string }"

function strnlen_loop :: "mem \<Rightarrow> addr \<Rightarrow> nat \<Rightarrow> nat \<Rightarrow> nat" where
  "strnlen_loop m string maxlen len =
     (if m (string + len) \<noteq> 0 \<and> len < maxlen then strnlen_loop m string maxlen (len + 1) else len)"
  by pat_completeness auto
termination by (relation "measure (\<lambda>(_, _, maxlen, len). maxlen - len)") auto

definition strnlen :: "mem \<Rightarrow> addr \<Rightarrow> nat \<Rightarrow> nat" where
  "strnlen m string maxlen = strnlen_loop m string maxlen 0"

function strstr_loop :: "mem \<Rightarrow> addr \<Rightarrow> addr \<Rightarrow> nat \<Rightarrow> nat \<Rightarrow> nat \<Rightarrow> addr option" where
  "strstr_loop m haystack needle bound needle_len i =
     (if i \<le> bound then do {
        c \<leftarrow> memcmp m (haystack + i) needle needle_len;
        if c = 0 then Some (haystack + i)
        else strstr_loop m haystack needle bound needle_len (i + 1) }
      else Some NULL)"
  by pat_completeness auto
termination by (relation "measure (\<lambda>(_, _, _, bound, _, i). Suc bound - i)") auto

definition strstr :: "mem \<Rightarrow> addr \<Rightarrow> addr \<Rightarrow> addr option" where
  "strstr m haystack needle = do {
     haystack_len \<leftarrow> strlen m haystack;
     needle_len \<leftarrow> strlen m needle;
     if haystack_len \<ge> needle_len
     then strstr_loop m haystack needle (haystack_len - needle_len) needle_len 0
     else Some NULL }"

text \<open>\<^verbatim>\<open>strtok_r\<close>: the first loop returns \<open>None\<close> in its value for the null token, and both
  the position reached.\<close>

partial_function (option) strtok_skip :: "mem \<Rightarrow> addr \<Rightarrow> addr \<Rightarrow> (bool \<times> addr) option" where
  "strtok_skip m delimiters s = do {
     r \<leftarrow> strchr m delimiters (m s);
     if r \<noteq> NULL
     then if m s = 0 then Some (False, s) else strtok_skip m delimiters (s + 1)
     else Some (True, s) }"

partial_function (option) strtok_scan :: "mem \<Rightarrow> addr \<Rightarrow> addr \<Rightarrow> addr option" where
  "strtok_scan m delimiters s = do {
     r \<leftarrow> strchr m delimiters (m s);
     if r = NULL then strtok_scan m delimiters (s + 1) else Some s }"

definition strtok_r :: "mem \<Rightarrow> addr \<Rightarrow> addr \<Rightarrow> addr \<Rightarrow> (addr \<times> addr \<times> mem) option" where
  "strtok_r m s delimiters save_ptr = do {
     ASSERT (delimiters \<noteq> NULL);
     let s = (if s = NULL then save_ptr else s);
     ASSERT (s \<noteq> NULL);
     (found, s) \<leftarrow> strtok_skip m delimiters s;
     if \<not> found then Some (NULL, s, m)
     else do {
       let token = s;
       s \<leftarrow> strtok_scan m delimiters s;
       if m s \<noteq> 0
       then Some (token, s + 1, m(s := 0))
       else Some (token, s, m) } }"

fun memset_loop :: "mem \<Rightarrow> addr \<Rightarrow> u8 \<Rightarrow> nat \<Rightarrow> mem" where
  "memset_loop m dst v 0 = m"
| "memset_loop m dst v (Suc sz) = memset_loop (m(dst := v)) (dst + 1) v sz"

definition memset :: "mem \<Rightarrow> addr \<Rightarrow> u8 \<Rightarrow> nat \<Rightarrow> (addr \<times> mem) option" where
  "memset m dst0 v sz = do {
     ASSERT (dst0 \<noteq> NULL \<or> sz = 0);
     Some (dst0, memset_loop m dst0 v sz) }"

definition strlcpy :: "mem \<Rightarrow> addr \<Rightarrow> addr \<Rightarrow> nat \<Rightarrow> (nat \<times> mem) option" where
  "strlcpy m dst src sz = do {
     ASSERT (dst \<noteq> NULL);
     ASSERT (src \<noteq> NULL);
     src_len \<leftarrow> strlen m src;
     if sz > 0 then do {
       let dst_len = sz - 1;
       let dst_len = (if src_len < dst_len then src_len else dst_len);
       (_, m) \<leftarrow> memcpy m dst src dst_len;
       Some (src_len, m(dst + dst_len := 0)) }
     else Some (src_len, m) }"

definition strlcat :: "mem \<Rightarrow> addr \<Rightarrow> addr \<Rightarrow> nat \<Rightarrow> (nat \<times> mem) option" where
  "strlcat m dst src sz = do {
     ASSERT (dst \<noteq> NULL);
     ASSERT (src \<noteq> NULL);
     src_len \<leftarrow> strlen m src;
     dst_len \<leftarrow> strlen m dst;
     if sz > 0 \<and> dst_len < sz then do {
       let copy_cnt = sz - dst_len - 1;
       let copy_cnt = (if src_len < copy_cnt then src_len else copy_cnt);
       (_, m) \<leftarrow> memcpy m (dst + dst_len) src copy_cnt;
       Some (src_len + dst_len, m(dst + dst_len + copy_cnt := 0)) }
     else Some (src_len + dst_len, m) }"

declare strnlen_loop.simps [simp del] strstr_loop.simps [simp del]

section \<open>Blocks and strings\<close>

lemma length_block [simp]: "length (block m p n) = n"
  by (simp add: block_def)

lemma nth_block [simp]: "i < n \<Longrightarrow> block m p n ! i = m (p + i)"
  by (simp add: block_def)

lemma block_0 [simp]: "block m p 0 = []"
  by (simp add: block_def)

lemma block_Suc: "block m p (Suc n) = m p # block m (Suc p) n"
  unfolding block_def by (subst upt_conv_Cons) auto

lemma block_add: "block m p (a + b) = block m p a @ block m (p + a) b"
  by (rule nth_equalityI) (auto simp: nth_append)

lemma block_cong: "(\<And>i. i < n \<Longrightarrow> m' (q + i) = m (p + i)) \<Longrightarrow> block m' q n = block m p n"
  by (rule nth_equalityI) auto

lemma cstr_nth: "cstr m p xs \<Longrightarrow> i < length xs \<Longrightarrow> m (p + i) = xs ! i"
  by (metis cstr_def nth_block)

lemma cstr_Nil: "cstr m p [] \<longleftrightarrow> p \<noteq> 0 \<and> m p = 0"
  by (simp add: cstr_def)

lemma cstr_Cons: "cstr m p (x # xs) \<longleftrightarrow> p \<noteq> 0 \<and> m p = x \<and> x \<noteq> 0 \<and> cstr m (Suc p) xs"
  by (auto simp: cstr_def block_Suc)

lemma cstr_append: "cstr m p (xs @ ys) \<Longrightarrow> cstr m (p + length xs) ys"
  by (induction xs arbitrary: p) (fastforce simp: cstr_Cons)+

lemma cstr_unique: "cstr m p xs \<Longrightarrow> cstr m p ys \<Longrightarrow> xs = ys"
proof (induction xs arbitrary: p ys)
  case Nil
  then show ?case by (cases ys) (auto simp: cstr_Nil cstr_Cons)
next
  case (Cons x xs)
  then show ?case by (cases ys) (auto simp: cstr_Nil cstr_Cons)
qed

lemma cstr_agree:
  "cstr m p xs \<Longrightarrow> (\<And>i. i \<le> length xs \<Longrightarrow> m' (p + i) = m (p + i)) \<Longrightarrow> cstr m' p xs"
  unfolding cstr_def using block_cong [of "length xs" m' p m p] by auto

text \<open>What a block write leaves alone.\<close>

definition agree_outside :: "addr \<Rightarrow> nat \<Rightarrow> mem \<Rightarrow> mem \<Rightarrow> bool" where
  "agree_outside p n m m' \<longleftrightarrow> (\<forall>a. a < p \<or> p + n \<le> a \<longrightarrow> m' a = m a)"

section \<open>Block functions\<close>

lemma memcpy_loop_frame: "a < dst \<or> dst + n \<le> a \<Longrightarrow> memcpy_loop m dst src n a = m a"
  by (induction n arbitrary: m dst src) auto

lemma memcpy_loop_block:
  "dst \<le> src \<or> src + n \<le> dst \<Longrightarrow> i < n \<Longrightarrow> memcpy_loop m dst src n (dst + i) = m (src + i)"
proof (induction n arbitrary: m dst src i)
  case (Suc n)
  show ?case
  proof (cases i)
    case 0
    then show ?thesis
      using memcpy_loop_frame [of dst "Suc dst" n] by simp
  next
    case (Suc j)
    with Suc.prems have "memcpy_loop (m(dst := m src)) (Suc dst) (Suc src) n (Suc dst + j) =
        (m(dst := m src)) (Suc src + j)"
      by (intro Suc.IH) auto
    with Suc Suc.prems show ?thesis
      by auto
  qed
qed simp

lemma memmove_up_eq: "memmove_up m dst src n = (dst + n, memcpy_loop m dst src n)"
  by (induction n arbitrary: m dst src) auto

lemma memmove_down_spec:
  "src \<le> dst \<Longrightarrow> \<exists>m'. memmove_down m (dst + n) (src + n) n = (dst, m') \<and>
    (\<forall>i<n. m' (dst + i) = m (src + i)) \<and> agree_outside dst n m m'"
proof (induction n arbitrary: m)
  case 0
  then show ?case by (simp add: agree_outside_def)
next
  case (Suc n)
  let ?m = "m(dst + n := m (src + n))"
  obtain m' where m': "memmove_down ?m (dst + n) (src + n) n = (dst, m')"
    "\<forall>i<n. m' (dst + i) = ?m (src + i)" "agree_outside dst n ?m m'"
    using Suc.IH [OF Suc.prems, of ?m] by blast
  have "m' (dst + i) = m (src + i)" if "i < Suc n" for i
    using that m'(2,3) Suc.prems by (cases "i = n") (auto simp: agree_outside_def)
  moreover have "agree_outside dst (Suc n) m m'"
    using m'(3) by (auto simp: agree_outside_def)
  ultimately show ?case
    using m'(1) by simp
qed

lemma memset_loop_eq: "memset_loop m dst v n a = (if dst \<le> a \<and> a < dst + n then v else m a)"
  by (induction n arbitrary: m dst) auto

lemma memcmp_loop_eq:
  "memcmp_loop m a b n =
    (if block m a n = block m b n then 0
     else if ord_class.lexordp (block m b n) (block m a n) then 1 else - 1)"
  by (induction n arbitrary: a b) (auto simp: block_Suc)

section \<open>String functions\<close>

lemma strlen_ok: "cstr m p xs \<Longrightarrow> strlen m p = Some (length xs)"
proof -
  have "cstr m q xs \<Longrightarrow> strlen_loop m p q = Some (q + length xs - p)" for q
    by (induction xs arbitrary: q) (subst strlen_loop.simps; auto simp: cstr_Nil cstr_Cons)+
  then show "cstr m p xs \<Longrightarrow> ?thesis"
    by (simp add: strlen_def cstr_def)
qed

lemma strcmp_ok:
  "cstr m a xs \<Longrightarrow> cstr m b ys \<Longrightarrow>
   strcmp m a b = Some (if xs = ys then 0 else if ord_class.lexordp xs ys then - 1 else 1)"
proof -
  have "cstr m a xs \<Longrightarrow> cstr m b ys \<Longrightarrow>
    strcmp_loop m a b = Some (if xs = ys then 0 else if ord_class.lexordp xs ys then - 1 else 1)"
  proof (induction xs arbitrary: a b ys)
    case Nil
    then show ?case
      by (cases ys) (auto simp: strcmp_loop.simps [of m a] cstr_Nil cstr_Cons word_gt_0)
  next
    case (Cons x xs)
    show ?case
    proof (cases ys)
      case Nil
      with Cons.prems show ?thesis
        by (simp add: strcmp_loop.simps [of m a] cstr_Nil cstr_Cons word_gt_0)
    next
      case (Cons y zs)
      with Cons.IH [of "Suc a" "Suc b" zs] Cons.prems show ?thesis
        by (auto simp: strcmp_loop.simps [of m a] cstr_Cons)
    qed
  qed
  then show "cstr m a xs \<Longrightarrow> cstr m b ys \<Longrightarrow> ?thesis"
    by (simp add: strcmp_def cstr_def)
qed

lemma strchr_ok:
  "cstr m p xs \<Longrightarrow> strchr m p c =
    Some (if c \<in> set xs \<or> c = 0 then p + length (takeWhile (\<lambda>x. x \<noteq> c) xs) else 0)"
proof -
  have "cstr m p xs \<Longrightarrow> strchr_loop m p c =
      Some (if c \<in> set xs \<or> c = 0 then p + length (takeWhile (\<lambda>x. x \<noteq> c) xs) else 0)"
  proof (induction xs arbitrary: p)
    case Nil
    then show ?case
      by (auto simp: strchr_loop.simps [of m p] cstr_Nil)
  next
    case (Cons x xs)
    then show ?case
      by (auto simp: strchr_loop.simps [of m p] cstr_Cons)
  qed
  then show "cstr m p xs \<Longrightarrow> ?thesis"
    by (simp add: strchr_def cstr_def)
qed

lemma strchr_member: "cstr m p xs \<Longrightarrow> \<exists>r. strchr m p c = Some r \<and> (r \<noteq> 0 \<longleftrightarrow> c \<in> set xs \<or> c = 0)"
  by (auto simp: strchr_ok cstr_def)

lemma strcspn_ok:
  assumes "cstr m q ds"
  shows "cstr m p xs \<Longrightarrow> strcspn m p q = Some (length (takeWhile (\<lambda>x. x \<notin> set ds) xs))"
proof -
  have "cstr m (p + len) ys \<Longrightarrow> strcspn_loop m p q len = Some (len + length (takeWhile (\<lambda>x. x \<notin> set ds) ys))" for len ys
  proof (induction ys arbitrary: len)
    case (Cons y ys)
    obtain r where "strchr m q y = Some r" "r \<noteq> 0 \<longleftrightarrow> y \<in> set ds \<or> y = 0"
      using strchr_member [OF assms] by blast
    with Cons show ?case
      by (auto simp: strcspn_loop.simps [of m p q len] cstr_Cons)
  qed (simp add: strcspn_loop.simps cstr_Nil)
  then show "cstr m p xs \<Longrightarrow> ?thesis"
    by (simp add: strcspn_def)
qed

lemma strspn_ok:
  assumes "cstr m q ds"
  shows "cstr m p xs \<Longrightarrow> strspn m p q = Some (length (takeWhile (\<lambda>x. x \<in> set ds) xs))"
proof -
  have "cstr m (p + len) ys \<Longrightarrow> strspn_loop m p q len = Some (len + length (takeWhile (\<lambda>x. x \<in> set ds) ys))" for len ys
  proof (induction ys arbitrary: len)
    case (Cons y ys)
    obtain r where "strchr m q y = Some r" "r \<noteq> 0 \<longleftrightarrow> y \<in> set ds \<or> y = 0"
      using strchr_member [OF assms] by blast
    with Cons show ?case
      by (auto simp: strspn_loop.simps [of m p q len] cstr_Cons)
  qed (simp add: strspn_loop.simps cstr_Nil)
  then show "cstr m p xs \<Longrightarrow> ?thesis"
    by (simp add: strspn_def)
qed

lemma strpbrk_ok:
  assumes "cstr m q ds"
  shows "cstr m p xs \<Longrightarrow> strpbrk m p q =
    Some (if \<exists>x\<in>set xs. x \<in> set ds then p + length (takeWhile (\<lambda>x. x \<notin> set ds) xs) else 0)"
proof (induction xs arbitrary: p)
  case (Cons x xs)
  obtain r where "strchr m q x = Some r" "r \<noteq> 0 \<longleftrightarrow> x \<in> set ds \<or> x = 0"
    using strchr_member [OF assms] by blast
  with Cons show ?case
    by (auto simp: strpbrk.simps [of m p q] cstr_Cons)
qed (simp add: strpbrk.simps cstr_Nil)

lemma strrchr_ok:
  assumes "cstr m p xs"
  shows "\<exists>r. strrchr m p c = Some r \<and>
    (if c \<in> set xs then \<exists>us vs. xs = us @ c # vs \<and> c \<notin> set vs \<and> r = p + length us else r = 0)"
proof -
  have "cstr m p ys \<Longrightarrow> \<exists>r. strrchr_loop m p c q = Some r \<and>
      (if c \<in> set ys then \<exists>us vs. ys = us @ c # vs \<and> c \<notin> set vs \<and> r = p + length us else r = q)" for p ys q
  proof (induction ys arbitrary: p q)
    case (Cons y ys)
    then obtain r where r: "strrchr_loop m (Suc p) c (if y = c then p else q) = Some r"
      "if c \<in> set ys then \<exists>us vs. ys = us @ c # vs \<and> c \<notin> set vs \<and> r = Suc p + length us
       else r = (if y = c then p else q)"
      unfolding cstr_Cons by blast
    have step: "strrchr_loop m p c q = Some r"
      using r(1) Cons.prems by (simp add: strrchr_loop.simps [of m p] cstr_Cons)
    show ?case
    proof (cases "c \<in> set ys")
      case True
      then obtain us vs where "ys = us @ c # vs" "c \<notin> set vs" "r = Suc p + length us"
        using r(2) by auto
      then show ?thesis
        using step True by (intro exI [of _ r]) (force intro: exI [of _ "y # us"])
    next
      case False
      then show ?thesis
        using step r(2) by (auto intro!: exI [of _ "[]"])
    qed
  qed (simp add: strrchr_loop.simps cstr_Nil)
  from this [OF assms, of 0] show ?thesis
    by (simp add: strrchr_def)
qed

lemma cstr_block: "cstr m p xs \<Longrightarrow> i + n \<le> length xs \<Longrightarrow> block m (p + i) n = take n (drop i xs)"
  by (rule nth_equalityI) (auto simp: cstr_nth add.assoc)

lemma strstr_loop_ok:
  assumes "cstr m p xs" "cstr m q ys" "bound = length xs - length ys" "length ys \<le> length xs"
  shows "\<exists>r. strstr_loop m p q bound (length ys) i = Some r \<and>
    (r = 0 \<and> (\<forall>j. i \<le> j \<and> j < Suc bound \<longrightarrow> \<not> prefix ys (drop j xs)) \<or>
     (\<exists>j. r = p + j \<and> prefix ys (drop j xs) \<and> (\<forall>k. i \<le> k \<and> k < j \<longrightarrow> \<not> prefix ys (drop k xs))))"
  using assms(3)
proof (induction "Suc bound - i" arbitrary: i)
  case 0
  then show ?case by (auto simp: strstr_loop.simps)
next
  case (Suc n)
  then have i: "i \<le> bound" by simp
  have "block m (p + i) (length ys) = take (length ys) (drop i xs)" "block m q (length ys) = ys"
    using cstr_block [OF assms(1), of i "length ys"] assms(2,4) i Suc.prems by (auto simp: cstr_def)
  moreover have "prefix ys (drop i xs) \<longleftrightarrow> take (length ys) (drop i xs) = ys"
    by (auto simp: prefix_def) (metis append_take_drop_id)
  ultimately have c: "\<exists>c. memcmp m (p + i) q (length ys) = Some c \<and> (c = 0 \<longleftrightarrow> prefix ys (drop i xs))"
    using assms(1,2) by (simp add: memcmp_def memcmp_loop_eq cstr_def)
  show ?case
  proof (cases "prefix ys (drop i xs)")
    case True
    then show ?thesis
      using c i by (subst strstr_loop.simps) auto
  next
    case False
    have "strstr_loop m p q bound (length ys) i = strstr_loop m p q bound (length ys) (Suc i)"
      using c False i by (subst strstr_loop.simps) auto
    then show ?thesis
      unfolding all_between_Suc [of "\<lambda>j. \<not> prefix ys (drop j xs)", OF False]
      using Suc.hyps(1) [of "Suc i"] Suc.hyps(2) Suc.prems by simp
  qed
qed

lemma strstr_ok:
  assumes "cstr m p xs" "cstr m q ys"
  shows "\<exists>r. strstr m p q = Some r \<and>
    (r = 0 \<and> (\<forall>j. \<not> prefix ys (drop j xs)) \<or>
     (\<exists>j. r = p + j \<and> prefix ys (drop j xs) \<and> (\<forall>k<j. \<not> prefix ys (drop k xs))))"
proof (cases "length ys \<le> length xs")
  case True
  have "\<not> prefix ys (drop j xs)" if "\<forall>j. j < Suc (length xs - length ys) \<longrightarrow> \<not> prefix ys (drop j xs)" for j
  proof
    assume pre: "prefix ys (drop j xs)"
    moreover have "j < Suc (length xs - length ys) \<or> ys = []"
      using prefix_length_le [OF pre] by (cases ys) auto
    ultimately show False
      using that by (metis Nil_prefix zero_less_Suc)
  qed
  then show ?thesis
    using strstr_loop_ok [OF assms refl True, of 0] True assms
    by (fastforce simp: strstr_def strlen_ok)
next
  case False
  then have "\<not> prefix ys (drop j xs)" for j
    using prefix_length_le [of ys "drop j xs"] by auto
  with False assms show ?thesis
    by (simp add: strstr_def strlen_ok)
qed

lemma strtok_skip_ok:
  assumes "cstr m q ds"
  shows "cstr m p xs \<Longrightarrow> strtok_skip m q p =
    Some (dropWhile (\<lambda>x. x \<in> set ds) xs \<noteq> [], p + length (takeWhile (\<lambda>x. x \<in> set ds) xs))"
proof (induction xs arbitrary: p)
  case Nil
  obtain r where "strchr m q 0 = Some r" "r \<noteq> 0"
    using strchr_member [OF assms, of 0] by blast
  with Nil show ?case
    by (simp add: strtok_skip.simps [of m q p] cstr_Nil)
next
  case (Cons x xs)
  obtain r where "strchr m q x = Some r" "r \<noteq> 0 \<longleftrightarrow> x \<in> set ds \<or> x = 0"
    using strchr_member [OF assms] by blast
  with Cons show ?case
    by (auto simp: strtok_skip.simps [of m q p] cstr_Cons)
qed

lemma strtok_scan_ok:
  assumes "cstr m q ds"
  shows "cstr m p xs \<Longrightarrow> strtok_scan m q p = Some (p + length (takeWhile (\<lambda>x. x \<notin> set ds) xs))"
proof (induction xs arbitrary: p)
  case Nil
  obtain r where "strchr m q 0 = Some r" "r \<noteq> 0"
    using strchr_member [OF assms, of 0] by blast
  with Nil show ?case
    by (simp add: strtok_scan.simps [of m q p] cstr_Nil)
next
  case (Cons x xs)
  obtain r where "strchr m q x = Some r" "r \<noteq> 0 \<longleftrightarrow> x \<in> set ds \<or> x = 0"
    using strchr_member [OF assms] by blast
  with Cons show ?case
    by (auto simp: strtok_scan.simps [of m q p] cstr_Cons)
qed

text \<open>Cutting a string at a position leaves the two halves as strings.\<close>

lemma cstr_cut:
  assumes "cstr m p (us @ d # vs)"
  shows "cstr (m(p + length us := 0)) p us" "cstr (m(p + length us := 0)) (p + length us + 1) vs"
proof -
  have tl: "cstr m (p + length us + 1) vs"
    using cstr_append [of m p "us @ [d]" vs] assms by simp
  have "m (p + i) = us ! i" if "i < length us" for i
    using cstr_nth [OF assms, of i] that by (simp add: nth_append)
  then have "block m p (length us) = us"
    by (intro nth_equalityI) auto
  moreover have "block (m(p + length us := 0)) p (length us) = block m p (length us)"
    by (rule block_cong) simp
  ultimately show "cstr (m(p + length us := 0)) p us"
    using assms by (simp add: cstr_def)
  show "cstr (m(p + length us := 0)) (p + length us + 1) vs"
    by (rule cstr_agree [OF tl]) simp
qed

lemma strtok_r_ok:
  assumes "cstr m p xs" "cstr m q ds" "s = p \<or> s = 0 \<and> save = p"
  defines "ys \<equiv> dropWhile (\<lambda>x. x \<in> set ds) xs"
  shows "if ys = [] then strtok_r m s q save = Some (0, p + length xs, m)
    else \<exists>token save' m'. strtok_r m s q save = Some (token, save', m') \<and> token \<noteq> 0 \<and>
      cstr m' token (takeWhile (\<lambda>x. x \<notin> set ds) ys) \<and>
      cstr m' save' (drop 1 (dropWhile (\<lambda>x. x \<notin> set ds) ys)) \<and>
      agree_outside p (length xs) m m'"
proof -
  define k where "k = length (takeWhile (\<lambda>x. x \<in> set ds) xs)"
  define us where "us = takeWhile (\<lambda>x. x \<notin> set ds) ys"
  define vs where "vs = dropWhile (\<lambda>x. x \<notin> set ds) ys"
  have xs: "xs = takeWhile (\<lambda>x. x \<in> set ds) xs @ ys" and ys: "ys = us @ vs"
    by (simp_all add: ys_def us_def vs_def)
  have pk: "cstr m (p + k) ys"
    unfolding k_def using assms(1) xs by (metis cstr_append)
  have nn: "p \<noteq> 0" "q \<noteq> 0"
    using assms(1,2) by (simp_all add: cstr_def)
  have skip: "strtok_skip m q p = Some (ys \<noteq> [], p + k)"
    using strtok_skip_ok [OF assms(2,1)] by (simp add: ys_def k_def)
  have scan: "strtok_scan m q (p + k) = Some (p + k + length us)"
    using strtok_scan_ok [OF assms(2) pk] by (simp add: us_def)
  have len: "length xs = k + length ys"
    by (subst xs) (simp add: k_def)
  have start: "(if s = 0 then save else s) = p"
    using assms(3) nn by auto
  show ?thesis
  proof (cases "ys = []")
    case True
    then show ?thesis
      using skip len nn start by (simp add: strtok_r_def)
  next
    case False
    show ?thesis
    proof (cases vs)
      case Nil
      then have "strtok_r m s q save = Some (p + k, p + k + length us, m)"
        using skip scan False nn start pk ys by (simp add: strtok_r_def cstr_def)
      moreover have "cstr m (p + k + length us) []"
        using cstr_append [of m "p + k" us "[]"] pk ys Nil by simp
      ultimately show ?thesis
        unfolding us_def [symmetric] vs_def [symmetric]
        using False nn pk ys Nil by (simp add: agree_outside_def)
    next
      case (Cons d ws)
      have "m (p + k + length us) = d" "d \<noteq> 0"
        using cstr_append [of m "p + k" us vs] pk ys Cons by (simp_all add: cstr_Cons)
      then have "strtok_r m s q save = Some (p + k, p + k + length us + 1, m(p + k + length us := 0))"
        using skip scan False nn start by (simp add: strtok_r_def)
      moreover have "agree_outside p (length xs) m (m(p + k + length us := 0))"
        using len ys Cons by (simp add: agree_outside_def)
      ultimately show ?thesis
        unfolding us_def [symmetric] vs_def [symmetric]
        using cstr_cut [of m "p + k" us d ws] pk False nn ys Cons by simp
    qed
  qed
qed

lemma strlcpy_ok:
  assumes "cstr m src xs" "dst \<noteq> 0" "0 < sz" "dst + sz \<le> src \<or> src + length xs < dst"
  shows "\<exists>m'. strlcpy m dst src sz = Some (length xs, m') \<and> cstr m' dst (take (sz - 1) xs) \<and>
    agree_outside dst (min sz (length xs + 1)) m m'"
proof -
  define n where "n = (if length xs < sz - 1 then length xs else sz - 1)"
  define m' where "m' = (memcpy_loop m dst src n)(dst + n := 0)"
  have n: "n \<le> length xs" "n < sz"
    using assms(3) by (auto simp: n_def)
  have "strlcpy m dst src sz = Some (length xs, m')"
    using assms(2,3) strlen_ok [OF assms(1)] assms(1) [unfolded cstr_def]
    by (simp add: strlcpy_def memcpy_def m'_def n_def Let_def)
  moreover have "block m' dst n = take n xs"
  proof (rule nth_equalityI)
    fix i assume "i < length (block m' dst n)"
    then have "m' (dst + i) = m (src + i)"
      using memcpy_loop_block [of dst src n i m] assms(4) n by (auto simp: m'_def)
    with \<open>i < _\<close> show "block m' dst n ! i = take n xs ! i"
      using cstr_nth [OF assms(1), of i] n by simp
  qed (use n in simp)
  moreover have "take (sz - 1) xs = take n xs"
    by (auto simp: n_def)
  ultimately show ?thesis
    using assms(1,2) n memcpy_loop_frame [of _ dst n m src]
    by (auto simp: cstr_def m'_def agree_outside_def dest: in_set_takeD)
qed

lemma strlcat_ok:
  assumes "cstr m src xs" "cstr m dst ys" "length ys < sz" "dst + sz \<le> src \<or> src + length xs < dst"
  shows "\<exists>m'. strlcat m dst src sz = Some (length xs + length ys, m') \<and>
    cstr m' dst (ys @ take (sz - length ys - 1) xs) \<and> agree_outside dst sz m m'"
proof -
  let ?d = "dst + length ys"
  have "0 < sz - length ys" "?d \<noteq> 0" "?d + (sz - length ys) \<le> src \<or> src + length xs < ?d"
    using assms by (auto simp: cstr_def)
  from strlcpy_ok [OF assms(1) this(2,1,3)] obtain m' where
    m': "strlcpy m ?d src (sz - length ys) = Some (length xs, m')"
      "cstr m' ?d (take (sz - length ys - 1) xs)" "agree_outside ?d (min (sz - length ys) (length xs + 1)) m m'"
    by blast
  have "strlcat m dst src sz = Some (length xs + length ys, m')"
    using m'(1) assms strlen_ok [OF assms(1)] strlen_ok [OF assms(2)] assms(1) [unfolded cstr_def] assms(2) [unfolded cstr_def]
    by (auto simp: strlcat_def strlcpy_def memcpy_def Let_def split: if_splits)
  moreover have "block m' dst (length ys) = ys"
    using block_cong [of "length ys" m' dst m dst] m'(3) assms(2) by (auto simp: agree_outside_def cstr_def)
  then have "cstr m' dst (ys @ take (sz - length ys - 1) xs)"
    using m'(2) assms(2) block_add [of m' dst "length ys"] by (auto simp: cstr_def add.assoc)
  moreover have "agree_outside dst sz m m'"
    using m'(3) assms(3) by (auto simp: agree_outside_def)
  ultimately show ?thesis by blast
qed

section \<open>Properties\<close>

text \<open>
  C26: \<^verbatim>\<open>memmove\<close> copies the block correctly whether or not source and destination overlap, and writes
  nothing else. (It returns \<open>dst + size\<close> after an upward copy, not \<open>dst\<close> as documented.)
\<close>

theorem memmove_correct:
  assumes "dst \<noteq> 0" "src \<noteq> 0"
  shows "\<exists>r m'. memmove m dst src n = Some (r, m') \<and> block m' dst n = block m src n \<and>
    agree_outside dst n m m' \<and> r = (if dst < src then dst + n else dst)"
proof (cases "dst < src")
  case True
  let ?m = "memcpy_loop m dst src n"
  have "block ?m dst n = block m src n"
    using memcpy_loop_block [of dst src n] True by (intro block_cong) simp
  with True assms show ?thesis
    by (simp add: memmove_def memmove_up_eq memcpy_loop_frame agree_outside_def)
next
  case False
  then obtain m' where "memmove_down m (dst + n) (src + n) n = (dst, m')"
    "\<forall>i<n. m' (dst + i) = m (src + i)" "agree_outside dst n m m'"
    using memmove_down_spec [of src dst m n] by auto
  moreover from this(2) have "block m' dst n = block m src n"
    by (intro block_cong) simp
  ultimately show ?thesis
    using False assms by (simp add: memmove_def)
qed

definition sample_mem :: mem where
  "sample_mem = (\<lambda>_. 0)(100 := 32, 101 := 97, 102 := 98, 103 := 32, 104 := 99, 200 := 32)"

theorem memmove_correct_witness:
  "\<exists>r m'. memmove sample_mem 101 102 3 = Some (r, m') \<and> block m' 101 3 = [98, 32, 99] \<and> r \<noteq> 101"
  using memmove_correct [of 101 102 sample_mem 3]
  by (auto simp: sample_mem_def block_def upt_rec)

text \<open>
  \<^verbatim>\<open>strcmp\<close> and \<^verbatim>\<open>memcmp\<close> are the lexicographic comparison of the strings and of the blocks.
\<close>

theorem strcmp_memcmp_lexicographic:
  assumes "cstr m a xs" "cstr m b ys"
  shows "strcmp m a b = Some (if xs = ys then 0 else if ord_class.lexordp xs ys then - 1 else 1) \<and>
    memcmp m a b n = Some (if block m a n = block m b n then 0
      else if ord_class.lexordp (block m b n) (block m a n) then 1 else - 1)"
  using strcmp_ok [OF assms] assms by (simp add: memcmp_def memcmp_loop_eq cstr_def)

lemma sample_cstr: "cstr sample_mem 100 [32, 97, 98, 32, 99]" "cstr sample_mem 200 [32]"
  by (simp_all add: cstr_Cons cstr_Nil) (simp_all add: sample_mem_def)

theorem strcmp_memcmp_lexicographic_witness:
  "strcmp sample_mem 100 200 = Some 1 \<and> memcmp sample_mem 100 200 1 = Some 0"
  using strcmp_memcmp_lexicographic [OF sample_cstr, of 1] by (simp add: sample_mem_def block_def)

text \<open>
  \<^verbatim>\<open>strchr\<close>, \<^verbatim>\<open>strspn\<close>, \<^verbatim>\<open>strcspn\<close>, \<^verbatim>\<open>strpbrk\<close> and \<^verbatim>\<open>strlen\<close> return and find the first
  position, the longest prefix over a set and outside it, and the length.
\<close>

theorem string_searches_correct:
  assumes "cstr m p xs" "cstr m q ds"
  shows "strlen m p = Some (length xs) \<and>
    strchr m p c = Some (if c \<in> set xs \<or> c = 0 then p + length (takeWhile (\<lambda>x. x \<noteq> c) xs) else 0) \<and>
    strspn m p q = Some (length (takeWhile (\<lambda>x. x \<in> set ds) xs)) \<and>
    strcspn m p q = Some (length (takeWhile (\<lambda>x. x \<notin> set ds) xs)) \<and>
    strpbrk m p q = Some (if \<exists>x\<in>set xs. x \<in> set ds
      then p + length (takeWhile (\<lambda>x. x \<notin> set ds) xs) else 0)"
  using strlen_ok [OF assms(1)] strchr_ok [OF assms(1)] strspn_ok [OF assms(2,1)]
    strcspn_ok [OF assms(2,1)] strpbrk_ok [OF assms(2,1)] by blast

theorem string_searches_correct_witness:
  "strlen sample_mem 100 = Some 5 \<and> strchr sample_mem 100 98 = Some 102 \<and>
   strspn sample_mem 100 200 = Some 1 \<and> strpbrk sample_mem 100 200 = Some 100"
  using string_searches_correct [OF sample_cstr, of 98] by simp

text \<open>
  \<^verbatim>\<open>strstr\<close> returns the first occurrence of the needle, or null when there is none.
\<close>

theorem strstr_first_occurrence:
  assumes "cstr m p xs" "cstr m q ys"
  shows "\<exists>r. strstr m p q = Some r \<and>
    (r = 0 \<and> (\<forall>j. \<not> prefix ys (drop j xs)) \<or>
     (\<exists>j. r = p + j \<and> prefix ys (drop j xs) \<and> (\<forall>k<j. \<not> prefix ys (drop k xs))))"
  by (rule strstr_ok [OF assms])

theorem strstr_first_occurrence_witness:
  "\<exists>r. strstr sample_mem 100 200 = Some r \<and> r = 100"
  using strstr_first_occurrence [OF sample_cstr]
  by (auto dest: spec [of _ 0])

text \<open>
  C19: \<^verbatim>\<open>strtok_r\<close>, started on a string or resumed at the saved position, returns the next maximal run
  of non-delimiters as a null-terminated, non-empty string and saves a position at which the
  rest of the string begins; with no token left it returns null and changes nothing. It writes
  only inside the string.
\<close>

theorem strtok_r_next_token:
  assumes "cstr m p xs" "cstr m q ds" "s = p \<or> s = 0 \<and> save = p"
  defines "ys \<equiv> dropWhile (\<lambda>x. x \<in> set ds) xs"
  shows "if ys = [] then strtok_r m s q save = Some (0, p + length xs, m)
    else \<exists>token save' m'. strtok_r m s q save = Some (token, save', m') \<and> token \<noteq> 0 \<and>
      takeWhile (\<lambda>x. x \<notin> set ds) ys \<noteq> [] \<and>
      cstr m' token (takeWhile (\<lambda>x. x \<notin> set ds) ys) \<and>
      cstr m' save' (drop 1 (dropWhile (\<lambda>x. x \<notin> set ds) ys)) \<and>
      agree_outside p (length xs) m m'"
proof -
  have "takeWhile (\<lambda>x. x \<notin> set ds) ys \<noteq> []" if "ys \<noteq> []"
    using that hd_dropWhile [of "\<lambda>x. x \<in> set ds" xs] by (cases ys) (auto simp: ys_def)
  then show ?thesis
    using strtok_r_ok [OF assms(1-3)] unfolding ys_def by (auto split: if_splits)
qed

theorem strtok_r_next_token_witness:
  "\<exists>token save' m'. strtok_r sample_mem 100 200 0 = Some (token, save', m') \<and>
    cstr m' token [97, 98] \<and> cstr m' save' [99]"
  using strtok_r_next_token [OF sample_cstr, of 100 0] by auto



end
