(* ===== verification/Stdlib.thy ===== *)
theory Stdlib
  imports Kstring
begin

text \<open>
  \<^verbatim>\<open>lib/stdlib.c\<close>: \<^verbatim>\<open>atoi\<close>, the in-place heap sort behind \<^verbatim>\<open>sort\<close> and \<^verbatim>\<open>qsort\<close>, and
  \<^verbatim>\<open>binary_search\<close> behind \<^verbatim>\<open>bsearch\<close>, on the byte memory of \<^verbatim>\<open>Kstring\<close>. An array of \<open>cnt\<close> elements
  of \<open>sz\<close> bytes is a range of addresses; a comparison function reads the bytes of two elements.
  Sorting is shown to return a sorted permutation of the elements, searching to find a match
  exactly when there is one.
\<close>

section \<open>Definitions\<close>

type_synonym compare_func = "u8 list \<Rightarrow> u8 list \<Rightarrow> int"

partial_function (option) atoi_space :: "mem \<Rightarrow> addr \<Rightarrow> addr option" where
  "atoi_space m s = (if isspace (m s) then atoi_space m (s + 1) else Some s)"

partial_function (option) atoi_digits :: "mem \<Rightarrow> addr \<Rightarrow> u32 \<Rightarrow> u32 option" where
  "atoi_digits m s v =
     (if isdigit (m s) then atoi_digits m (s + 1) (v * 10 - (ucast (m s) - 48)) else Some v)"

definition atoi :: "mem \<Rightarrow> addr \<Rightarrow> u32 option" where
  "atoi m s = do {
     ASSERT (s \<noteq> NULL);
     s \<leftarrow> atoi_space m s;
     let negative = (m s = 45);
     let s = (if m s = 43 then s + 1 else if m s = 45 then s + 1 else s);
     v \<leftarrow> atoi_digits m s 0;
     Some (if \<not> negative then - v else v) }"

fun do_swap_loop :: "mem \<Rightarrow> addr \<Rightarrow> addr \<Rightarrow> nat \<Rightarrow> mem" where
  "do_swap_loop m a b 0 = m"
| "do_swap_loop m a b (Suc n) = do_swap_loop (m(a := m b, b := m a)) (a + 1) (b + 1) n"

definition do_swap :: "mem \<Rightarrow> addr \<Rightarrow> nat \<Rightarrow> nat \<Rightarrow> nat \<Rightarrow> mem" where
  "do_swap m array a_idx b_idx sz =
     do_swap_loop m (array + (a_idx - 1) * sz) (array + (b_idx - 1) * sz) sz"

definition do_compare :: "mem \<Rightarrow> addr \<Rightarrow> nat \<Rightarrow> nat \<Rightarrow> nat \<Rightarrow> compare_func \<Rightarrow> int" where
  "do_compare m array a_idx b_idx sz compare =
     compare (block m (array + (a_idx - 1) * sz) sz) (block m (array + (b_idx - 1) * sz) sz)"

partial_function (option) heapify :: "mem \<Rightarrow> addr \<Rightarrow> nat \<Rightarrow> nat \<Rightarrow> nat \<Rightarrow> compare_func \<Rightarrow> mem option" where
  "heapify m array i cnt sz compare =
     (let left = 2 * i mod SIZE_MOD;
          right = (2 * i + 1) mod SIZE_MOD;
          mx = i;
          mx = (if left \<le> cnt \<and> do_compare m array left mx sz compare > 0 then left else mx);
          mx = (if right \<le> cnt \<and> do_compare m array right mx sz compare > 0 then right else mx)
      in if mx = i then Some m
         else heapify (do_swap m array i mx sz) array mx cnt sz compare)"

fun sort_build :: "mem \<Rightarrow> addr \<Rightarrow> nat \<Rightarrow> nat \<Rightarrow> nat \<Rightarrow> compare_func \<Rightarrow> mem option" where
  "sort_build m array 0 cnt sz compare = Some m"
| "sort_build m array (Suc i) cnt sz compare = do {
     m \<leftarrow> heapify m array (Suc i) cnt sz compare;
     sort_build m array i cnt sz compare }"

fun sort_extract :: "mem \<Rightarrow> addr \<Rightarrow> nat \<Rightarrow> nat \<Rightarrow> compare_func \<Rightarrow> mem option" where
  "sort_extract m array i sz compare =
     (if i > 1 then do {
        m \<leftarrow> heapify (do_swap m array 1 i sz) array 1 (i - 1) sz compare;
        sort_extract m array (i - 1) sz compare }
      else Some m)"

declare sort_extract.simps [simp del]

definition sort_array :: "mem \<Rightarrow> addr \<Rightarrow> nat \<Rightarrow> nat \<Rightarrow> compare_func \<Rightarrow> mem option" where
  "sort_array m array cnt sz compare = do {
     ASSERT (array \<noteq> NULL \<or> cnt = 0);
     ASSERT (sz > 0);
     m \<leftarrow> sort_build m array (cnt div 2) cnt sz compare;
     sort_extract m array cnt sz compare }"

text \<open>\<^verbatim>\<open>compare_thunk\<close> passes the two elements on to the function behind the auxiliary pointer.\<close>

definition compare_thunk :: "u8 list \<Rightarrow> u8 list \<Rightarrow> compare_func \<Rightarrow> int" where
  "compare_thunk a b compare = compare a b"

definition qsort :: "mem \<Rightarrow> addr \<Rightarrow> nat \<Rightarrow> nat \<Rightarrow> compare_func \<Rightarrow> mem option" where
  "qsort m array cnt sz compare = sort_array m array cnt sz (\<lambda>a b. compare_thunk a b compare)"

text \<open>A zero element size makes the division of \<^verbatim>\<open>binary_search\<close> trap.\<close>

partial_function (option) binary_search_loop ::
    "mem \<Rightarrow> u8 list \<Rightarrow> addr \<Rightarrow> addr \<Rightarrow> nat \<Rightarrow> compare_func \<Rightarrow> addr option" where
  "binary_search_loop m key first lst sz compare =
     (if first < lst then
        if sz = 0 then None
        else
          (let range = (lst - first) div sz;
               middle = first + range div 2 * sz;
               cmp = compare key (block m middle sz)
           in if cmp < 0 then binary_search_loop m key first middle sz compare
              else if cmp > 0 then binary_search_loop m key (middle + sz) lst sz compare
              else Some middle)
      else Some NULL)"

definition binary_search :: "mem \<Rightarrow> u8 list \<Rightarrow> addr \<Rightarrow> nat \<Rightarrow> nat \<Rightarrow> compare_func \<Rightarrow> addr option" where
  "binary_search m key array cnt sz compare =
     binary_search_loop m key array (array + sz * cnt) sz compare"

definition bsearch :: "mem \<Rightarrow> u8 list \<Rightarrow> addr \<Rightarrow> nat \<Rightarrow> nat \<Rightarrow> compare_func \<Rightarrow> addr option" where
  "bsearch m key array cnt sz compare =
     binary_search m key array cnt sz (\<lambda>a b. compare_thunk a b compare)"

section \<open>Comparison functions\<close>

text \<open>What \<^verbatim>\<open>sort\<close> and \<^verbatim>\<open>binary_search\<close> ask of a \<^verbatim>\<open>strcmp\<close>-type result.\<close>

locale comparison =
  fixes compare :: "'a \<Rightarrow> 'a \<Rightarrow> int"
  assumes pos_iff: "compare a b > 0 \<longleftrightarrow> compare b a < 0"
    and less_trans: "compare a b \<ge> 0 \<Longrightarrow> compare b c \<ge> 0 \<Longrightarrow> compare a c \<ge> 0"

sublocale comparison \<subseteq> strict_weak_order "\<lambda>a b. compare a b < 0"
proof unfold_locales
  show "\<not> compare y x < 0" if "compare x y < 0" for x y
    using that pos_iff [of y x] by linarith
  show "\<not> compare x z < 0" if "\<not> compare x y < 0" "\<not> compare y z < 0" for x y z
    using less_trans [of x y z] that by linarith
qed

text \<open>Comparing two blocks of equal length with \<^verbatim>\<open>memcmp\<close>.\<close>

definition bytes_compare :: "u8 list \<Rightarrow> u8 list \<Rightarrow> int" where
  "bytes_compare xs ys = (if xs = ys then 0 else if ord_class.lexordp ys xs then 1 else - 1)"

lemma memcmp_bytes_compare: "memcmp_loop m a b n = bytes_compare (block m a n) (block m b n)"
  by (simp add: memcmp_loop_eq bytes_compare_def)

interpretation byte_order: comparison bytes_compare
proof unfold_locales
  fix a b c :: "u8 list"
  show "0 < bytes_compare a b \<longleftrightarrow> bytes_compare b a < 0"
    using lexordp_linear [of a b] lexordp_antisym [of a b] by (auto simp: bytes_compare_def)
  show "0 \<le> bytes_compare a c" if "0 \<le> bytes_compare a b" "0 \<le> bytes_compare b c"
    using that lexordp_linear [of a b] lexordp_trans [of c b a] by (auto simp: bytes_compare_def split: if_splits)
qed

section \<open>Swapping elements\<close>

definition elems :: "mem \<Rightarrow> addr \<Rightarrow> nat \<Rightarrow> nat \<Rightarrow> u8 list list" where
  "elems m array cnt sz = map (\<lambda>k. block m (array + k * sz) sz) [0..<cnt]"

lemma length_elems [simp]: "length (elems m array cnt sz) = cnt"
  by (simp add: elems_def)

lemma nth_elems: "k < cnt \<Longrightarrow> elems m array cnt sz ! k = block m (array + k * sz) sz"
  by (simp add: elems_def)

lemma do_compare_elems:
  "0 < a \<Longrightarrow> a \<le> cnt \<Longrightarrow> 0 < b \<Longrightarrow> b \<le> cnt \<Longrightarrow>
   do_compare m array a b sz compare = compare (elems m array cnt sz ! (a - 1)) (elems m array cnt sz ! (b - 1))"
  by (simp add: do_compare_def nth_elems)

lemma do_swap_loop_frame:
  "x < a \<or> a + n \<le> x \<Longrightarrow> x < b \<or> b + n \<le> x \<Longrightarrow> do_swap_loop m a b n x = m x"
proof (induction n arbitrary: m a b)
  case (Suc n)
  then have "x \<noteq> a" "x \<noteq> b" "x < Suc a \<or> Suc a + n \<le> x" "x < Suc b \<or> Suc b + n \<le> x"
    by auto
  then show ?case
    using Suc.IH [of "Suc a" "Suc b"] by simp
qed simp

lemma do_swap_loop_at:
  "a + n \<le> b \<or> b + n \<le> a \<Longrightarrow> i < n \<Longrightarrow>
   do_swap_loop m a b n (a + i) = m (b + i) \<and> do_swap_loop m a b n (b + i) = m (a + i)"
proof (induction n arbitrary: m a b i)
  case (Suc n)
  let ?m = "m(a := m b, b := m a)"
  have ab: "a \<noteq> b"
    using Suc.prems(1) by auto
  show ?case
  proof (cases i)
    case 0
    have "do_swap_loop ?m (Suc a) (Suc b) n a = ?m a" "do_swap_loop ?m (Suc a) (Suc b) n b = ?m b"
      by (rule do_swap_loop_frame; use Suc.prems in auto)+
    with 0 ab show ?thesis by simp
  next
    case (Suc j)
    have "Suc a + n \<le> Suc b \<or> Suc b + n \<le> Suc a" "j < n" "Suc b + j \<noteq> a" "Suc b + j \<noteq> b" "Suc a + j \<noteq> a" "Suc a + j \<noteq> b"
      using Suc.prems Suc by auto
    moreover from this have "?m (Suc b + j) = m (b + i)" "?m (Suc a + j) = m (a + i)"
      using Suc by simp_all
    moreover have "do_swap_loop m a b (Suc n) = do_swap_loop ?m (Suc a) (Suc b) n"
      by simp
    ultimately show ?thesis
      using Suc.IH [of "Suc a" "Suc b" j ?m] Suc by (metis add_Suc add_Suc_right)
  qed
qed simp

lemma slot_iff:
  fixes sz :: nat
  assumes "i < sz"
  shows "a * sz \<le> k * sz + i \<and> k * sz + i < a * sz + sz \<longleftrightarrow> k = a"
proof
  assume *: "a * sz \<le> k * sz + i \<and> k * sz + i < a * sz + sz"
  have "(k * sz + i) div sz = k"
    using assms by simp
  moreover have "(k * sz + i) div sz = a"
    using * by (intro div_nat_eqI) (auto simp: mult.commute)
  ultimately show "k = a" by simp
qed (use assms in auto)

lemma slots_apart: "a \<noteq> b \<Longrightarrow> a * sz + sz \<le> b * sz \<or> b * sz + sz \<le> (a * sz :: nat)"
  by (metis add.commute linorder_neqE_nat mult_Suc mult_le_mono1 Suc_leI)

lemma do_swap_elems:
  fixes m :: mem and array sz :: nat
  assumes "0 < a" "a \<le> cnt" "0 < b" "b \<le> cnt" "a \<noteq> b"
  defines "xs \<equiv> elems m array cnt sz"
  shows "elems (do_swap m array a b sz) array cnt sz = xs[a - 1 := xs ! (b - 1), b - 1 := xs ! (a - 1)]"
    and "agree_outside array (cnt * sz) m (do_swap m array a b sz)"
proof -
  let ?m = "do_swap m array a b sz"
  have apart: "array + (a - 1) * sz + sz \<le> array + (b - 1) * sz \<or> array + (b - 1) * sz + sz \<le> array + (a - 1) * sz"
    using slots_apart [of "a - 1" "b - 1" sz] assms(1,3,5) by auto
  have "block ?m (array + k * sz) sz = xs[a - 1 := xs ! (b - 1), b - 1 := xs ! (a - 1)] ! k" if "k < cnt" for k
  proof (cases "k = a - 1 \<or> k = b - 1")
    case True
    have "block ?m (array + (a - 1) * sz) sz = block m (array + (b - 1) * sz) sz"
      "block ?m (array + (b - 1) * sz) sz = block m (array + (a - 1) * sz) sz"
      using do_swap_loop_at [OF apart] by (auto simp: do_swap_def intro!: block_cong)
    with True assms(1-5) show ?thesis
      by (auto simp: xs_def nth_elems nth_list_update)
  next
    case False
    have "block ?m (array + k * sz) sz = block m (array + k * sz) sz"
    proof (rule block_cong)
      fix i assume "i < sz"
      from slot_iff [OF this, of "a - 1" k] slot_iff [OF this, of "b - 1" k] False
      show "?m (array + k * sz + i) = m (array + k * sz + i)"
        unfolding do_swap_def by (intro do_swap_loop_frame) auto
    qed
    with False that show ?thesis
      by (simp add: xs_def nth_elems)
  qed
  then show "elems ?m array cnt sz = xs[a - 1 := xs ! (b - 1), b - 1 := xs ! (a - 1)]"
    by (intro nth_equalityI) (simp_all add: nth_elems xs_def)
  have "(a - 1) * sz + sz \<le> cnt * sz" "(b - 1) * sz + sz \<le> cnt * sz"
    using mult_le_mono1 [OF assms(2), of sz] mult_le_mono1 [OF assms(4), of sz] assms(1,3)
    by (cases a; cases b; simp)+
  then show "agree_outside array (cnt * sz) m ?m"
    unfolding agree_outside_def do_swap_def by (intro allI impI do_swap_loop_frame) auto
qed

section \<open>Heaps\<close>

text \<open>
  Indices count from one, as in the source: the parent of \<open>k\<close> is \<open>k div 2\<close>. \<open>heap_from lo cnt xs\<close>: no
  element with a parent at or after \<open>lo\<close> is greater than that parent. \<open>sift_inv\<close> is the loop
  invariant of \<^verbatim>\<open>heapify\<close>: it may fail only at \<open>i\<close>, whose children are still in order with its parent.
\<close>

definition at :: "'a list \<Rightarrow> nat \<Rightarrow> 'a" where
  "at xs k = xs ! (k - 1)"

definition heap_from :: "('a \<Rightarrow> 'a \<Rightarrow> int) \<Rightarrow> nat \<Rightarrow> nat \<Rightarrow> 'a list \<Rightarrow> bool" where
  "heap_from compare lo cnt xs \<longleftrightarrow>
     (\<forall>k. 2 \<le> k \<and> k \<le> cnt \<and> lo \<le> k div 2 \<longrightarrow> \<not> compare (at xs k) (at xs (k div 2)) > 0)"

definition sift_inv :: "('a \<Rightarrow> 'a \<Rightarrow> int) \<Rightarrow> nat \<Rightarrow> nat \<Rightarrow> nat \<Rightarrow> 'a list \<Rightarrow> bool" where
  "sift_inv compare lo i cnt xs \<longleftrightarrow>
     (\<forall>k. 2 \<le> k \<and> k \<le> cnt \<and> lo \<le> k div 2 \<and> k div 2 \<noteq> i \<longrightarrow> \<not> compare (at xs k) (at xs (k div 2)) > 0) \<and>
     (\<forall>k. 2 \<le> k \<and> k \<le> cnt \<and> k div 2 = i \<and> lo \<le> i div 2 \<longrightarrow> \<not> compare (at xs k) (at xs (i div 2)) > 0)"

definition swap_at :: "'a list \<Rightarrow> nat \<Rightarrow> nat \<Rightarrow> 'a list" where
  "swap_at xs a b = xs[a - 1 := at xs b, b - 1 := at xs a]"

lemma at_swap_at:
  "0 < a \<Longrightarrow> a \<le> length xs \<Longrightarrow> 0 < b \<Longrightarrow> b \<le> length xs \<Longrightarrow> 0 < k \<Longrightarrow> k \<le> length xs \<Longrightarrow>
   at (swap_at xs a b) k = (if k = a then at xs b else if k = b then at xs a else at xs k)"
  by (auto simp: at_def swap_at_def nth_list_update)

lemma swap_at_prefix:
  assumes "0 < a" "a \<le> cnt" "0 < b" "b \<le> cnt" "cnt \<le> length xs"
  shows "mset (take cnt (swap_at xs a b)) = mset (take cnt xs)" "drop cnt (swap_at xs a b) = drop cnt xs"
proof -
  have "take cnt (swap_at xs a b) = (take cnt xs)[a - 1 := take cnt xs ! (b - 1), b - 1 := take cnt xs ! (a - 1)]"
    using assms by (simp add: swap_at_def at_def take_update_swap)
  then show "mset (take cnt (swap_at xs a b)) = mset (take cnt xs)"
    using assms by (simp only:) (rule mset_swap; simp)
  show "drop cnt (swap_at xs a b) = drop cnt xs"
    using assms by (simp add: swap_at_def)
qed

text \<open>The index \<^verbatim>\<open>heapify\<close> computes as \<open>max\<close>.\<close>

definition pick :: "('a \<Rightarrow> 'a \<Rightarrow> int) \<Rightarrow> 'a list \<Rightarrow> nat \<Rightarrow> nat \<Rightarrow> nat" where
  "pick compare xs i cnt =
     (let mx = (if 2 * i \<le> cnt \<and> compare (at xs (2 * i)) (at xs i) > 0 then 2 * i else i)
      in if 2 * i + 1 \<le> cnt \<and> compare (at xs (2 * i + 1)) (at xs mx) > 0 then 2 * i + 1 else mx)"

lemma child_cases: "k div 2 = i \<Longrightarrow> k = 2 * i \<or> k = 2 * i + (1::nat)"
  by (metis div_mult_mod_eq mult.commute not_mod_2_eq_1_eq_0 add_0_right)

context comparison
begin

lemma pick_max:
  defines "mx xs i cnt \<equiv> pick compare xs i cnt"
  shows "mx xs i cnt \<noteq> i \<Longrightarrow> mx xs i cnt \<le> cnt \<and> mx xs i cnt div 2 = i \<and> compare (at xs i) (at xs (mx xs i cnt)) < 0"
    and "k div 2 = i \<Longrightarrow> k \<le> cnt \<Longrightarrow> \<not> compare (at xs k) (at xs (mx xs i cnt)) > 0"
proof -
  have irr: "\<not> compare a a > 0" for a
    using pos_iff [of a a] by linarith
  show "mx xs i cnt \<noteq> i \<Longrightarrow> mx xs i cnt \<le> cnt \<and> mx xs i cnt div 2 = i \<and> compare (at xs i) (at xs (mx xs i cnt)) < 0"
    using lt_trans [of "at xs i" "at xs (2 * i)" "at xs (2 * i + 1)"]
    by (cases "2 * i \<le> cnt \<and> compare (at xs (2 * i)) (at xs i) > 0")
      (simp_all add: mx_def pick_def Let_def pos_iff split: if_splits)
  show "\<not> compare (at xs k) (at xs (mx xs i cnt)) > 0" if "k div 2 = i" "k \<le> cnt"
    using child_cases [OF that(1)] that(2) irr
      asym [of "at xs (2 * i)" "at xs (2 * i + 1)"] le_lt_trans [of "at xs i" "at xs (2 * i)" "at xs (2 * i + 1)"]
    by (cases "2 * i \<le> cnt \<and> compare (at xs (2 * i)) (at xs i) > 0"; elim disjE)
      (simp_all add: mx_def pick_def Let_def pos_iff)
qed

lemma sift_done:
  assumes "sift_inv compare lo i cnt xs" "pick compare xs i cnt = i"
  shows "heap_from compare lo cnt xs"
  using assms pick_max(2) [of _ i cnt xs] unfolding sift_inv_def heap_from_def by metis

lemma sift_step:
  assumes inv: "sift_inv compare lo i cnt xs" and mx: "pick compare xs i cnt = mx" "mx \<noteq> i"
    and i: "0 < lo" "lo \<le> i" "cnt \<le> length xs"
  shows "sift_inv compare lo mx cnt (swap_at xs i mx)"
proof -
  have mx': "mx \<le> cnt" "mx div 2 = i" "compare (at xs i) (at xs mx) < 0"
    using pick_max(1) [of xs i cnt] mx by auto
  have pos: "0 < i" "i < mx" "i \<le> length xs" "mx \<le> length xs"
    using i mx' by auto
  have sw: "at (swap_at xs i mx) k = (if k = i then at xs mx else if k = mx then at xs i else at xs k)"
    if "0 < k" "k \<le> cnt" for k
    using at_swap_at [of i xs mx k] pos that i by auto
  have fst: "\<not> compare (at (swap_at xs i mx) k) (at (swap_at xs i mx) (k div 2)) > 0"
    if k: "2 \<le> k" "k \<le> cnt" "lo \<le> k div 2" "k div 2 \<noteq> mx" for k
  proof -
    have lt: "0 < k div 2" "k div 2 \<le> cnt" "k div 2 < k"
      using k by auto
    consider "k div 2 = i" "k = mx" | "k div 2 = i" "k \<noteq> mx" | "k div 2 \<noteq> i" "k = i" | "k div 2 \<noteq> i" "k \<noteq> i" "k \<noteq> mx"
      using mx'(2) by blast
    then show ?thesis
    proof cases
      case 1
      then show ?thesis
        using sw [of k] sw [of i] k lt mx'(3) asym pos_iff by (auto simp: pos)
    next
      case 2
      then show ?thesis
        using sw [of k] sw [of i] k lt pick_max(2) [of k i cnt xs] mx by (auto simp: pos)
    next
      case 3
      have "\<not> compare (at xs mx) (at xs (i div 2)) > 0"
        using inv mx' pos k 3 unfolding sift_inv_def by (metis Suc_1 Suc_leI less_trans_Suc le_trans nat_less_le not_less_eq_eq)
      then show ?thesis
        using sw [of k] sw [of "k div 2"] k lt 3 by auto
    next
      case 4
      then have "\<not> compare (at xs k) (at xs (k div 2)) > 0"
        using inv k unfolding sift_inv_def by blast
      then show ?thesis
        using sw [of k] sw [of "k div 2"] k lt 4 by auto
    qed
  qed
  moreover have "\<not> compare (at (swap_at xs i mx) k) (at (swap_at xs i mx) (mx div 2)) > 0"
    if k: "2 \<le> k" "k \<le> cnt" "k div 2 = mx" "lo \<le> mx div 2" for k
  proof -
    have "\<not> compare (at xs k) (at xs mx) > 0"
      using inv k mx(2) i mx'(2) unfolding sift_inv_def by (metis div_le_dividend le_trans)
    then show ?thesis
      using sw [of k] sw [of i] k pos mx' by auto
  qed
  ultimately show ?thesis
    unfolding sift_inv_def by blast
qed

end

section \<open>Heap sort\<close>

lemma heapify_pick:
  fixes m :: mem and array sz :: nat and compare :: compare_func
  assumes "0 < i" "i \<le> cnt" "cnt \<le> n" "2 * cnt + 1 < SIZE_MOD"
  defines "mx \<equiv> pick compare (elems m array n sz) i cnt"
  shows "heapify m array i cnt sz compare =
    (if mx = i then Some m else heapify (do_swap m array i mx sz) array mx cnt sz compare)"
proof -
  have "2 * i mod SIZE_MOD = 2 * i" "(2 * i + 1) mod SIZE_MOD = 2 * i + 1"
    using assms(2,4) by auto
  moreover have "do_compare m array k j sz compare = compare (at (elems m array n sz) k) (at (elems m array n sz) j)"
    if "0 < k" "k \<le> cnt" "0 < j" "j \<le> cnt" for k j
    using do_compare_elems [of k n j m array sz compare] that assms(3) by (simp add: at_def)
  ultimately show ?thesis
    using assms(1,2) by (subst heapify.simps) (simp add: mx_def pick_def Let_def cong: if_cong conj_cong)
qed

context comparison
begin

lemma sift_inv_start: "heap_from compare (Suc i) cnt xs \<Longrightarrow> 0 < i \<Longrightarrow> sift_inv compare i i cnt xs"
  by (auto simp: heap_from_def sift_inv_def)

lemma heap_root:
  assumes "heap_from compare 1 cnt xs" "0 < k" "k \<le> cnt"
  shows "\<not> compare (at xs k) (at xs 1) > 0"
  using assms(2,3)
proof (induction k rule: less_induct)
  case (less k)
  show ?case
  proof (cases "k = 1")
    case True
    then show ?thesis
      using pos_iff [of "at xs 1" "at xs 1"] by auto
  next
    case False
    then have "\<not> compare (at xs k) (at xs (k div 2)) > 0"
      using assms(1) less.prems unfolding heap_from_def by (simp add: Suc_leI)
    moreover have "\<not> compare (at xs (k div 2)) (at xs 1) > 0"
      using less.IH [of "k div 2"] less.prems False by simp
    ultimately show ?thesis
      unfolding pos_iff using negtrans by blast
  qed
qed

end

lemma heapify_ok:
  assumes "comparison compare" "sift_inv compare lo i cnt (elems m array n sz)" "0 < lo" "lo \<le> i"
    "i \<le> cnt" "cnt \<le> n" "2 * cnt + 1 < SIZE_MOD"
  shows "\<exists>m'. heapify m array i cnt sz compare = Some m' \<and>
    heap_from compare lo cnt (elems m' array n sz) \<and>
    mset (take cnt (elems m' array n sz)) = mset (take cnt (elems m array n sz)) \<and>
    drop cnt (elems m' array n sz) = drop cnt (elems m array n sz) \<and> agree_outside array (n * sz) m m'"
  using assms(2,4,5)
proof (induction "cnt - i" arbitrary: m i rule: less_induct)
  case less
  define xs where "xs = elems m array n sz"
  define mx where "mx = pick compare xs i cnt"
  have i: "0 < i"
    using assms(3) less.prems by simp
  note step = heapify_pick [OF i less.prems(3) assms(6,7), where m = m and array = array and sz = sz and compare = compare, folded xs_def, folded mx_def]
  show ?case
  proof (cases "mx = i")
    case True
    with step show ?thesis
      using comparison.sift_done [OF assms(1) less.prems(1)] by (simp add: mx_def xs_def agree_outside_def)
  next
    case False
    let ?m = "do_swap m array i mx sz"
    have mx: "mx \<le> cnt" "mx div 2 = i"
      using comparison.pick_max(1) [OF assms(1), of xs i cnt] False by (simp_all add: mx_def)
    then have "i < mx"
      using i by linarith
    have sw: "elems ?m array n sz = swap_at xs i mx" "agree_outside array (n * sz) m ?m"
      using do_swap_elems [of i n mx, where m = m and array = array and sz = sz] i mx less.prems(3) assms(6) \<open>i < mx\<close>
      by (simp_all add: xs_def swap_at_def at_def)
    have "sift_inv compare lo mx cnt (elems ?m array n sz)"
      unfolding sw using comparison.sift_step [OF assms(1) less.prems(1), of mx] False assms(3,6) less.prems
      by (simp add: mx_def xs_def)
    moreover have "cnt - mx < cnt - i" "lo \<le> mx"
      using \<open>i < mx\<close> mx less.prems by auto
    ultimately obtain m' where "heapify ?m array mx cnt sz compare = Some m'"
      "heap_from compare lo cnt (elems m' array n sz)"
      "mset (take cnt (elems m' array n sz)) = mset (take cnt (swap_at xs i mx))"
      "drop cnt (elems m' array n sz) = drop cnt (swap_at xs i mx)" "agree_outside array (n * sz) ?m m'"
      using less.hyps [of mx ?m] mx(1) unfolding sw by blast
    then show ?thesis
      using step False sw(2) swap_at_prefix [of i cnt mx xs] i mx(1) \<open>i < mx\<close> less.prems(3) assms(6)
      by (simp add: xs_def agree_outside_def)
  qed
qed

lemma sort_build_ok:
  assumes "comparison compare" "2 * cnt + 1 < SIZE_MOD" "heap_from compare (Suc i) cnt (elems m array cnt sz)"
    "i \<le> cnt"
  shows "\<exists>m'. sort_build m array i cnt sz compare = Some m' \<and> heap_from compare 1 cnt (elems m' array cnt sz) \<and>
    mset (elems m' array cnt sz) = mset (elems m array cnt sz) \<and> agree_outside array (cnt * sz) m m'"
  using assms(3,4)
proof (induction i arbitrary: m)
  case 0
  then show ?case by (simp add: agree_outside_def)
next
  case (Suc i)
  have "sift_inv compare (Suc i) (Suc i) cnt (elems m array cnt sz)"
    using comparison.sift_inv_start [OF assms(1) Suc.prems(1)] by simp
  from heapify_ok [OF assms(1) this] Suc.prems assms(2) obtain m1 where
    m1: "heapify m array (Suc i) cnt sz compare = Some m1" "heap_from compare (Suc i) cnt (elems m1 array cnt sz)"
      "mset (elems m1 array cnt sz) = mset (elems m array cnt sz)" "agree_outside array (cnt * sz) m m1"
    by auto
  with Suc.IH [OF m1(2)] Suc.prems(2) show ?case
    by (auto simp: agree_outside_def)
qed

text \<open>The invariant of the second loop of \<^verbatim>\<open>sort\<close>: a heap in front, and behind it a sorted tail
  none of whose elements is less than one of the heap's.\<close>

definition extract_inv :: "('a \<Rightarrow> 'a \<Rightarrow> int) \<Rightarrow> nat \<Rightarrow> 'a list \<Rightarrow> bool" where
  "extract_inv compare i xs \<longleftrightarrow> heap_from compare 1 i xs \<and>
     sorted_wrt (\<lambda>x y. \<not> compare x y > 0) (drop i xs) \<and>
     (\<forall>x\<in>set (take i xs). \<forall>y\<in>set (drop i xs). \<not> compare x y > 0)"

lemma take_at: "0 < i \<Longrightarrow> i \<le> length xs \<Longrightarrow> take i xs = take (i - 1) xs @ [at xs i]"
  by (cases i) (simp_all add: at_def take_Suc_conv_app_nth)

lemma drop_at: "0 < i \<Longrightarrow> i \<le> length xs \<Longrightarrow> drop (i - 1) xs = at xs i # drop i xs"
  by (cases i) (simp_all add: at_def Cons_nth_drop_Suc)

context comparison
begin

text \<open>Swapping the root to the end of the heap keeps the tail sorted and above the rest.\<close>

lemma extract_swap:
  assumes "extract_inv compare i xs" "1 < i" "i \<le> length xs"
  defines "ys \<equiv> swap_at xs 1 i"
  shows "sorted_wrt (\<lambda>x y. \<not> compare x y > 0) (drop (i - 1) ys)"
    and "x \<in> set (take (i - 1) ys) \<Longrightarrow> y \<in> set (drop (i - 1) ys) \<Longrightarrow> \<not> compare x y > 0"
    and "heap_from compare 2 (i - 1) ys"
proof -
  have len: "length ys = length xs"
    by (simp add: ys_def swap_at_def)
  have "drop i ys = drop i xs" "at ys i = at xs 1"
    using assms(2,3) at_swap_at [of 1 xs i i] swap_at_prefix(2) [of 1 i i xs] by (auto simp: ys_def)
  then have dr: "drop (i - 1) ys = at xs 1 # drop i xs"
    using drop_at [of i ys] assms(2,3) len by simp
  have root: "\<not> compare x (at xs 1) > 0" if x: "x \<in> set (take i xs)" for x
  proof -
    obtain j where "j < i" "x = xs ! j"
      using x by (auto simp: in_set_conv_nth)
    then show ?thesis
      using heap_root [of i xs "Suc j"] assms(1) by (simp add: extract_inv_def at_def)
  qed
  have mem1: "at xs 1 \<in> set (take i xs)"
    using assms(2,3) by (auto simp: at_def in_set_conv_nth intro!: exI [of _ 0])
  show "sorted_wrt (\<lambda>x y. \<not> compare x y > 0) (drop (i - 1) ys)"
    unfolding dr using assms(1) mem1 by (auto simp: extract_inv_def)
  have "set (take i ys) = set (take i xs)"
    using swap_at_prefix(1) [of 1 i i xs] assms(2,3) by (metis One_nat_def le_eq_less_or_eq mset_eq_setD ys_def zero_less_one order.strict_trans less_imp_le)
  moreover have "set (take (i - 1) ys) \<subseteq> set (take i ys)"
    by (rule set_take_subset_set_take) simp
  ultimately show "\<not> compare x y > 0" if "x \<in> set (take (i - 1) ys)" "y \<in> set (drop (i - 1) ys)"
    using that root assms(1) unfolding dr extract_inv_def by auto
  show "heap_from compare 2 (i - 1) ys"
    unfolding heap_from_def
  proof (intro allI impI)
    fix k assume k: "2 \<le> k \<and> k \<le> i - 1 \<and> 2 \<le> k div 2"
    then have "at ys k = at xs k" "at ys (k div 2) = at xs (k div 2)"
      using at_swap_at [of 1 xs i k] at_swap_at [of 1 xs i "k div 2"] assms(2,3) by (auto simp: ys_def)
    with k assms(1) show "\<not> compare (at ys k) (at ys (k div 2)) > 0"
      by (auto simp: extract_inv_def heap_from_def)
  qed
qed

end

lemma sort_extract_ok:
  assumes "comparison compare" "2 * cnt + 1 < SIZE_MOD" "extract_inv compare i (elems m array cnt sz)"
    "i \<le> cnt"
  shows "\<exists>m'. sort_extract m array i sz compare = Some m' \<and>
    sorted_wrt (\<lambda>x y. \<not> compare x y > 0) (elems m' array cnt sz) \<and>
    mset (elems m' array cnt sz) = mset (elems m array cnt sz) \<and> agree_outside array (cnt * sz) m m'"
  using assms(3,4)
proof (induction i arbitrary: m)
  case 0
  then show ?case
    by (simp add: sort_extract.simps [of m] extract_inv_def agree_outside_def)
next
  case (Suc i)
  define xs where "xs = elems m array cnt sz"
  show ?case
  proof (cases "i = 0")
    case True
    then have "sorted_wrt (\<lambda>x y. \<not> compare x y > 0) xs"
      using Suc.prems(1) [folded xs_def] by (cases xs) (auto simp: extract_inv_def)
    with True show ?thesis
      by (simp add: sort_extract.simps [of m] agree_outside_def xs_def)
  next
    case False
    let ?m = "do_swap m array 1 (Suc i) sz"
    have sw: "elems ?m array cnt sz = swap_at xs 1 (Suc i)" "agree_outside array (cnt * sz) m ?m"
      using do_swap_elems [of 1 cnt "Suc i", where m = m and array = array and sz = sz] False Suc.prems
      by (simp_all add: xs_def swap_at_def at_def)
    note ex = comparison.extract_swap [OF assms(1) Suc.prems(1) [folded xs_def]]
    have ex': "sorted_wrt (\<lambda>x y. \<not> compare x y > 0) (drop i (elems ?m array cnt sz))"
      "\<forall>x\<in>set (take i (elems ?m array cnt sz)). \<forall>y\<in>set (drop i (elems ?m array cnt sz)). \<not> compare x y > 0"
      "heap_from compare 2 i (elems ?m array cnt sz)"
      unfolding sw using ex False Suc.prems(2) by (auto simp: xs_def)
    have "sift_inv compare 1 1 i (elems ?m array cnt sz)"
      using comparison.sift_inv_start [OF assms(1)] ex'(3) by (simp add: numeral_2_eq_2)
    from heapify_ok [OF assms(1) this] False Suc.prems(2) assms(2) obtain m1 where
      m1: "heapify ?m array 1 i sz compare = Some m1" "heap_from compare 1 i (elems m1 array cnt sz)"
        "mset (take i (elems m1 array cnt sz)) = mset (take i (elems ?m array cnt sz))"
        "drop i (elems m1 array cnt sz) = drop i (elems ?m array cnt sz)" "agree_outside array (cnt * sz) ?m m1"
      by auto
    have "extract_inv compare i (elems m1 array cnt sz)"
      using m1(2) ex' mset_eq_setD [OF m1(3)] by (simp add: extract_inv_def m1(4))
    from Suc.IH [OF this] Suc.prems(2) obtain m2 where m2: "sort_extract m1 array i sz compare = Some m2"
      "sorted_wrt (\<lambda>x y. \<not> compare x y > 0) (elems m2 array cnt sz)"
      "mset (elems m2 array cnt sz) = mset (elems m1 array cnt sz)" "agree_outside array (cnt * sz) m1 m2"
      by auto
    have "mset (elems m1 array cnt sz) = mset (elems ?m array cnt sz)"
      using m1(3,4) by (metis append_take_drop_id mset_append)
    also have "\<dots> = mset xs"
      unfolding sw using swap_at_prefix(1) [of 1 cnt "Suc i" xs] Suc.prems(2) by (simp add: xs_def swap_at_def)
    finally show ?thesis
      using m2 m1(1,5) sw(2) False by (simp add: sort_extract.simps [of m] xs_def agree_outside_def)
  qed
qed

text \<open>
  C3: \<^verbatim>\<open>sort\<close> (and \<^verbatim>\<open>qsort\<close>) with a comparison function that is a total preorder returns; the
  elements of the array are then a sorted permutation of what they were, and no byte outside the
  array has changed. The element count must leave the child index \<open>2 * i + 1\<close> inside \<^verbatim>\<open>size_t\<close>.
\<close>

theorem sort_correct:
  assumes "comparison compare" "2 * cnt + 1 < SIZE_MOD" "array \<noteq> 0" "0 < sz"
  shows "\<exists>m'. qsort m array cnt sz compare = Some m' \<and>
    sorted_wrt (\<lambda>x y. \<not> compare x y > 0) (elems m' array cnt sz) \<and>
    mset (elems m' array cnt sz) = mset (elems m array cnt sz) \<and> agree_outside array (cnt * sz) m m'"
proof -
  have "heap_from compare (Suc (cnt div 2)) cnt (elems m array cnt sz)"
    by (auto simp: heap_from_def dest: div_le_mono [of _ cnt 2])
  from sort_build_ok [OF assms(1,2) this] obtain m1 where
    m1: "sort_build m array (cnt div 2) cnt sz compare = Some m1" "heap_from compare 1 cnt (elems m1 array cnt sz)"
      "mset (elems m1 array cnt sz) = mset (elems m array cnt sz)" "agree_outside array (cnt * sz) m m1"
    by auto
  have "extract_inv compare cnt (elems m1 array cnt sz)"
    using m1(2) by (simp add: extract_inv_def)
  from sort_extract_ok [OF assms(1,2) this] obtain m2 where
    "sort_extract m1 array cnt sz compare = Some m2"
    "sorted_wrt (\<lambda>x y. \<not> compare x y > 0) (elems m2 array cnt sz)"
    "mset (elems m2 array cnt sz) = mset (elems m1 array cnt sz)" "agree_outside array (cnt * sz) m1 m2"
    by auto
  with m1 assms(3,4) show ?thesis
    by (auto simp: qsort_def sort_array_def compare_thunk_def agree_outside_def)
qed

theorem sort_correct_witness:
  "\<exists>m'. qsort sample_mem 100 5 1 bytes_compare = Some m' \<and>
    sorted_wrt (\<lambda>x y. \<not> bytes_compare x y > 0) (elems m' 100 5 1) \<and>
    mset (elems m' 100 5 1) = mset [[32], [97], [98], [32], [99]]"
proof -
  have "elems sample_mem 100 5 1 = [[32], [97], [98], [32], [99]]"
    by (simp add: elems_def block_def sample_mem_def upt_rec)
  with sort_correct [OF byte_order.comparison_axioms, of 5 100 1 sample_mem] show ?thesis
    by auto
qed

section \<open>Binary search\<close>

lemma binary_search_step:
  assumes "0 < sz" "lo < hi"
  defines "mid \<equiv> lo + (hi - lo) div 2"
  shows "binary_search_loop m key (array + sz * lo) (array + sz * hi) sz compare =
    (let cmp = compare key (block m (array + sz * mid) sz)
     in if cmp < 0 then binary_search_loop m key (array + sz * lo) (array + sz * mid) sz compare
        else if cmp > 0 then binary_search_loop m key (array + sz * (mid + 1)) (array + sz * hi) sz compare
        else Some (array + sz * mid))"
proof -
  have "(array + sz * hi - (array + sz * lo)) div sz = hi - lo"
    using assms(1) by (simp flip: diff_mult_distrib2)
  then have "array + sz * lo + (array + sz * hi - (array + sz * lo)) div sz div 2 * sz = array + sz * mid"
    by (simp add: mid_def algebra_simps)
  then show ?thesis
    using assms(1,2) by (subst binary_search_loop.simps) (simp add: Let_def algebra_simps)
qed

context comparison
begin

text \<open>In a sorted array everything at or before an element below the key is below the key, and
  dually.\<close>

lemma sorted_before:
  assumes "sorted_wrt (\<lambda>x y. \<not> compare x y > 0) xs" "compare key (xs ! mid) > 0" "j \<le> mid" "mid < length xs"
  shows "compare key (xs ! j) > 0"
proof (cases "j = mid")
  case False
  then have "\<not> compare (xs ! j) (xs ! mid) > 0"
    using assms(1,3,4) sorted_wrt_nth_less by fastforce
  then show ?thesis
    using assms(2) le_lt_trans [of "xs ! mid" "xs ! j" key] unfolding pos_iff by blast
qed (use assms in simp)

lemma sorted_after:
  assumes "sorted_wrt (\<lambda>x y. \<not> compare x y > 0) xs" "compare key (xs ! mid) < 0" "mid \<le> j" "j < length xs"
  shows "compare key (xs ! j) < 0"
proof (cases "j = mid")
  case False
  then have "\<not> compare (xs ! mid) (xs ! j) > 0"
    using assms(1,3,4) sorted_wrt_nth_less by fastforce
  then show ?thesis
    using assms(2) lt_le_trans [of key "xs ! mid" "xs ! j"] unfolding pos_iff by blast
qed (use assms in simp)

end

lemma extend_search:
  fixes a b lo hi :: nat
  assumes "r = 0 \<and> (\<forall>k. a \<le> k \<and> k < b \<longrightarrow> P k) \<or> (\<exists>k. a \<le> k \<and> k < b \<and> Q k)"
    and "\<And>k. lo \<le> k \<Longrightarrow> k < hi \<Longrightarrow> \<not> (a \<le> k \<and> k < b) \<Longrightarrow> P k" "lo \<le> a" "b \<le> hi"
  shows "r = 0 \<and> (\<forall>k. lo \<le> k \<and> k < hi \<longrightarrow> P k) \<or> (\<exists>k::nat. lo \<le> k \<and> k < hi \<and> Q k)"
  using assms(1)
proof
  assume "\<exists>k. a \<le> k \<and> k < b \<and> Q k"
  then obtain k where "lo \<le> k" "k < hi" "Q k"
    using assms(3,4) by (meson le_trans less_le_trans)
  then show ?thesis by blast
qed (use assms(2) in blast)

lemma binary_search_loop_ok:
  assumes "comparison compare" "0 < sz" "array \<noteq> 0" "hi \<le> cnt"
    "sorted_wrt (\<lambda>x y. \<not> compare x y > 0) (elems m array cnt sz)"
  shows "\<exists>r. binary_search_loop m key (array + sz * lo) (array + sz * hi) sz compare = Some r \<and>
    (r = 0 \<and> (\<forall>k. lo \<le> k \<and> k < hi \<longrightarrow> compare key (elems m array cnt sz ! k) \<noteq> 0) \<or>
     (\<exists>k. lo \<le> k \<and> k < hi \<and> r = array + sz * k \<and> compare key (elems m array cnt sz ! k) = 0))"
  using assms(4)
proof (induction "hi - lo" arbitrary: lo hi rule: less_induct)
  case less
  define xs where "xs = elems m array cnt sz"
  show ?case
  proof (cases "lo < hi")
    case False
    then show ?thesis
      using assms(2) by (subst binary_search_loop.simps) auto
  next
    case True
    define mid where "mid = lo + (hi - lo) div 2"
    have mid: "lo \<le> mid" "mid < hi" "mid < cnt"
      using True less.prems by (auto simp: mid_def)
    have shrink: "mid - lo < hi - lo" "hi - (mid + 1) < hi - lo"
      using mid by linarith+
    have bl: "block m (array + sz * mid) sz = xs ! mid"
      using mid(3) by (simp add: xs_def nth_elems mult.commute)
    note step = binary_search_step [OF assms(2) True, of m key array compare, folded mid_def, unfolded bl]
    consider "compare key (xs ! mid) < 0" | "compare key (xs ! mid) > 0" | "compare key (xs ! mid) = 0"
      by linarith
    then show ?thesis
    proof cases
      case 1
      have above: "compare key (xs ! k) \<noteq> 0" if "mid \<le> k" "k < hi" for k
        using comparison.sorted_after [OF assms(1,5), folded xs_def, OF 1, of k] that less.prems by (simp add: xs_def)
      obtain r where r: "binary_search_loop m key (array + sz * lo) (array + sz * mid) sz compare = Some r"
        "r = 0 \<and> (\<forall>k. lo \<le> k \<and> k < mid \<longrightarrow> compare key (xs ! k) \<noteq> 0) \<or>
         (\<exists>k. lo \<le> k \<and> k < mid \<and> r = array + sz * k \<and> compare key (xs ! k) = 0)"
        using less.hyps [of mid lo, folded xs_def] mid shrink by auto
      have "r = 0 \<and> (\<forall>k. lo \<le> k \<and> k < hi \<longrightarrow> compare key (xs ! k) \<noteq> 0) \<or>
         (\<exists>k. lo \<le> k \<and> k < hi \<and> r = array + sz * k \<and> compare key (xs ! k) = 0)"
        using r(2) by (rule extend_search) (use above mid in auto)
      with r(1) step 1 show ?thesis
        unfolding xs_def by simp
    next
      case 2
      have below: "compare key (xs ! k) \<noteq> 0" if "k \<le> mid" for k
        using comparison.sorted_before [OF assms(1,5), folded xs_def, OF 2, of k] that mid by (simp add: xs_def)
      obtain r where r: "binary_search_loop m key (array + sz * (mid + 1)) (array + sz * hi) sz compare = Some r"
        "r = 0 \<and> (\<forall>k. mid + 1 \<le> k \<and> k < hi \<longrightarrow> compare key (xs ! k) \<noteq> 0) \<or>
         (\<exists>k. mid + 1 \<le> k \<and> k < hi \<and> r = array + sz * k \<and> compare key (xs ! k) = 0)"
        using less.hyps [of hi "mid + 1", folded xs_def] less.prems shrink by auto
      have "r = 0 \<and> (\<forall>k. lo \<le> k \<and> k < hi \<longrightarrow> compare key (xs ! k) \<noteq> 0) \<or>
         (\<exists>k. lo \<le> k \<and> k < hi \<and> r = array + sz * k \<and> compare key (xs ! k) = 0)"
        using r(2) by (rule extend_search) (use below mid in auto)
      with r(1) step 2 show ?thesis
        unfolding xs_def by simp
    next
      case 3
      with step mid show ?thesis
        by (auto simp: xs_def)
    qed
  qed
qed

text \<open>
  C30: \<^verbatim>\<open>binary_search\<close> (and \<^verbatim>\<open>bsearch\<close>) on an array sorted by a total preorder always returns: the
  address of an element equal to the key if there is one, the null pointer otherwise.
\<close>

theorem binary_search_correct:
  assumes "comparison compare" "0 < sz" "array \<noteq> 0"
    "sorted_wrt (\<lambda>x y. \<not> compare x y > 0) (elems m array cnt sz)"
  shows "\<exists>r. bsearch m key array cnt sz compare = Some r \<and>
    (r = 0 \<longleftrightarrow> (\<forall>k<cnt. compare key (elems m array cnt sz ! k) \<noteq> 0)) \<and>
    (r \<noteq> 0 \<longrightarrow> (\<exists>k<cnt. r = array + sz * k \<and> compare key (elems m array cnt sz ! k) = 0))"
  using binary_search_loop_ok [OF assms(1-3) order_refl assms(4), of key 0] assms(3)
  by (auto simp: bsearch_def binary_search_def compare_thunk_def)

theorem binary_search_correct_witness:
  "\<exists>r. bsearch sample_mem [98] 101 2 1 bytes_compare = Some r \<and> r \<noteq> 0"
proof -
  have e: "elems sample_mem 101 2 1 = [[97], [98]]"
    by (simp add: elems_def block_def sample_mem_def upt_rec)
  have srt: "sorted_wrt (\<lambda>x y. \<not> bytes_compare x y > 0) (elems sample_mem 101 2 1)"
    unfolding e by (simp add: bytes_compare_def)
  have hit: "\<exists>k<2. bytes_compare [98] ([[97], [98]] ! k) = 0"
    by (rule exI [of _ 1]) (simp add: bytes_compare_def)
  have pos: "0 < (1::nat)" "101 \<noteq> (0::nat)"
    by simp_all
  show ?thesis
    using binary_search_correct [OF byte_order.comparison_axioms pos srt, of "[98]"] hit
    unfolding e by blast
qed

section \<open>Parsing integers\<close>

definition decimal :: "u8 list \<Rightarrow> int" where
  "decimal ds = foldl (\<lambda>k c. k * 10 + (uint c - 48)) 0 ds"

lemma atoi_space_ok:
  "cstr m p (ws @ ys) \<Longrightarrow> \<forall>c\<in>set ws. isspace c \<Longrightarrow> ys = [] \<or> \<not> isspace (hd ys) \<Longrightarrow>
   atoi_space m p = Some (p + length ws)"
proof (induction ws arbitrary: p)
  case Nil
  then show ?case
    by (cases ys) (auto simp: atoi_space.simps [of m p] cstr_Nil cstr_Cons isspace_def)
next
  case (Cons w ws)
  then show ?case
    by (auto simp: atoi_space.simps [of m p] cstr_Cons)
qed

lemma atoi_digits_ok:
  "cstr m p (ds @ ys) \<Longrightarrow> \<forall>c\<in>set ds. isdigit c \<Longrightarrow> ys = [] \<or> \<not> isdigit (hd ys) \<Longrightarrow>
   atoi_digits m p (word_of_int (- k)) = Some (word_of_int (- foldl (\<lambda>k c. k * 10 + (uint c - 48)) k ds))"
proof (induction ds arbitrary: p k)
  case Nil
  then show ?case
    by (cases ys) (auto simp: atoi_digits.simps [of m p] cstr_Nil cstr_Cons isdigit_def)
next
  case (Cons d ds)
  have ring: "- a * 10 - (b - 48) = - (a * 10 + (b - 48))" for a b :: u32
    by simp
  have "(word_of_int (- k) * 10 - (ucast d - 48) :: u32) = word_of_int (- (k * 10 + (uint d - 48)))"
    unfolding ucast_eq of_int_minus of_int_add of_int_mult of_int_diff of_int_numeral
    by (rule ring)
  then have "atoi_digits m p (word_of_int (- k)) = atoi_digits m (Suc p) (word_of_int (- (k * 10 + (uint d - 48))))"
    using Cons.prems by (subst atoi_digits.simps) (simp only: cstr_Cons append_Cons, simp)
  with Cons.IH [of "Suc p" "k * 10 + (uint d - 48)"] Cons.prems show ?case
    by (simp add: cstr_Cons)
qed

text \<open>
  C40: \<^verbatim>\<open>atoi\<close> skips white space, reads an optional sign and then the digits up to the first
  non-digit; the result is the decimal value whenever that value fits in an \<^verbatim>\<open>int\<close>, the most
  negative one included, and wraps otherwise.
\<close>

theorem atoi_correct:
  assumes "cstr m p (ws @ sign @ ds @ ys)" "\<forall>c\<in>set ws. isspace c" "sign \<in> {[], [43], [45]}"
    "\<forall>c\<in>set ds. isdigit c" "ds \<noteq> []" "ys = [] \<or> \<not> isdigit (hd ys)"
  defines "v \<equiv> (if sign = [45] then - decimal ds else decimal ds)"
  shows "atoi m p = Some (word_of_int v) \<and>
    (- (2 ^ 31) \<le> v \<and> v < 2 ^ 31 \<longrightarrow> (\<exists>r. atoi m p = Some r \<and> sint r = v))"
proof -
  define q where "q = p + length ws"
  have q: "cstr m q (sign @ ds @ ys)"
    using cstr_append [OF assms(1)] by (simp add: q_def)
  obtain d es where ds: "ds = d # es" "isdigit d"
    using assms(4,5) by (cases ds) auto
  have d: "\<not> isspace d" "d \<noteq> 43" "d \<noteq> 45"
    using ds(2) by (auto simp: isdigit_def isspace_def)
  have sp: "atoi_space m p = Some q"
    using atoi_space_ok [OF assms(1,2)] assms(3) d(1) ds(1) by (auto simp: q_def isspace_def)
  have "cstr m (q + length sign) (ds @ ys)"
    using cstr_append [OF q] .
  from atoi_digits_ok [OF this assms(4,6), of 0] have dg:
    "atoi_digits m (q + length sign) 0 = Some (word_of_int (- decimal ds))"
    by (simp add: decimal_def)
  have "m q = (if sign = [] then d else hd sign)"
    using q ds(1) assms(3) by (auto simp: cstr_Cons)
  with sp dg d assms(1,3) have eq: "atoi m p = Some (word_of_int v)"
    by (auto simp: atoi_def v_def cstr_def)
  have "sint (word_of_int v :: u32) = v" if "- (2 ^ 31) \<le> v" "v < 2 ^ 31"
    using that by (simp add: signed_of_int signed_take_bit_int_eq_self)
  with eq show ?thesis by auto
qed

theorem atoi_correct_witness:
  "\<exists>r. atoi ((\<lambda>_. 0)(8 := 32, 9 := 45, 10 := 52, 11 := 50)) 8 = Some r \<and> sint r = - 42"
proof -
  have c: "cstr ((\<lambda>_. 0)(8 := 32, 9 := 45, 10 := 52, 11 := 50)) 8 ([32] @ [45] @ [52, 50] @ [])"
    by (simp add: cstr_Cons cstr_Nil)
  show ?thesis
    using atoi_correct [OF c] by (simp add: isspace_def isdigit_def decimal_def)
qed

end
