(* ===== verification/Hash.thy ===== *)
theory Hash
  imports Kstring
begin

text \<open>
  The chained hash tables of \<^verbatim>\<open>lib/kernel/hash.c\<close>. A bucket is the sequence of elements on its
  list (the list operations themselves are verified in \<^verbatim>\<open>Kernel_List\<close>); \<^verbatim>\<open>malloc\<close> decides by a boolean
  whether a table may grow or shrink. The outer option is \<^term>\<open>None\<close> when an access leaves the
  bucket array or a loop does not end; a null element pointer is the inner \<^term>\<open>None\<close>. The invariant
  \<open>hash_ok\<close> is kept by every operation, whether or not allocations fail, and the operations are
  those of a finite set with at most one element per key.
\<close>

section \<open>Definitions\<close>

record 'e hash_table =
  h_elem_cnt :: nat
  bucket_cnt :: nat
  buckets :: "'e list list"
  hash_fn :: "'e \<Rightarrow> u32"
  less_fn :: "'e \<Rightarrow> 'e \<Rightarrow> bool"

definition find_bucket :: "'e hash_table \<Rightarrow> 'e \<Rightarrow> nat option" where
  "find_bucket h e =
     (let bucket_idx = unat (hash_fn h e AND (of_nat (bucket_cnt h) - 1))
      in if bucket_idx < length (buckets h) then Some bucket_idx else None)"

fun find_elem :: "'e hash_table \<Rightarrow> 'e list \<Rightarrow> 'e \<Rightarrow> 'e option" where
  "find_elem h [] e = None"
| "find_elem h (hi # is) e =
     (if \<not> less_fn h hi e \<and> \<not> less_fn h e hi then Some hi else find_elem h is e)"

definition turn_off_least_1bit :: "nat \<Rightarrow> nat" where
  "turn_off_least_1bit x = x AND (x - 1)"

definition is_power_of_2 :: "nat \<Rightarrow> bool" where
  "is_power_of_2 x \<longleftrightarrow> x \<noteq> 0 \<and> turn_off_least_1bit x = 0"

definition MIN_ELEMS_PER_BUCKET :: nat where "MIN_ELEMS_PER_BUCKET = 1"
definition BEST_ELEMS_PER_BUCKET :: nat where "BEST_ELEMS_PER_BUCKET = 2"
definition MAX_ELEMS_PER_BUCKET :: nat where "MAX_ELEMS_PER_BUCKET = 4"

definition insert_elem :: "'e hash_table \<Rightarrow> nat \<Rightarrow> 'e \<Rightarrow> 'e hash_table" where
  "insert_elem h bucket e =
     h\<lparr>h_elem_cnt := (h_elem_cnt h + 1) mod SIZE_MOD,
       buckets := (buckets h)[bucket := e # buckets h ! bucket]\<rparr>"

text \<open>\<^verbatim>\<open>list_remove\<close> unlinks the element from the list it is on.\<close>

definition remove_elem :: "'e hash_table \<Rightarrow> 'e \<Rightarrow> 'e hash_table" where
  "remove_elem h e =
     h\<lparr>h_elem_cnt := (h_elem_cnt h + SIZE_MOD - 1) mod SIZE_MOD,
       buckets := map (remove1 e) (buckets h)\<rparr>"

partial_function (option) new_bucket_cnt_loop :: "nat \<Rightarrow> nat option" where
  "new_bucket_cnt_loop n =
     (if \<not> is_power_of_2 n then new_bucket_cnt_loop (turn_off_least_1bit n) else Some n)"

fun rehash_bucket :: "'e hash_table \<Rightarrow> 'e list \<Rightarrow> 'e hash_table option" where
  "rehash_bucket h [] = Some h"
| "rehash_bucket h (e # es) = do {
     new_bucket \<leftarrow> find_bucket h e;
     rehash_bucket (h\<lparr>buckets := (buckets h)[new_bucket := e # buckets h ! new_bucket]\<rparr>) es }"

fun rehash_buckets :: "'e hash_table \<Rightarrow> 'e list list \<Rightarrow> 'e hash_table option" where
  "rehash_buckets h [] = Some h"
| "rehash_buckets h (b # bs) = do { h \<leftarrow> rehash_bucket h b; rehash_buckets h bs }"

definition rehash :: "bool \<Rightarrow> 'e hash_table \<Rightarrow> 'e hash_table option" where
  "rehash malloc_ok h = do {
     let old_buckets = buckets h;
     let old_bucket_cnt = bucket_cnt h;
     let n = h_elem_cnt h div BEST_ELEMS_PER_BUCKET;
     let n = (if n < 4 then 4 else n);
     new_bucket_cnt \<leftarrow> new_bucket_cnt_loop n;
     if new_bucket_cnt = old_bucket_cnt then Some h
     else if \<not> malloc_ok then Some h
     else rehash_buckets (h\<lparr>buckets := replicate new_bucket_cnt [], bucket_cnt := new_bucket_cnt\<rparr>)
            old_buckets }"

text \<open>The actions passed to \<^verbatim>\<open>hash_clear\<close> and \<^verbatim>\<open>hash_apply\<close> work on a state of their own.\<close>

definition hash_clear :: "'e hash_table \<Rightarrow> ('e \<Rightarrow> 's \<Rightarrow> 's) option \<Rightarrow> 's \<Rightarrow> 'e hash_table \<times> 's" where
  "hash_clear h destructor s =
     (h\<lparr>buckets := map (\<lambda>_. []) (buckets h), h_elem_cnt := 0\<rparr>,
      case destructor of None \<Rightarrow> s | Some f \<Rightarrow> fold (\<lambda>bucket s. fold f bucket s) (buckets h) s)"

definition hash_init :: "bool \<Rightarrow> ('e \<Rightarrow> u32) \<Rightarrow> ('e \<Rightarrow> 'e \<Rightarrow> bool) \<Rightarrow> bool \<times> 'e hash_table" where
  "hash_init malloc_ok hash lt =
     (let h = \<lparr>h_elem_cnt = 0, bucket_cnt = 4, buckets = (if malloc_ok then replicate 4 [] else []),
               hash_fn = hash, less_fn = lt\<rparr>
      in if malloc_ok then (True, fst (hash_clear h None ())) else (False, h))"

text \<open>\<^verbatim>\<open>hash_destroy\<close> returns what the destructor did; the table is gone.\<close>

definition hash_destroy :: "'e hash_table \<Rightarrow> ('e \<Rightarrow> 's \<Rightarrow> 's) option \<Rightarrow> 's \<Rightarrow> 's" where
  "hash_destroy h destructor s =
     (case destructor of None \<Rightarrow> s | Some f \<Rightarrow> snd (hash_clear h (Some f) s))"

definition hash_insert :: "bool \<Rightarrow> 'e hash_table \<Rightarrow> 'e \<Rightarrow> ('e option \<times> 'e hash_table) option" where
  "hash_insert malloc_ok h new = do {
     bucket \<leftarrow> find_bucket h new;
     let old = find_elem h (buckets h ! bucket) new;
     let h = (if old = None then insert_elem h bucket new else h);
     h \<leftarrow> rehash malloc_ok h;
     Some (old, h) }"

definition hash_replace :: "bool \<Rightarrow> 'e hash_table \<Rightarrow> 'e \<Rightarrow> ('e option \<times> 'e hash_table) option" where
  "hash_replace malloc_ok h new = do {
     bucket \<leftarrow> find_bucket h new;
     let old = find_elem h (buckets h ! bucket) new;
     let h = (case old of Some e \<Rightarrow> remove_elem h e | None \<Rightarrow> h);
     let h = insert_elem h bucket new;
     h \<leftarrow> rehash malloc_ok h;
     Some (old, h) }"

definition hash_find :: "'e hash_table \<Rightarrow> 'e \<Rightarrow> 'e option option" where
  "hash_find h e = do {
     bucket \<leftarrow> find_bucket h e;
     Some (find_elem h (buckets h ! bucket) e) }"

definition hash_delete :: "bool \<Rightarrow> 'e hash_table \<Rightarrow> 'e \<Rightarrow> ('e option \<times> 'e hash_table) option" where
  "hash_delete malloc_ok h e = do {
     bucket \<leftarrow> find_bucket h e;
     case find_elem h (buckets h ! bucket) e of
       Some found \<Rightarrow> do {
         h \<leftarrow> rehash malloc_ok (remove_elem h found);
         Some (Some found, h) }
     | None \<Rightarrow> Some (None, h) }"

definition hash_apply :: "'e hash_table \<Rightarrow> ('e \<Rightarrow> 's \<Rightarrow> 's) \<Rightarrow> 's \<Rightarrow> 's" where
  "hash_apply h action s = fold (\<lambda>bucket s. fold action bucket s) (buckets h) s"

definition hash_size :: "'e hash_table \<Rightarrow> nat" where
  "hash_size h = h_elem_cnt h"

definition hash_empty :: "'e hash_table \<Rightarrow> bool" where
  "hash_empty h \<longleftrightarrow> h_elem_cnt h = 0"

text \<open>
  An iterator points into a bucket: position 0 is the list head, position \<open>k + 1\<close> the element with
  index \<open>k\<close>, the position behind the last element the list tail. A null element is \<^term>\<open>None\<close>.
\<close>

record iter =
  it_bucket :: nat
  it_elem :: "nat option"

definition hash_first :: "iter" where
  "hash_first = \<lparr>it_bucket = 0, it_elem = Some 0\<rparr>"

partial_function (option) hash_next_loop :: "'e hash_table \<Rightarrow> nat \<Rightarrow> nat \<Rightarrow> iter option" where
  "hash_next_loop h bucket pos =
     (if pos = length (buckets h ! bucket) + 1 then
        if bucket + 1 \<ge> bucket_cnt h then Some \<lparr>it_bucket = bucket + 1, it_elem = None\<rparr>
        else hash_next_loop h (bucket + 1) 1
      else Some \<lparr>it_bucket = bucket, it_elem = Some pos\<rparr>)"

definition hash_next :: "'e hash_table \<Rightarrow> iter \<Rightarrow> iter option" where
  "hash_next h i = do {
     pos \<leftarrow> it_elem i;
     hash_next_loop h (it_bucket i) (pos + 1) }"

definition hash_cur :: "'e hash_table \<Rightarrow> iter \<Rightarrow> 'e option" where
  "hash_cur h i = map_option (\<lambda>pos. buckets h ! it_bucket i ! (pos - 1)) (it_elem i)"

definition FNV_32_PRIME :: u32 where "FNV_32_PRIME = 16777619"
definition FNV_32_BASIS :: u32 where "FNV_32_BASIS = 2166136261"

fun hash_bytes_loop :: "mem \<Rightarrow> addr \<Rightarrow> nat \<Rightarrow> u32 \<Rightarrow> u32" where
  "hash_bytes_loop m buf 0 hash = hash"
| "hash_bytes_loop m buf (Suc n) hash =
     hash_bytes_loop m (buf + 1) n ((hash * FNV_32_PRIME) XOR ucast (m buf))"

definition hash_bytes :: "mem \<Rightarrow> addr \<Rightarrow> nat \<Rightarrow> u32 option" where
  "hash_bytes m buf n = do {
     ASSERT (buf \<noteq> NULL);
     Some (hash_bytes_loop m buf n FNV_32_BASIS) }"

partial_function (option) hash_string_loop :: "mem \<Rightarrow> addr \<Rightarrow> u32 \<Rightarrow> u32 option" where
  "hash_string_loop m s hash =
     (if m s \<noteq> 0 then hash_string_loop m (s + 1) ((hash * FNV_32_PRIME) XOR ucast (m s))
      else Some hash)"

definition hash_string :: "mem \<Rightarrow> addr \<Rightarrow> u32 option" where
  "hash_string m s = do {
     ASSERT (s \<noteq> NULL);
     hash_string_loop m s FNV_32_BASIS }"

section \<open>Bucket counts\<close>

lemma turn_off_double: "0 < y \<Longrightarrow> turn_off_least_1bit (2 * y) = 2 * turn_off_least_1bit y"
proof -
  assume "0 < y"
  then have "2 * y - 1 = 2 * (y - 1) + 1"
    by simp
  then show ?thesis
    unfolding turn_off_least_1bit_def by (subst and_rec) (simp add: even_Suc)
qed

lemma turn_off_odd: "turn_off_least_1bit (2 * y + 1) = 2 * y"
  unfolding turn_off_least_1bit_def by (subst and_rec) simp

lemma turn_off_bounds:
  "2 ^ k \<le> x \<Longrightarrow> x < 2 ^ Suc k \<Longrightarrow>
   turn_off_least_1bit x < x \<and> (turn_off_least_1bit x = 0 \<longleftrightarrow> x = 2 ^ k) \<and>
   (turn_off_least_1bit x \<noteq> 0 \<longrightarrow> 2 ^ k \<le> turn_off_least_1bit x)"
proof (induction k arbitrary: x)
  case 0
  then have "x = 1" by simp
  then show ?case
    by (simp add: turn_off_least_1bit_def)
next
  case (Suc k)
  define y where "y = x div 2"
  have y: "2 ^ k \<le> y" "y < 2 ^ Suc k"
    using Suc.prems by (auto simp: y_def)
  then have "0 < y"
    by (intro less_le_trans [OF _ y(1)]) simp
  consider "x = 2 * y" | "x = 2 * y + 1"
    unfolding y_def by linarith
  then show ?case
  proof cases
    case 1
    with Suc.IH [OF y(1,2)] turn_off_double [OF \<open>0 < y\<close>] show ?thesis by auto
  next
    case 2
    have "x \<noteq> 2 ^ Suc k"
      using 2 by (metis even_mult_iff even_plus_one_iff even_numeral power_Suc)
    with 2 turn_off_odd [of y] y show ?thesis by auto
  qed
qed

lemma new_bucket_cnt_loop_ok:
  "2 ^ k \<le> n \<Longrightarrow> n < 2 ^ Suc k \<Longrightarrow> new_bucket_cnt_loop n = Some (2 ^ k)"
proof (induction n rule: less_induct)
  case (less n)
  note b = turn_off_bounds [OF less.prems]
  show ?case
  proof (cases "n = 2 ^ k")
    case True
    then show ?thesis
      using b by (subst new_bucket_cnt_loop.simps) (simp add: is_power_of_2_def)
  next
    case False
    then show ?thesis
      using b less.IH [of "turn_off_least_1bit n"] less.prems
      by (subst new_bucket_cnt_loop.simps) (auto simp: is_power_of_2_def)
  qed
qed

lemma power_bracket: "0 < n \<Longrightarrow> \<exists>k. 2 ^ k \<le> n \<and> n < (2::nat) ^ Suc k"
proof (induction n rule: less_induct)
  case (less n)
  show ?case
  proof (cases "n = 1")
    case False
    then obtain k where "2 ^ k \<le> n div 2 \<and> n div 2 < (2::nat) ^ Suc k"
      using less.IH [of "n div 2"] less.prems by auto
    then have "2 ^ Suc k \<le> n \<and> n < (2::nat) ^ Suc (Suc k)"
      by auto
    then show ?thesis by blast
  qed (auto intro: exI [of _ 0])
qed

section \<open>The invariant\<close>

text \<open>What a table needs of its hash and comparison functions: elements that compare equal have
  equal hashes.\<close>

locale hash_functions = strict_weak_order lt for lt :: "'e \<Rightarrow> 'e \<Rightarrow> bool" +
  fixes hash :: "'e \<Rightarrow> u32"
  assumes hash_equal: "\<not> lt x y \<Longrightarrow> \<not> lt y x \<Longrightarrow> hash x = hash y"

definition same_key :: "'e hash_table \<Rightarrow> 'e \<Rightarrow> 'e \<Rightarrow> bool" where
  "same_key h x y \<longleftrightarrow> \<not> less_fn h x y \<and> \<not> less_fn h y x"

text \<open>The elements, bucket after bucket.\<close>

definition contents :: "'e hash_table \<Rightarrow> 'e list" where
  "contents h = concat (buckets h)"

definition members :: "'e hash_table \<Rightarrow> 'e set" where
  "members h = set (contents h)"

definition bucket_idx :: "'e hash_table \<Rightarrow> 'e \<Rightarrow> nat" where
  "bucket_idx h e = unat (hash_fn h e AND (of_nat (bucket_cnt h) - 1))"

text \<open>Every element is in the bucket of its hash.\<close>

definition hash_shape :: "'e hash_table \<Rightarrow> bool" where
  "hash_shape h \<longleftrightarrow> (\<exists>k<32. bucket_cnt h = 2 ^ k) \<and> length (buckets h) = bucket_cnt h \<and>
     (\<forall>i<bucket_cnt h. \<forall>e\<in>set (buckets h ! i). bucket_idx h e = i)"

definition hash_ok :: "'e hash_table \<Rightarrow> bool" where
  "hash_ok h \<longleftrightarrow> hash_shape h \<and> hash_functions (less_fn h) (hash_fn h) \<and>
     distinct (contents h) \<and> (\<forall>x\<in>members h. \<forall>y\<in>members h. same_key h x y \<longrightarrow> x = y) \<and>
     h_elem_cnt h = length (contents h) \<and> h_elem_cnt h < SIZE_MOD"

lemma bucket_idx_less:
  assumes "k < 32" "bucket_cnt h = 2 ^ k"
  shows "bucket_idx h e < 2 ^ k"
proof -
  have "(of_nat (2 ^ k) - 1 :: u32) = mask k"
    by (simp add: mask_eq_exp_minus_1)
  then have "bucket_idx h e = unat (take_bit k (hash_fn h e))"
    by (simp add: bucket_idx_def assms(2) take_bit_eq_mask)
  then show ?thesis
    by (simp add: unsigned_take_bit_eq)
qed

lemma find_bucket_ok: "hash_shape h \<Longrightarrow> find_bucket h e = Some (bucket_idx h e) \<and> bucket_idx h e < length (buckets h)"
  using bucket_idx_less [of _ h e] by (auto simp: hash_shape_def find_bucket_def bucket_idx_def Let_def)

lemma same_key_bucket:
  "hash_functions (less_fn h) (hash_fn h) \<Longrightarrow> same_key h x y \<Longrightarrow> bucket_idx h x = bucket_idx h y"
  by (auto simp: same_key_def bucket_idx_def dest: hash_functions.hash_equal)

lemma members_nth: "members h = (\<Union>i<length (buckets h). set (buckets h ! i))"
  unfolding members_def contents_def set_concat by (auto simp: set_conv_nth [of "buckets h"])

lemma member_bucket:
  assumes "hash_shape h"
  shows "e \<in> members h \<longleftrightarrow> e \<in> set (buckets h ! bucket_idx h e)"
proof
  assume "e \<in> members h"
  then obtain i where "i < length (buckets h)" "e \<in> set (buckets h ! i)"
    by (auto simp: members_nth)
  with assms show "e \<in> set (buckets h ! bucket_idx h e)"
    by (simp add: hash_shape_def)
next
  assume "e \<in> set (buckets h ! bucket_idx h e)"
  with find_bucket_ok [OF assms, of e] show "e \<in> members h"
    by (auto simp: members_nth)
qed

lemma find_elem_spec:
  "case find_elem h xs e of Some x \<Rightarrow> x \<in> set xs \<and> same_key h e x | None \<Rightarrow> \<forall>x\<in>set xs. \<not> same_key h e x"
  by (induction xs) (auto simp: same_key_def split: option.splits)

text \<open>Searching the bucket of an element searches the whole table.\<close>

lemma find_in_bucket:
  assumes "hash_ok h"
  defines "r e \<equiv> find_elem h (buckets h ! bucket_idx h e) e"
  shows "r e = Some x \<Longrightarrow> x \<in> members h \<and> same_key h e x" "r e = None \<Longrightarrow> y \<in> members h \<Longrightarrow> \<not> same_key h e y"
proof -
  have shape: "hash_shape h" and fns: "hash_functions (less_fn h) (hash_fn h)"
    using assms by (auto simp: hash_ok_def)
  note spec = find_elem_spec [where h = h and xs = "buckets h ! bucket_idx h e" and e = e]
  show "x \<in> members h \<and> same_key h e x" if "r e = Some x"
    using spec that find_bucket_ok [OF shape, of e] by (auto simp: r_def members_nth)
  show "\<not> same_key h e y" if "r e = None" "y \<in> members h"
    using spec that member_bucket [OF shape, of y] same_key_bucket [OF fns, of e y] by (auto simp: r_def)
qed

lemma hash_find_ok:
  assumes "hash_ok h"
  shows "\<exists>r. hash_find h e = Some r \<and>
    (case r of Some x \<Rightarrow> x \<in> members h \<and> same_key h e x | None \<Rightarrow> \<forall>x\<in>members h. \<not> same_key h e x)"
proof -
  have "hash_shape h"
    using assms by (simp add: hash_ok_def)
  then show ?thesis
    using find_bucket_ok [of h e] find_in_bucket [OF assms, of e]
    by (simp add: hash_find_def split: option.split)
qed

section \<open>Inserting, removing and rehashing\<close>

lemma mset_concat_push:
  "i < length bs \<Longrightarrow> mset (concat (bs[i := e # bs ! i])) = add_mset e (mset (concat bs))"
proof (induction bs arbitrary: i)
  case (Cons b bs)
  then show ?case by (cases i) auto
qed simp

definition push_bucket :: "'e hash_table \<Rightarrow> nat \<Rightarrow> 'e \<Rightarrow> 'e hash_table" where
  "push_bucket h i e = h\<lparr>buckets := (buckets h)[i := e # buckets h ! i]\<rparr>"

lemma hash_shape_cong:
  "bucket_cnt h' = bucket_cnt h \<Longrightarrow> buckets h' = buckets h \<Longrightarrow> hash_fn h' = hash_fn h \<Longrightarrow>
   hash_shape h' = hash_shape h"
  by (simp add: hash_shape_def bucket_idx_def)

lemma push_bucket_shape: "hash_shape h \<Longrightarrow> hash_shape (push_bucket h (bucket_idx h e) e)"
proof -
  have "bucket_idx (push_bucket h i e) x = bucket_idx h x" for i x
    by (simp add: bucket_idx_def push_bucket_def)
  then show "hash_shape h \<Longrightarrow> ?thesis"
    using find_bucket_ok [of h e] by (auto simp: hash_shape_def) (auto simp: push_bucket_def nth_list_update split: if_splits)
qed

lemma rehash_bucket_ok:
  assumes "hash_shape h"
  shows "\<exists>h'. rehash_bucket h es = Some h' \<and> hash_shape h' \<and>
    mset (contents h') = mset es + mset (contents h) \<and>
    h_elem_cnt h' = h_elem_cnt h \<and> hash_fn h' = hash_fn h \<and> less_fn h' = less_fn h"
  using assms
proof (induction es arbitrary: h)
  case (Cons e es)
  let ?h = "push_bucket h (bucket_idx h e) e"
  have "rehash_bucket h (e # es) = rehash_bucket ?h es"
    using find_bucket_ok [OF Cons.prems, of e] by (simp add: push_bucket_def)
  moreover have "mset (contents ?h) = add_mset e (mset (contents h))"
    using find_bucket_ok [OF Cons.prems, of e] by (simp add: push_bucket_def contents_def mset_concat_push)
  moreover have "h_elem_cnt ?h = h_elem_cnt h" "hash_fn ?h = hash_fn h" "less_fn ?h = less_fn h"
    by (simp_all add: push_bucket_def)
  ultimately show ?case
    using Cons.IH [OF push_bucket_shape [OF Cons.prems, of e]] by auto
qed simp

lemma rehash_buckets_ok:
  assumes "hash_shape h"
  shows "\<exists>h'. rehash_buckets h bs = Some h' \<and> hash_shape h' \<and>
    mset (contents h') = mset (concat bs) + mset (contents h) \<and>
    h_elem_cnt h' = h_elem_cnt h \<and> hash_fn h' = hash_fn h \<and> less_fn h' = less_fn h"
  using assms
proof (induction bs arbitrary: h)
  case (Cons b bs)
  obtain h1 where h1: "rehash_bucket h b = Some h1" "hash_shape h1"
    "mset (contents h1) = mset b + mset (contents h)"
    "h_elem_cnt h1 = h_elem_cnt h" "hash_fn h1 = hash_fn h" "less_fn h1 = less_fn h"
    using rehash_bucket_ok [OF Cons.prems, of b] by blast
  then show ?case
    using Cons.IH [OF h1(2)] by (auto simp: ac_simps)
qed simp

text \<open>Two tables with the same elements, count and functions satisfy the invariant together.\<close>

lemma hash_ok_transfer:
  assumes "hash_ok h" "hash_shape h'" "mset (contents h') = mset (contents h)"
    "h_elem_cnt h' = h_elem_cnt h" "hash_fn h' = hash_fn h" "less_fn h' = less_fn h"
  shows "hash_ok h' \<and> members h' = members h \<and> same_key h' = same_key h"
proof -
  have "members h' = members h" "same_key h' = same_key h"
    using mset_eq_setD [OF assms(3)] assms(6) by (simp_all add: members_def same_key_def fun_eq_iff)
  then show ?thesis
    using assms(1,2,4-6) mset_eq_length [OF assms(3)] mset_eq_imp_distinct_iff [OF assms(3)]
    by (simp add: hash_ok_def)
qed

lemma rehash_ok:
  assumes "hash_ok h"
  shows "\<exists>h'. rehash malloc_ok h = Some h' \<and> hash_ok h' \<and> members h' = members h \<and> same_key h' = same_key h"
proof -
  define n where "n = (if h_elem_cnt h div 2 < 4 then 4 else h_elem_cnt h div 2)"
  have "0 < n"
    by (simp add: n_def)
  from power_bracket [OF this] obtain k where k: "2 ^ k \<le> n" "n < 2 ^ Suc k"
    by blast
  have "n < 2 ^ 32"
    using assms by (auto simp: n_def hash_ok_def)
  then have "(2::nat) ^ k < 2 ^ 32"
    using k(1) by linarith
  then have "k < 32"
    by (rule power_less_imp_less_exp [rotated]) simp
  let ?h = "h\<lparr>buckets := replicate (2 ^ k) [], bucket_cnt := 2 ^ k\<rparr>"
  have "hash_shape ?h"
    using \<open>k < 32\<close> by (auto simp: hash_shape_def)
  from rehash_buckets_ok [OF this, of "buckets h"] obtain h' where
    h': "rehash_buckets ?h (buckets h) = Some h'" "hash_shape h'"
      "mset (contents h') = mset (contents h)"
      "h_elem_cnt h' = h_elem_cnt h" "hash_fn h' = hash_fn h" "less_fn h' = less_fn h"
    by (auto simp: contents_def)
  have "rehash malloc_ok h = (if 2 ^ k = bucket_cnt h \<or> \<not> malloc_ok then Some h else Some h')"
    using new_bucket_cnt_loop_ok [OF k] h'(1) by (simp add: rehash_def BEST_ELEMS_PER_BUCKET_def n_def Let_def)
  then show ?thesis
    using hash_ok_transfer [OF assms h'(2-6)] assms by auto
qed

lemma insert_elem_ok:
  assumes "hash_ok h" "\<forall>x\<in>members h. \<not> same_key h e x" "card (members h) + 1 < SIZE_MOD"
  defines "h' \<equiv> insert_elem h (bucket_idx h e) e"
  shows "hash_ok h' \<and> members h' = insert e (members h) \<and> same_key h' = same_key h"
proof -
  have shape: "hash_shape h" and idx: "bucket_idx h e < length (buckets h)"
    using assms(1) find_bucket_ok [of h e] by (auto simp: hash_ok_def)
  have eqv: "same_key h' = same_key h"
    by (simp add: h'_def insert_elem_def same_key_def fun_eq_iff)
  have "hash_shape h'"
    using push_bucket_shape [OF shape, of e] hash_shape_cong [of h' "push_bucket h (bucket_idx h e) e"]
    by (simp add: h'_def insert_elem_def push_bucket_def)
  have ms: "mset (contents h') = add_mset e (mset (contents h))"
    using idx by (simp add: h'_def insert_elem_def contents_def mset_concat_push)
  have mem: "members h' = insert e (members h)"
    using arg_cong [OF ms, of set_mset] by (simp add: members_def)
  have fns: "strict_weak_order (less_fn h)"
    using assms(1) by (simp add: hash_ok_def hash_functions_def)
  then have "same_key h e e"
    by (simp add: same_key_def strict_weak_order.irrefl)
  then have "e \<notin> set (contents h)"
    using assms(2) by (auto simp: members_def)
  moreover have "distinct (contents h') \<longleftrightarrow> distinct (e # contents h)"
    by (rule mset_eq_imp_distinct_iff) (simp add: ms)
  moreover have "length (contents h') = Suc (length (contents h))"
    using arg_cong [OF ms, of size] by simp
  moreover have "card (members h) = length (contents h)"
    using assms(1) by (simp add: hash_ok_def members_def distinct_card)
  moreover have "\<not> same_key h x e" if "x \<in> members h" for x
    using assms(2) that by (auto simp: same_key_def)
  then have "\<forall>x\<in>members h'. \<forall>y\<in>members h'. same_key h' x y \<longrightarrow> x = y"
    using assms(1,2) unfolding mem eqv hash_ok_def by blast
  moreover have "less_fn h' = less_fn h" "hash_fn h' = hash_fn h" "h_elem_cnt h' = (h_elem_cnt h + 1) mod SIZE_MOD"
    by (simp_all add: h'_def insert_elem_def)
  ultimately show ?thesis
    using assms(1,3) \<open>hash_shape h'\<close> mem eqv unfolding hash_ok_def by simp
qed

lemma remove_elem_ok:
  assumes "hash_ok h" "e \<in> members h"
  defines "h' \<equiv> remove_elem h e"
  shows "hash_ok h' \<and> members h' = members h - {e} \<and> same_key h' = same_key h"
proof -
  have dist: "distinct (contents h)" and pos: "0 < length (contents h)"
    using assms(1,2) by (auto simp: hash_ok_def members_def intro!: gr0I)
  have one: "concat (map (remove1 e) bs) = remove1 e (concat bs)" if "distinct (concat bs)" for bs :: "'a list list"
    using that
  proof (induction bs)
    case (Cons b bs)
    then have "e \<in> set b \<Longrightarrow> map (remove1 e) bs = bs"
      by (intro map_idI) (auto intro: remove1_idem)
    with Cons show ?case
      by (auto simp: remove1_append remove1_idem)
  qed simp
  have cc: "contents h' = remove1 e (contents h)"
    using one [OF dist [unfolded contents_def]] by (simp add: h'_def remove_elem_def contents_def)
  have mem: "members h' = members h - {e}"
    using dist by (simp add: members_def cc set_remove1_eq)
  have eqv: "same_key h' = same_key h"
    by (simp add: h'_def remove_elem_def same_key_def fun_eq_iff)
  have "hash_shape h'"
    using assms(1) notin_set_remove1 by (fastforce simp: h'_def remove_elem_def hash_ok_def hash_shape_def bucket_idx_def)
  moreover have "distinct (contents h')" "length (contents h') = length (contents h) - 1"
    using dist assms(2) by (simp_all add: cc length_remove1 members_def)
  moreover have "(length (contents h) + SIZE_MOD - 1) mod SIZE_MOD = length (contents h) - 1"
    using assms(1) pos by (auto simp: hash_ok_def mod_if)
  moreover have "\<forall>x\<in>members h'. \<forall>y\<in>members h'. same_key h' x y \<longrightarrow> x = y"
    using assms(1) unfolding mem eqv hash_ok_def by blast
  moreover have "less_fn h' = less_fn h" "hash_fn h' = hash_fn h" "h_elem_cnt h' = (h_elem_cnt h + SIZE_MOD - 1) mod SIZE_MOD"
    by (simp_all add: h'_def remove_elem_def)
  ultimately show ?thesis
    using assms(1) mem eqv unfolding hash_ok_def by simp
qed

lemma hash_ok_bucket: "hash_ok h \<Longrightarrow> find_bucket h e = Some (bucket_idx h e)"
  using find_bucket_ok [of h e] by (simp add: hash_ok_def)

lemma hash_insert_ok:
  assumes "hash_ok h" "card (members h) + 1 < SIZE_MOD"
  shows "\<exists>r h'. hash_insert malloc_ok h e = Some (r, h') \<and> hash_ok h' \<and> same_key h' = same_key h \<and>
    (case r of Some x \<Rightarrow> x \<in> members h \<and> same_key h e x \<and> members h' = members h
     | None \<Rightarrow> (\<forall>x\<in>members h. \<not> same_key h e x) \<and> members h' = insert e (members h))"
proof (cases "find_elem h (buckets h ! bucket_idx h e) e")
  case None
  then have new: "\<forall>x\<in>members h. \<not> same_key h e x"
    using find_in_bucket(2) [OF assms(1)] by blast
  note ins = insert_elem_ok [OF assms(1) new assms(2)]
  from rehash_ok [of "insert_elem h (bucket_idx h e) e" malloc_ok] ins None new show ?thesis
    by (auto simp: hash_insert_def hash_ok_bucket [OF assms(1)])
next
  case (Some x)
  from rehash_ok [OF assms(1), of malloc_ok] find_in_bucket(1) [OF assms(1) Some] Some show ?thesis
    by (auto simp: hash_insert_def hash_ok_bucket [OF assms(1)])
qed

lemma hash_delete_ok:
  assumes "hash_ok h"
  shows "\<exists>r h'. hash_delete malloc_ok h e = Some (r, h') \<and> hash_ok h' \<and> same_key h' = same_key h \<and>
    (case r of Some x \<Rightarrow> x \<in> members h \<and> same_key h e x \<and> members h' = members h - {x}
     | None \<Rightarrow> (\<forall>x\<in>members h. \<not> same_key h e x) \<and> members h' = members h)"
proof (cases "find_elem h (buckets h ! bucket_idx h e) e")
  case None
  then show ?thesis
    using find_in_bucket(2) [OF assms None] assms by (simp add: hash_delete_def hash_ok_bucket)
next
  case (Some x)
  note x = find_in_bucket(1) [OF assms Some]
  note rem = remove_elem_ok [OF assms conjunct1 [OF x]]
  from rehash_ok [of "remove_elem h x" malloc_ok] rem x Some show ?thesis
    by (auto simp: hash_delete_def hash_ok_bucket [OF assms])
qed

lemma hash_replace_ok:
  assumes "hash_ok h" "card (members h) + 1 < SIZE_MOD"
  shows "\<exists>r h'. hash_replace malloc_ok h e = Some (r, h') \<and> hash_ok h' \<and> same_key h' = same_key h \<and>
    (case r of Some x \<Rightarrow> x \<in> members h \<and> same_key h e x \<and> members h' = insert e (members h - {x})
     | None \<Rightarrow> (\<forall>x\<in>members h. \<not> same_key h e x) \<and> members h' = insert e (members h))"
proof (cases "find_elem h (buckets h ! bucket_idx h e) e")
  case None
  then have new: "\<forall>x\<in>members h. \<not> same_key h e x"
    using find_in_bucket(2) [OF assms(1)] by blast
  note ins = insert_elem_ok [OF assms(1) new assms(2)]
  from rehash_ok [of "insert_elem h (bucket_idx h e) e" malloc_ok] ins None new show ?thesis
    by (auto simp: hash_replace_def hash_ok_bucket [OF assms(1)])
next
  case (Some x)
  define h1 where "h1 = remove_elem h x"
  note x = find_in_bucket(1) [OF assms(1) Some]
  have h1: "hash_ok h1" "members h1 = members h - {x}" "same_key h1 = same_key h" "bucket_idx h1 e = bucket_idx h e"
    using remove_elem_ok [OF assms(1) conjunct1 [OF x]] by (simp_all add: h1_def bucket_idx_def remove_elem_def)
  have uniq: "y = x" if "y \<in> members h" "same_key h e y" for y
  proof -
    have "strict_weak_order (less_fn h)"
      using assms(1) by (simp add: hash_ok_def hash_functions_def)
    then have "same_key h y x"
      using that x by (auto simp: same_key_def dest: strict_weak_order.negtrans)
    with that x assms(1) show ?thesis
      unfolding hash_ok_def by blast
  qed
  then have new: "\<forall>y\<in>members h1. \<not> same_key h1 e y"
    unfolding h1(2,3) by blast
  have "card (members h1) + 1 < SIZE_MOD"
    using assms(2) card_Diff1_le [of "members h" x] by (simp add: h1(2))
  from insert_elem_ok [OF h1(1) new this, unfolded h1(2-4)] have ins: "hash_ok (insert_elem h1 (bucket_idx h e) e)"
    "members (insert_elem h1 (bucket_idx h e) e) = insert e (members h - {x})"
    "same_key (insert_elem h1 (bucket_idx h e) e) = same_key h"
    by simp_all
  from rehash_ok [OF ins(1), of malloc_ok] ins x Some show ?thesis
    by (auto simp: hash_replace_def hash_ok_bucket [OF assms(1)] simp flip: h1_def)
qed

section \<open>Tables as keyed sets\<close>

text \<open>
  The interface under which the supplemental page table uses a hash table: \<open>mems h\<close> is the set of
  elements, no two of which have the same key.
\<close>

locale keyed_table =
  fixes inv :: "'h \<Rightarrow> bool"
    and mems :: "'h \<Rightarrow> 'e set"
    and key :: "'e \<Rightarrow> 'e \<Rightarrow> bool"
    and ins :: "'h \<Rightarrow> 'e \<Rightarrow> ('e option \<times> 'h) option"
    and del :: "'h \<Rightarrow> 'e \<Rightarrow> ('e option \<times> 'h) option"
    and look :: "'h \<Rightarrow> 'e \<Rightarrow> 'e option option"
  assumes key_refl: "inv h \<Longrightarrow> key x x"
    and key_euclid: "inv h \<Longrightarrow> key x y \<Longrightarrow> key x z \<Longrightarrow> key y z"
    and key_unique: "inv h \<Longrightarrow> x \<in> mems h \<Longrightarrow> y \<in> mems h \<Longrightarrow> key x y \<Longrightarrow> x = y"
    and look_spec: "inv h \<Longrightarrow> \<exists>r. look h e = Some r \<and>
      (case r of Some x \<Rightarrow> x \<in> mems h \<and> key e x | None \<Rightarrow> \<forall>x\<in>mems h. \<not> key e x)"
    and ins_spec: "inv h \<Longrightarrow> card (mems h) + 1 < SIZE_MOD \<Longrightarrow> \<exists>r h'. ins h e = Some (r, h') \<and> inv h' \<and>
      (case r of Some x \<Rightarrow> x \<in> mems h \<and> key e x \<and> mems h' = mems h
       | None \<Rightarrow> (\<forall>x\<in>mems h. \<not> key e x) \<and> mems h' = insert e (mems h))"
    and del_spec: "inv h \<Longrightarrow> \<exists>r h'. del h e = Some (r, h') \<and> inv h' \<and>
      (case r of Some x \<Rightarrow> x \<in> mems h \<and> key e x \<and> mems h' = mems h - {x}
       | None \<Rightarrow> (\<forall>x\<in>mems h. \<not> key e x) \<and> mems h' = mems h)"
begin

text \<open>The result of a lookup is determined by the set of elements.\<close>

lemma look_Some: "inv h \<Longrightarrow> x \<in> mems h \<Longrightarrow> key e x \<Longrightarrow> look h e = Some (Some x)"
  using look_spec [of h e] key_unique [of h x] key_euclid [of h e x]
  by (auto split: option.splits)

lemma look_None: "inv h \<Longrightarrow> \<forall>x\<in>mems h. \<not> key e x \<Longrightarrow> look h e = Some None"
  using look_spec [of h e] by (auto split: option.splits)

lemma look_after_ins:
  assumes "inv h" "card (mems h) + 1 < SIZE_MOD" "look h e = Some None"
  shows "\<exists>h'. ins h e = Some (None, h') \<and> inv h' \<and> (\<forall>k. look h' k = (if key k e then Some (Some e) else look h k))"
proof -
  have new: "\<forall>x\<in>mems h. \<not> key e x"
    using look_spec [OF assms(1), of e] assms(3) by auto
  obtain r h' where r: "ins h e = Some (r, h')" "inv h'"
    "case r of Some x \<Rightarrow> x \<in> mems h \<and> key e x \<and> mems h' = mems h
     | None \<Rightarrow> (\<forall>x\<in>mems h. \<not> key e x) \<and> mems h' = insert e (mems h)"
    using ins_spec [OF assms(1,2), of e] by blast
  then have h': "ins h e = Some (None, h')" "inv h'" "mems h' = insert e (mems h)"
    using new by (cases r; auto)+
  have "look h' k = (if key k e then Some (Some e) else look h k)" for k
  proof (cases "key k e")
    case True
    then show ?thesis
      using look_Some [OF h'(2), of e k] h'(3) by simp
  next
    case False
    obtain q where q: "look h k = Some q"
      "case q of Some x \<Rightarrow> x \<in> mems h \<and> key k x | None \<Rightarrow> \<forall>x\<in>mems h. \<not> key k x"
      using look_spec [OF assms(1), of k] by blast
    then show ?thesis
      using False h'(3) look_Some [OF h'(2), of _ k] look_None [OF h'(2), of k] by (cases q) auto
  qed
  with h'(1,2) show ?thesis by blast
qed

lemma look_after_del:
  assumes "inv h"
  shows "\<exists>r h'. look h e = Some r \<and> del h e = Some (r, h') \<and> inv h' \<and>
    (\<forall>k. look h' k = (if key k e then Some None else look h k))"
proof -
  obtain r h' where h': "del h e = Some (r, h')" "inv h'"
    "case r of Some x \<Rightarrow> x \<in> mems h \<and> key e x \<and> mems h' = mems h - {x}
     | None \<Rightarrow> (\<forall>x\<in>mems h. \<not> key e x) \<and> mems h' = mems h"
    using del_spec [OF assms, of e] by blast
  have look_e: "look h e = Some r"
    using h'(3) look_Some [OF assms, of _ e] look_None [OF assms, of e] by (auto split: option.splits)
  have sym: "key y x" if "key x y" for x y
    using key_euclid [OF assms that key_refl [OF assms, of x]] .
  have "look h' k = (if key k e then Some None else look h k)" for k
  proof (cases "key k e")
    case True
    have "\<not> key k x" if "x \<in> mems h'" for x
    proof
      assume "key k x"
      then have ex: "key e x"
        using key_euclid [OF assms True] by blast
      show False
      proof (cases r)
        case None
        then show ?thesis
          using h'(3) that ex by auto
      next
        case (Some y)
        then have "y \<in> mems h" "key e y" "x \<in> mems h" "x \<noteq> y"
          using h'(3) that by auto
        then show ?thesis
          using key_unique [OF assms] key_euclid [OF assms ex] by blast
      qed
    qed
    then show ?thesis
      using True look_None [OF h'(2)] by simp
  next
    case False
    obtain q where q: "look h k = Some q"
      "case q of Some x \<Rightarrow> x \<in> mems h \<and> key k x | None \<Rightarrow> \<forall>x\<in>mems h. \<not> key k x"
      using look_spec [OF assms, of k] by blast
    have stay: "x \<in> mems h'" if "x \<in> mems h" "key k x" for x
    proof -
      have "\<not> key e x"
        using False key_euclid [OF assms sym [OF that(2)]] sym [of e x] by blast
      then show ?thesis
        using that(1) h'(3) by (cases r) auto
    qed
    have sub: "mems h' \<subseteq> mems h"
      using h'(3) by (cases r) auto
    show ?thesis
    proof (cases q)
      case None
      then show ?thesis
        using q sub False look_None [OF h'(2), of k] by auto
    next
      case (Some x)
      then show ?thesis
        using q stay [of x] False look_Some [OF h'(2), of x k] by simp
    qed
  qed
  with h' look_e show ?thesis by blast
qed

end

interpretation hash_set: keyed_table "\<lambda>h. hash_ok h \<and> same_key h = key" members key
  "hash_insert malloc_ok" "hash_delete malloc_ok" hash_find for key malloc_ok
proof unfold_locales
  fix h :: "'a hash_table" and x y z e :: 'a
  assume inv: "hash_ok h \<and> same_key h = key"
  then have ok: "hash_ok h" and k: "same_key h = key"
    by auto
  have swo: "strict_weak_order (less_fn h)"
    using ok by (simp add: hash_ok_def hash_functions_def)
  show "key x x"
    using swo by (simp add: same_key_def strict_weak_order.irrefl flip: k)
  show "key y z" if "key x y" "key x z"
    using that strict_weak_order.negtrans [OF swo] by (auto simp: same_key_def simp flip: k)
  show "x = y" if "x \<in> members h" "y \<in> members h" "key x y"
    using that ok k unfolding hash_ok_def by blast
  show "\<exists>r. hash_find h e = Some r \<and>
      (case r of Some x \<Rightarrow> x \<in> members h \<and> key e x | None \<Rightarrow> \<forall>x\<in>members h. \<not> key e x)"
    using hash_find_ok [OF ok, of e] unfolding k .
  show "\<exists>r h'. hash_delete malloc_ok h e = Some (r, h') \<and> (hash_ok h' \<and> same_key h' = key) \<and>
      (case r of Some x \<Rightarrow> x \<in> members h \<and> key e x \<and> members h' = members h - {x}
       | None \<Rightarrow> (\<forall>x\<in>members h. \<not> key e x) \<and> members h' = members h)"
    using hash_delete_ok [OF ok, of malloc_ok e] unfolding k by blast
  show "\<exists>r h'. hash_insert malloc_ok h e = Some (r, h') \<and> (hash_ok h' \<and> same_key h' = key) \<and>
      (case r of Some x \<Rightarrow> x \<in> members h \<and> key e x \<and> members h' = members h
       | None \<Rightarrow> (\<forall>x\<in>members h. \<not> key e x) \<and> members h' = insert e (members h))"
    if "card (members h) + 1 < SIZE_MOD"
    using hash_insert_ok [OF ok that, of malloc_ok e] unfolding k by blast
qed

section \<open>Iteration\<close>

text \<open>The iteration idiom: advance, stop at the null element, otherwise use the current one.\<close>

partial_function (option) iterate :: "'e hash_table \<Rightarrow> iter \<Rightarrow> 'e list option" where
  "iterate h i = do {
     i \<leftarrow> hash_next h i;
     case hash_cur h i of
       None \<Rightarrow> Some []
     | Some e \<Rightarrow> do { es \<leftarrow> iterate h i; Some (e # es) } }"

lemma hash_next_loop_end:
  assumes "length (buckets h) = bucket_cnt h" "b < bucket_cnt h"
  shows "\<exists>i. hash_next_loop h b (length (buckets h ! b) + 1) = Some i \<and>
    (it_elem i = None \<and> concat (drop (Suc b) (buckets h)) = [] \<or>
     it_elem i = Some 1 \<and> it_bucket i < bucket_cnt h \<and> buckets h ! it_bucket i \<noteq> [] \<and>
       concat (drop (Suc b) (buckets h)) = concat (drop (it_bucket i) (buckets h)))"
  using assms(2)
proof (induction "bucket_cnt h - b" arbitrary: b rule: less_induct)
  case less
  show ?case
  proof (cases "Suc b < bucket_cnt h")
    case False
    then show ?thesis
      using assms(1) less.prems by (subst hash_next_loop.simps) simp
  next
    case True
    then have dr: "drop (Suc b) (buckets h) = buckets h ! Suc b # drop (Suc (Suc b)) (buckets h)"
      using assms(1) by (simp add: Cons_nth_drop_Suc)
    have step: "hash_next_loop h b (length (buckets h ! b) + 1) = hash_next_loop h (Suc b) 1"
      using True by (subst hash_next_loop.simps) simp
    show ?thesis
    proof (cases "buckets h ! Suc b")
      case Nil
      then show ?thesis
        using less.hyps [of "Suc b"] True less.prems diff_less_mono2 [of b "Suc b" "bucket_cnt h"]
        unfolding step dr by simp
    next
      case (Cons x xs)
      then have "hash_next_loop h (Suc b) 1 = Some \<lparr>it_bucket = Suc b, it_elem = Some 1\<rparr>"
        by (subst hash_next_loop.simps) simp
      then show ?thesis
        using True Cons step by simp
    qed
  qed
qed

lemma iterate_from:
  assumes "length (buckets h) = bucket_cnt h" "b < bucket_cnt h" "pos \<le> length (buckets h ! b)"
    "rest = drop pos (buckets h ! b) @ concat (drop (Suc b) (buckets h))"
  shows "iterate h \<lparr>it_bucket = b, it_elem = Some pos\<rparr> = Some rest"
  using assms(2-4)
proof (induction "length rest" arbitrary: b pos rest rule: less_induct)
  case less
  show ?case
  proof (cases "pos < length (buckets h ! b)")
    case True
    let ?i = "\<lparr>it_bucket = b, it_elem = Some (Suc pos)\<rparr>"
    define rest' where "rest' = drop (Suc pos) (buckets h ! b) @ concat (drop (Suc b) (buckets h))"
    have rest: "rest = buckets h ! b ! pos # rest'"
      using True less.prems(3) by (simp add: rest'_def Cons_nth_drop_Suc [symmetric])
    then have IH: "iterate h ?i = Some rest'"
      using less.hyps [OF _ less.prems(1) _ rest'_def] True by simp
    have "hash_next h \<lparr>it_bucket = b, it_elem = Some pos\<rparr> = Some ?i"
      using True by (simp add: hash_next_def hash_next_loop.simps)
    then show ?thesis
      using IH rest by (subst iterate.simps) (simp add: hash_cur_def)
  next
    case False
    then have pos: "pos = length (buckets h ! b)"
      using less.prems(2) by simp
    then have rest0: "rest = concat (drop (Suc b) (buckets h))"
      using less.prems(3) by simp
    obtain i where i: "hash_next_loop h b (length (buckets h ! b) + 1) = Some i"
      "it_elem i = None \<and> rest = [] \<or>
       it_elem i = Some 1 \<and> it_bucket i < bucket_cnt h \<and> buckets h ! it_bucket i \<noteq> [] \<and>
         rest = concat (drop (it_bucket i) (buckets h))"
      using hash_next_loop_end [OF assms(1) less.prems(1)] unfolding rest0 by blast
    have nx: "hash_next h \<lparr>it_bucket = b, it_elem = Some pos\<rparr> = Some i"
      using i(1) pos by (simp add: hash_next_def)
    from i(2) show ?thesis
    proof (elim disjE conjE)
      assume "it_elem i = None" "rest = []"
      then show ?thesis
        using nx by (subst iterate.simps) (simp add: hash_cur_def)
    next
      assume it: "it_elem i = Some 1" "it_bucket i < bucket_cnt h" "buckets h ! it_bucket i \<noteq> []"
        "rest = concat (drop (it_bucket i) (buckets h))"
      define rest' where "rest' = drop 1 (buckets h ! it_bucket i) @ concat (drop (Suc (it_bucket i)) (buckets h))"
      have rest: "rest = hd (buckets h ! it_bucket i) # rest'"
        using it assms(1) by (cases "buckets h ! it_bucket i") (simp_all add: rest'_def Cons_nth_drop_Suc [symmetric])
      have "1 \<le> length (buckets h ! it_bucket i)"
        using it(3) by (simp add: Suc_le_eq)
      then have "iterate h \<lparr>it_bucket = it_bucket i, it_elem = Some 1\<rparr> = Some rest'"
        using less.hyps [OF _ it(2) _ rest'_def] rest by simp
      moreover have "i = \<lparr>it_bucket = it_bucket i, it_elem = Some 1\<rparr>"
        using it(1) by simp
      moreover have "hash_cur h i = Some (hd (buckets h ! it_bucket i))"
        using it by (simp add: hash_cur_def hd_conv_nth)
      ultimately show ?thesis
        using nx rest by (subst iterate.simps) simp
    qed
  qed
qed

section \<open>Properties\<close>

text \<open>A concrete table: keys are natural numbers, hashed by their low bits.\<close>

lemma nat_hash_functions: "hash_functions (<) (\<lambda>n::nat. of_nat n :: u32)"
  by unfold_locales auto

definition sample_table :: "nat hash_table" where
  "sample_table = \<lparr>h_elem_cnt = 2, bucket_cnt = 4, buckets = [[], [5, 1], [], []],
     hash_fn = of_nat, less_fn = (<)\<rparr>"

lemma sample_table_ok: "hash_ok sample_table \<and> same_key sample_table = (=)"
proof -
  have "hash_shape sample_table"
    by (auto simp: hash_shape_def sample_table_def bucket_idx_def less_Suc_eq numeral_eq_Suc intro!: exI [of _ 2])
  then show ?thesis
    using nat_hash_functions
    by (auto simp: hash_ok_def sample_table_def contents_def members_def same_key_def fun_eq_iff)
qed

text \<open>
  C7: every operation of the hash table keeps its invariant, also when the allocation for a new
  bucket array fails: the bucket count stays a power of two, every element stays in the bucket of
  its hash, no two elements have the same key, and the element count is exact. The operations
  always return.
\<close>

theorem hash_invariant:
  assumes "hash_ok h" "card (members h) + 1 < SIZE_MOD"
  shows "(\<exists>r h'. hash_insert malloc_ok h e = Some (r, h') \<and> hash_ok h') \<and>
    (\<exists>r h'. hash_replace malloc_ok h e = Some (r, h') \<and> hash_ok h') \<and>
    (\<exists>r h'. hash_delete malloc_ok h e = Some (r, h') \<and> hash_ok h') \<and>
    hash_ok (fst (hash_clear h destructor s)) \<and> hash_size h = card (members h)"
proof -
  have "contents (fst (hash_clear h destructor s)) = []"
    by (simp add: hash_clear_def contents_def)
  moreover have "hash_shape (fst (hash_clear h destructor s))"
    using assms(1) by (auto simp: hash_ok_def hash_clear_def hash_shape_def)
  ultimately have "hash_ok (fst (hash_clear h destructor s))"
    using assms(1) by (simp add: hash_ok_def members_def) (simp add: hash_clear_def)
  moreover have "hash_size h = card (members h)"
    using assms(1) by (simp add: hash_ok_def hash_size_def members_def distinct_card)
  ultimately show ?thesis
    using hash_insert_ok [OF assms, of malloc_ok e] hash_replace_ok [OF assms, of malloc_ok e]
      hash_delete_ok [OF assms(1), of malloc_ok e] by blast
qed

theorem hash_invariant_witness:
  "hash_ok sample_table \<and> (\<exists>r h'. hash_insert False sample_table 9 = Some (r, h') \<and> hash_ok h') \<and>
   hash_size sample_table = card (members sample_table)"
proof -
  have "card (members sample_table) + 1 < SIZE_MOD"
    by (simp add: members_def contents_def sample_table_def)
  with hash_invariant [OF conjunct1 [OF sample_table_ok], of False 9 None "()"] sample_table_ok show ?thesis
    by blast
qed



text \<open>
  C38: following an iterator from \<^verbatim>\<open>hash_first\<close> with \<^verbatim>\<open>hash_next\<close> until it is null visits every element
  exactly once and ends, and \<^verbatim>\<open>hash_apply\<close> calls its action in the same order.
\<close>

theorem hash_iteration_complete:
  assumes "hash_ok h"
  shows "\<exists>es. iterate h hash_first = Some es \<and> distinct es \<and> set es = members h \<and>
    hash_apply h action s = fold action es s"
proof -
  have shape: "length (buckets h) = bucket_cnt h" "0 < bucket_cnt h"
    using assms by (auto simp: hash_ok_def hash_shape_def)
  have "contents h = drop 0 (buckets h ! 0) @ concat (drop (Suc 0) (buckets h))"
    using shape by (cases "buckets h") (simp_all add: contents_def)
  from iterate_from [OF shape _ this] have it: "iterate h hash_first = Some (contents h)"
    by (simp add: hash_first_def)
  have "fold (\<lambda>b s. fold action b s) bs s = fold action (concat bs) s" for bs
    by (induction bs arbitrary: s) simp_all
  with it assms show ?thesis
    by (auto simp: hash_apply_def contents_def hash_ok_def members_def)
qed

theorem hash_iteration_complete_witness:
  "\<exists>es. iterate sample_table hash_first = Some es \<and> distinct es \<and> set es = {1, 5}"
  using hash_iteration_complete [OF conjunct1 [OF sample_table_ok], of "\<lambda>_ s. s" "()"]
  by (auto simp: members_def contents_def sample_table_def)

end
