(* ===== verification/Intq.thy ===== *)
theory Intq
  imports Prelude
begin

text \<open>
  The interrupt queue of \<^verbatim>\<open>devices/intq.c\<close>: a ring buffer of bytes between interrupt handlers and
  threads. A call that has to wait ends in \<open>Blocked\<close>, with the calling thread recorded as the
  waiter; the caller runs the call again when it is woken, which is the \<^verbatim>\<open>while\<close> loop of the source.
  A completed call returns the thread it wakes, if any. The queue is shown to be a bounded
  first-in first-out buffer of \<open>INTQ_BUFSIZE - 1\<close> bytes.
\<close>

section \<open>Definitions\<close>

definition INTQ_BUFSIZE :: nat where "INTQ_BUFSIZE = 64"

type_synonym tid = nat

record intq =
  not_full :: "tid option"
  not_empty :: "tid option"
  buf :: "u8 list"
  head :: nat
  tail :: nat

text \<open>What the calls read of the processor: whether interrupts are off, whether an external
  interrupt is being handled, and the running thread.\<close>

record cpu =
  intr_off :: bool
  intr_context :: bool
  current :: tid

datatype 'a outcome = Done 'a | Blocked intq

definition next_pos :: "nat \<Rightarrow> nat" where
  "next_pos pos = (pos + 1) mod INTQ_BUFSIZE"

definition intq_init :: "u8 list \<Rightarrow> intq" where
  "intq_init b = \<lparr>not_full = None, not_empty = None, buf = b, head = 0, tail = 0\<rparr>"

definition intq_empty :: "cpu \<Rightarrow> intq \<Rightarrow> bool option" where
  "intq_empty c q = do { ASSERT (intr_off c); Some (head q = tail q) }"

definition intq_full :: "cpu \<Rightarrow> intq \<Rightarrow> bool option" where
  "intq_full c q = do { ASSERT (intr_off c); Some (next_pos (head q) = tail q) }"

text \<open>\<^verbatim>\<open>wait\<close> and \<^verbatim>\<open>signal\<close> take the address of a member; the two addresses are two functions here.\<close>

definition wait_not_empty :: "cpu \<Rightarrow> intq \<Rightarrow> intq option" where
  "wait_not_empty c q = do {
     ASSERT (\<not> intr_context c);
     ASSERT (intr_off c);
     e \<leftarrow> intq_empty c q;
     ASSERT e;
     Some (q\<lparr>not_empty := Some (current c)\<rparr>) }"

definition wait_not_full :: "cpu \<Rightarrow> intq \<Rightarrow> intq option" where
  "wait_not_full c q = do {
     ASSERT (\<not> intr_context c);
     ASSERT (intr_off c);
     f \<leftarrow> intq_full c q;
     ASSERT f;
     Some (q\<lparr>not_full := Some (current c)\<rparr>) }"

definition signal_not_empty :: "cpu \<Rightarrow> intq \<Rightarrow> (tid option \<times> intq) option" where
  "signal_not_empty c q = do {
     ASSERT (intr_off c);
     e \<leftarrow> intq_empty c q;
     ASSERT (\<not> e);
     Some (if not_empty q \<noteq> None then (not_empty q, q\<lparr>not_empty := None\<rparr>) else (None, q)) }"

definition signal_not_full :: "cpu \<Rightarrow> intq \<Rightarrow> (tid option \<times> intq) option" where
  "signal_not_full c q = do {
     ASSERT (intr_off c);
     f \<leftarrow> intq_full c q;
     ASSERT (\<not> f);
     Some (if not_full q \<noteq> None then (not_full q, q\<lparr>not_full := None\<rparr>) else (None, q)) }"

definition intq_getc :: "cpu \<Rightarrow> intq \<Rightarrow> (u8 \<times> tid option \<times> intq) outcome option" where
  "intq_getc c q = do {
     ASSERT (intr_off c);
     e \<leftarrow> intq_empty c q;
     if e then do {
       ASSERT (\<not> intr_context c);
       q \<leftarrow> wait_not_empty c q;
       Some (Blocked q) }
     else do {
       let byte = buf q ! tail q;
       let q = q\<lparr>tail := next_pos (tail q)\<rparr>;
       (woken, q) \<leftarrow> signal_not_full c q;
       Some (Done (byte, woken, q)) } }"

definition intq_putc :: "cpu \<Rightarrow> intq \<Rightarrow> u8 \<Rightarrow> (tid option \<times> intq) outcome option" where
  "intq_putc c q byte = do {
     ASSERT (intr_off c);
     f \<leftarrow> intq_full c q;
     if f then do {
       ASSERT (\<not> intr_context c);
       q \<leftarrow> wait_not_full c q;
       Some (Blocked q) }
     else do {
       let q = q\<lparr>buf := (buf q)[head q := byte]\<rparr>;
       let q = q\<lparr>head := next_pos (head q)\<rparr>;
       (woken, q) \<leftarrow> signal_not_empty c q;
       Some (Done (woken, q)) } }"

section \<open>The queue held by the ring\<close>

definition intq_len :: "intq \<Rightarrow> nat" where
  "intq_len q = (head q + INTQ_BUFSIZE - tail q) mod INTQ_BUFSIZE"

definition intq_rep :: "intq \<Rightarrow> u8 list \<Rightarrow> bool" where
  "intq_rep q xs \<longleftrightarrow> head q < INTQ_BUFSIZE \<and> tail q < INTQ_BUFSIZE \<and> length (buf q) = INTQ_BUFSIZE \<and>
     length xs = intq_len q \<and> (\<forall>i<length xs. xs ! i = buf q ! ((tail q + i) mod INTQ_BUFSIZE))"

lemma intq_len_0: "head q < 64 \<Longrightarrow> tail q < 64 \<Longrightarrow> intq_len q = 0 \<longleftrightarrow> head q = tail q"
  by (auto simp: intq_len_def INTQ_BUFSIZE_def mod_if)

lemma intq_len_full: "head q < 64 \<Longrightarrow> tail q < 64 \<Longrightarrow> next_pos (head q) = tail q \<longleftrightarrow> intq_len q = 63"
  by (auto simp: intq_len_def next_pos_def INTQ_BUFSIZE_def mod_if split: if_splits)

lemma intq_len_less: "intq_len q < 64"
  by (simp add: intq_len_def INTQ_BUFSIZE_def)

lemma next_pos_less: "next_pos p < 64"
  by (simp add: next_pos_def INTQ_BUFSIZE_def)

lemma intq_len_put:
  "head q < 64 \<Longrightarrow> tail q < 64 \<Longrightarrow> intq_len q < 63 \<Longrightarrow>
   intq_len (q\<lparr>buf := b, head := next_pos (head q)\<rparr>) = Suc (intq_len q)"
  by (auto simp: intq_len_def next_pos_def INTQ_BUFSIZE_def mod_if split: if_splits)

lemma intq_len_get:
  "head q < 64 \<Longrightarrow> tail q < 64 \<Longrightarrow> 0 < intq_len q \<Longrightarrow> Suc (intq_len (q\<lparr>tail := next_pos (tail q)\<rparr>)) = intq_len q"
  by (auto simp: intq_len_def next_pos_def INTQ_BUFSIZE_def mod_if split: if_splits)

lemma head_index: "head q < 64 \<Longrightarrow> tail q < 64 \<Longrightarrow> (tail q + intq_len q) mod 64 = head q"
  by (auto simp: intq_len_def INTQ_BUFSIZE_def mod_if split: if_splits)

lemma ring_index_inj:
  "t < 64 \<Longrightarrow> i < j \<Longrightarrow> j < 64 \<Longrightarrow> (t + i) mod 64 \<noteq> (t + j) mod (64::nat)"
  by (auto simp: mod_if split: if_splits)

lemma intq_rep_put:
  assumes "intq_rep q xs" "length xs < 63"
  shows "intq_rep (q\<lparr>buf := (buf q)[head q := byte], head := next_pos (head q)\<rparr>) (xs @ [byte])"
proof -
  have q: "head q < 64" "tail q < 64" "length (buf q) = 64" "length xs = intq_len q"
    "\<forall>i<length xs. xs ! i = buf q ! ((tail q + i) mod 64)"
    using assms(1) by (auto simp: intq_rep_def INTQ_BUFSIZE_def)
  have "(xs @ [byte]) ! i = (buf q)[head q := byte] ! ((tail q + i) mod 64)" if "i < Suc (length xs)" for i
  proof (cases "i = length xs")
    case True
    then show ?thesis
      using head_index [OF q(1,2)] q by (simp add: nth_append)
  next
    case False
    then have "(tail q + i) mod 64 \<noteq> head q"
      using ring_index_inj [of "tail q" i "intq_len q"] head_index [OF q(1,2)] that q assms(2) by simp
    then show ?thesis
      using that False q(5) by (simp add: nth_append)
  qed
  then show ?thesis
    using q intq_len_put [OF q(1,2), of "(buf q)[head q := byte]"] assms(2) next_pos_less
    by (simp add: intq_rep_def INTQ_BUFSIZE_def)
qed

lemma intq_rep_get:
  assumes "intq_rep q (x # xs)"
  shows "buf q ! tail q = x" "intq_rep (q\<lparr>tail := next_pos (tail q)\<rparr>) xs"
proof -
  have q: "head q < 64" "tail q < 64" "length (buf q) = 64" "Suc (length xs) = intq_len q"
    "\<forall>i<Suc (length xs). (x # xs) ! i = buf q ! ((tail q + i) mod 64)"
    using assms by (auto simp: intq_rep_def INTQ_BUFSIZE_def)
  show "buf q ! tail q = x"
    using q(2) spec [OF q(5), of 0] by simp
  have "xs ! i = buf q ! ((next_pos (tail q) + i) mod 64)" if "i < length xs" for i
    using spec [OF q(5), of "Suc i"] that by (simp add: next_pos_def INTQ_BUFSIZE_def mod_simps)
  then show "intq_rep (q\<lparr>tail := next_pos (tail q)\<rparr>) xs"
    using q intq_len_get [OF q(1,2)] next_pos_less by (simp add: intq_rep_def INTQ_BUFSIZE_def)
qed

text \<open>The state of the ring matters only up to the recorded waiters.\<close>

lemma intq_rep_waiters [simp]:
  "intq_rep (q\<lparr>not_empty := w\<rparr>) xs = intq_rep q xs" "intq_rep (q\<lparr>not_full := w\<rparr>) xs = intq_rep q xs"
  by (simp_all add: intq_rep_def intq_len_def)

lemma intq_empty_rep: "intq_rep q xs \<Longrightarrow> head q = tail q \<longleftrightarrow> xs = []"
  using intq_len_0 [of q] by (auto simp: intq_rep_def INTQ_BUFSIZE_def)

lemma intq_full_rep: "intq_rep q xs \<Longrightarrow> next_pos (head q) = tail q \<longleftrightarrow> length xs = 63"
  using intq_len_full [of q] by (auto simp: intq_rep_def INTQ_BUFSIZE_def)

lemma intq_putc_ok:
  assumes "intr_off c" "intq_rep q xs" "length xs < 63"
  shows "\<exists>q'. intq_putc c q byte = Some (Done (not_empty q, q')) \<and> intq_rep q' (xs @ [byte]) \<and>
    not_empty q' = None \<and> not_full q' = not_full q"
proof -
  let ?q = "q\<lparr>buf := (buf q)[head q := byte], head := next_pos (head q)\<rparr>"
  have "intq_rep ?q (xs @ [byte])"
    by (rule intq_rep_put [OF assms(2,3)])
  moreover from intq_empty_rep [OF this] have "head ?q \<noteq> tail ?q"
    by simp
  ultimately show ?thesis
    using assms intq_full_rep [OF assms(2)]
    by (cases "not_empty q") (auto simp: intq_putc_def intq_full_def intq_empty_def signal_not_empty_def Let_def)
qed

lemma intq_getc_ok:
  assumes "intr_off c" "intq_rep q (x # xs)"
  shows "\<exists>q'. intq_getc c q = Some (Done (x, not_full q, q')) \<and> intq_rep q' xs \<and>
    not_full q' = None \<and> not_empty q' = not_empty q"
proof -
  let ?q = "q\<lparr>tail := next_pos (tail q)\<rparr>"
  have "intq_rep ?q xs" "length xs < 63"
    using intq_rep_get(2) [OF assms(2)] assms(2) intq_len_less [of q] by (auto simp: intq_rep_def)
  moreover have "next_pos (head ?q) \<noteq> tail ?q"
    using intq_full_rep [OF \<open>intq_rep ?q xs\<close>] \<open>length xs < 63\<close> by simp
  ultimately show ?thesis
    using assms intq_rep_get(1) [OF assms(2)] intq_empty_rep [OF assms(2)]
    by (cases "not_full q") (auto simp: intq_getc_def intq_full_def intq_empty_def signal_not_full_def Let_def)
qed

section \<open>Properties\<close>

text \<open>Calls that complete, as queue operations.\<close>

definition putc_done :: "cpu \<Rightarrow> intq \<Rightarrow> u8 \<Rightarrow> intq option" where
  "putc_done c q byte = (case intq_putc c q byte of Some (Done (_, q)) \<Rightarrow> Some q | _ \<Rightarrow> None)"

definition getc_done :: "cpu \<Rightarrow> intq \<Rightarrow> (u8 \<times> intq) option" where
  "getc_done c q = (case intq_getc c q of Some (Done (byte, _, q)) \<Rightarrow> Some (byte, q) | _ \<Rightarrow> None)"

definition off_cpu :: cpu where
  "off_cpu = \<lparr>intr_off = True, intr_context = True, current = 1\<rparr>"

interpretation byte_queue: fifo intq_rep "\<lambda>_ xs. length xs < 63" "putc_done off_cpu" "getc_done off_cpu"
proof unfold_locales
  have off: "intr_off off_cpu"
    by (simp add: off_cpu_def)
  show "\<exists>s'. putc_done off_cpu s e = Some s' \<and> intq_rep s' (xs @ [e])" if "intq_rep s xs" "length xs < 63" for s xs e
    using intq_putc_ok [OF off that, of e] by (auto simp: putc_done_def)
  show "\<exists>s'. getc_done off_cpu s = Some (x, s') \<and> intq_rep s' xs" if "intq_rep s (x # xs)" for s x xs
    using intq_getc_ok [OF off that] by (auto simp: getc_done_def)
qed


lemma intq_init_rep: "length b = 64 \<Longrightarrow> intq_rep (intq_init b) []"
  by (simp add: intq_rep_def intq_init_def intq_len_def INTQ_BUFSIZE_def)




end
