(* ===== verification/Krandom.thy ===== *)
theory Krandom
  imports Prelude
begin

text \<open>
  The RC4 generator of \<^verbatim>\<open>lib/random.c\<close>. Its state stays a permutation of the 256 bytes, so every
  index it computes is inside the table.
\<close>

section \<open>Definitions\<close>

record rc4 =
  rc_s :: "u8 list"
  rc_i :: u8
  rc_j :: u8
  inited :: bool

definition swap_byte :: "u8 list \<Rightarrow> nat \<Rightarrow> nat \<Rightarrow> u8 list" where
  "swap_byte s a b = (let t = s ! a; s' = s[a := s ! b] in s'[b := t])"

text \<open>The four bytes of the seed in memory order.\<close>

definition seed_byte :: "u32 \<Rightarrow> nat \<Rightarrow> u8" where
  "seed_byte seed k = ucast (drop_bit (8 * k) seed)"

fun random_init_loop :: "u32 \<Rightarrow> nat list \<Rightarrow> u8 list \<Rightarrow> u8 \<Rightarrow> u8 list" where
  "random_init_loop seed [] s j = s"
| "random_init_loop seed (i # is) s j =
     (let j = j + (s ! i + seed_byte seed (i mod 4))
      in random_init_loop seed is (swap_byte s i (unat j)) j)"

definition random_init :: "u32 \<Rightarrow> rc4" where
  "random_init seed =
     \<lparr>rc_s = random_init_loop seed [0..<256] (map of_nat [0..<256]) 0, rc_i = 0, rc_j = 0, inited = True\<rparr>"

fun random_bytes_loop :: "rc4 \<Rightarrow> nat \<Rightarrow> u8 list \<times> rc4" where
  "random_bytes_loop r 0 = ([], r)"
| "random_bytes_loop r (Suc n) =
     (let i = rc_i r + 1;
          j = rc_j r + rc_s r ! unat i;
          s = swap_byte (rc_s r) (unat i) (unat j);
          s_k = s ! unat i + s ! unat j;
          (bs, r') = random_bytes_loop (r\<lparr>rc_s := s, rc_i := i, rc_j := j\<rparr>) n
      in (s ! unat s_k # bs, r'))"

definition random_bytes :: "rc4 \<Rightarrow> nat \<Rightarrow> u8 list \<times> rc4" where
  "random_bytes r n = random_bytes_loop (if \<not> inited r then random_init 0 else r) n"

definition random_ulong :: "rc4 \<Rightarrow> u32 \<times> rc4" where
  "random_ulong r =
     (let (bs, r) = random_bytes r 4
      in (ucast (bs ! 0) OR push_bit 8 (ucast (bs ! 1)) OR push_bit 16 (ucast (bs ! 2)) OR
          push_bit 24 (ucast (bs ! 3)), r))"

section \<open>The table stays a permutation\<close>

definition byte_perm :: "u8 list \<Rightarrow> bool" where
  "byte_perm s \<longleftrightarrow> length s = 256 \<and> mset s = mset (map of_nat [0..<256])"

lemma unat_u8_less: "unat (b::u8) < 256"
  using unsigned_less [of b, where ?'a = nat] by simp

lemma swap_byte_perm: "byte_perm s \<Longrightarrow> i < 256 \<Longrightarrow> j < 256 \<Longrightarrow> byte_perm (swap_byte s i j)"
  using mset_swap [of j s i] by (simp add: byte_perm_def swap_byte_def Let_def)

lemma random_init_loop_perm:
  "byte_perm s \<Longrightarrow> \<forall>i\<in>set is. i < 256 \<Longrightarrow> byte_perm (random_init_loop seed is s j)"
proof (induction "is" arbitrary: s j)
  case (Cons i "is")
  then show ?case
    by (simp add: Let_def swap_byte_perm unat_u8_less)
qed simp

lemma random_init_perm: "byte_perm (rc_s (random_init seed)) \<and> inited (random_init seed)"
  using random_init_loop_perm [of "map of_nat [0..<256]" "[0..<256]" seed 0]
  by (simp add: random_init_def) (simp add: byte_perm_def)

lemma random_bytes_loop_perm:
  "byte_perm (rc_s r) \<Longrightarrow> byte_perm (rc_s (snd (random_bytes_loop r n))) \<and> length (fst (random_bytes_loop r n)) = n \<and>
    inited (snd (random_bytes_loop r n)) = inited r"
proof (induction n arbitrary: r)
  case (Suc n)
  then show ?case
    using swap_byte_perm [OF Suc.prems unat_u8_less unat_u8_less] by (simp add: Let_def case_prod_beta)
qed simp

text \<open>
  from any seed, and after any number of calls, the state table of the generator is a
  permutation of the byte values; a call for \<open>n\<close> bytes delivers \<open>n\<close> bytes and an uninitialised
  generator is first seeded with 0.
\<close>

theorem random_state_permutation:
  assumes "inited r \<longrightarrow> byte_perm (rc_s r)"
  shows "length (fst (random_bytes r n)) = n \<and> byte_perm (rc_s (snd (random_bytes r n))) \<and>
    inited (snd (random_bytes r n)) \<and> byte_perm (rc_s (random_init seed)) \<and>
    (\<forall>b::u8. unat b < length (rc_s (snd (random_bytes r n))))"
proof -
  have r: "byte_perm (rc_s (if \<not> inited r then random_init 0 else r))" "inited (if \<not> inited r then random_init 0 else r)"
    using assms random_init_perm by auto
  have "byte_perm (rc_s (snd (random_bytes r n)))" "length (fst (random_bytes r n)) = n" "inited (snd (random_bytes r n))"
    using random_bytes_loop_perm [OF r(1), of n] r(2) by (auto simp: random_bytes_def)
  then show ?thesis
    using random_init_perm unat_u8_less by (simp add: byte_perm_def)
qed

theorem random_state_permutation_witness:
  "length (fst (random_bytes \<lparr>rc_s = [], rc_i = 0, rc_j = 0, inited = False\<rparr> 5)) = 5"
proof -
  have "inited \<lparr>rc_s = [], rc_i = 0, rc_j = 0, inited = False\<rparr> \<longrightarrow>
      byte_perm (rc_s \<lparr>rc_s = [], rc_i = 0, rc_j = 0, inited = False\<rparr>)"
    by simp
  from random_state_permutation [OF this, where n = 5] show ?thesis by blast
qed

end
