(* ===== verification/Vaddr.thy ===== *)
theory Vaddr
  imports Prelude
begin

text \<open>
  Virtual addresses and page-table entries: \<^verbatim>\<open>threads/vaddr.h\<close> and \<^verbatim>\<open>threads/pte.h\<close> on 32-bit words.
  The lemmas give the arithmetic meaning of the masks and shifts and the round trips between addresses,
  page numbers and entries.
\<close>

section \<open>Addresses\<close>

definition BITMASK :: "nat \<Rightarrow> nat \<Rightarrow> u32" where
  "BITMASK shift cnt = push_bit shift (push_bit cnt 1 - 1)"

definition PGBITS :: nat where "PGBITS = 12"
definition PGSIZE :: nat where "PGSIZE = 2 ^ PGBITS"
definition PGMASK :: u32 where "PGMASK = BITMASK 0 PGBITS"
definition PHYS_BASE :: u32 where "PHYS_BASE = 0xc0000000"

definition pg_ofs :: "u32 \<Rightarrow> u32" where
  "pg_ofs va = va AND PGMASK"

definition pg_no :: "u32 \<Rightarrow> u32" where
  "pg_no va = drop_bit PGBITS va"

definition pg_round_up :: "u32 \<Rightarrow> u32" where
  "pg_round_up va = (va + of_nat PGSIZE - 1) AND NOT PGMASK"

definition pg_round_down :: "u32 \<Rightarrow> u32" where
  "pg_round_down va = va AND NOT PGMASK"

definition is_user_vaddr :: "u32 \<Rightarrow> bool" where
  "is_user_vaddr vaddr \<longleftrightarrow> vaddr < PHYS_BASE"

definition is_kernel_vaddr :: "u32 \<Rightarrow> bool" where
  "is_kernel_vaddr vaddr \<longleftrightarrow> vaddr \<ge> PHYS_BASE"

definition ptov :: "u32 \<Rightarrow> u32 option" where
  "ptov paddr = do { ASSERT (paddr < PHYS_BASE); Some (paddr + PHYS_BASE) }"

definition vtop :: "u32 \<Rightarrow> u32 option" where
  "vtop vaddr = do { ASSERT (is_kernel_vaddr vaddr); Some (vaddr - PHYS_BASE) }"

section \<open>Page-table entries\<close>

definition PTBITS :: nat where "PTBITS = 10"
definition PTSHIFT :: nat where "PTSHIFT = PGBITS"
definition PDSHIFT :: nat where "PDSHIFT = PTSHIFT + PTBITS"
definition PTMASK :: u32 where "PTMASK = BITMASK PTSHIFT PTBITS"

definition pt_no :: "u32 \<Rightarrow> u32" where
  "pt_no va = drop_bit PTSHIFT (va AND PTMASK)"

definition pd_no :: "u32 \<Rightarrow> u32" where
  "pd_no va = drop_bit PDSHIFT va"

definition PTE_ADDR :: u32 where "PTE_ADDR = 0xfffff000"
definition PTE_P :: u32 where "PTE_P = 0x1"
definition PTE_W :: u32 where "PTE_W = 0x2"
definition PTE_U :: u32 where "PTE_U = 0x4"
definition PTE_A :: u32 where "PTE_A = 0x20"
definition PTE_D :: u32 where "PTE_D = 0x40"

definition pde_create :: "u32 \<Rightarrow> u32 option" where
  "pde_create pt = do {
     ASSERT (pg_ofs pt = 0);
     p \<leftarrow> vtop pt;
     Some (p OR PTE_U OR PTE_P OR PTE_W) }"

definition pde_get_pt :: "u32 \<Rightarrow> u32 option" where
  "pde_get_pt pde = do { ASSERT (pde AND PTE_P \<noteq> 0); ptov (pde AND PTE_ADDR) }"

definition pte_create_kernel :: "u32 \<Rightarrow> bool \<Rightarrow> u32 option" where
  "pte_create_kernel page writable = do {
     ASSERT (pg_ofs page = 0);
     p \<leftarrow> vtop page;
     Some (p OR PTE_P OR (if writable then PTE_W else 0)) }"

definition pte_create_user :: "u32 \<Rightarrow> bool \<Rightarrow> u32 option" where
  "pte_create_user page writable = do { p \<leftarrow> pte_create_kernel page writable; Some (p OR PTE_U) }"

definition pte_get_page :: "u32 \<Rightarrow> u32 option" where
  "pte_get_page pte = ptov (pte AND PTE_ADDR)"

section \<open>Arithmetic of addresses\<close>

lemma u32_less: "unat (w :: u32) < 4294967296"
  by (rule order_less_le_trans [OF unsigned_less]) simp

lemma u32_of_nat: "n < 4294967296 \<Longrightarrow> unat (of_nat n :: u32) = n"
  by (simp add: unat_of_nat)

lemma PGMASK_mask: "PGMASK = mask 12"
  by (simp add: PGMASK_def BITMASK_def PGBITS_def mask_eq_exp_minus_1)

lemma PTMASK_mask: "PTMASK = push_bit 12 (mask 10)"
  by (simp add: PTMASK_def BITMASK_def PTSHIFT_def PTBITS_def PGBITS_def mask_eq_exp_minus_1)

lemma PTE_ADDR_mask: "PTE_ADDR = NOT (mask 12)"
  by (simp add: PTE_ADDR_def mask_eq_exp_minus_1)

lemma pg_ofs_take_bit: "pg_ofs va = take_bit 12 va"
  by (simp add: pg_ofs_def PGMASK_mask take_bit_eq_mask)

lemma unat_pg_ofs: "unat (pg_ofs va) = unat va mod PGSIZE"
  by (simp add: pg_ofs_take_bit take_bit_eq_mod unat_mod PGSIZE_def PGBITS_def)

lemma unat_pg_no: "unat (pg_no va) = unat va div PGSIZE"
  by (simp add: pg_no_def PGSIZE_def PGBITS_def drop_bit_eq_div unat_div)

lemma unat_pd_no: "unat (pd_no va) = unat va div (1024 * PGSIZE)"
  by (simp add: pd_no_def PDSHIFT_def PTSHIFT_def PTBITS_def PGSIZE_def PGBITS_def drop_bit_eq_div unat_div)

lemma pt_no_take_bit: "pt_no va = take_bit 10 (drop_bit 12 va)"
  unfolding pt_no_def PTMASK_mask PTSHIFT_def PGBITS_def
  by (rule bit_word_eqI) (auto simp: bit_simps)

lemma unat_pt_no: "unat (pt_no va) = unat va div PGSIZE mod 1024"
  by (simp add: pt_no_take_bit PGSIZE_def PGBITS_def drop_bit_eq_div unat_div take_bit_eq_mod unat_mod)

lemma pg_round_down_bits: "pg_round_down va = push_bit 12 (drop_bit 12 va)"
  unfolding pg_round_down_def PGMASK_mask by (rule bit_word_eqI) (auto simp: bit_simps)

lemma unat_pg_round_down: "unat (pg_round_down va) = unat va div PGSIZE * PGSIZE"
proof -
  have "unat (drop_bit 12 va) * 2 ^ 12 \<le> unat va"
    by (simp add: drop_bit_eq_div unat_div)
  then have "unat (push_bit 12 (drop_bit 12 va)) = unat (drop_bit 12 va) * 2 ^ 12"
    using u32_less [of va] by (simp add: push_bit_eq_mult unat_word_ariths)
  then show ?thesis
    by (simp add: pg_round_down_bits PGSIZE_def PGBITS_def drop_bit_eq_div unat_div)
qed

lemma unat_pg_round_up:
  assumes "unat va + PGSIZE \<le> 2 ^ 32"
  shows "unat (pg_round_up va) = ROUND_UP (unat va) PGSIZE"
proof -
  have s: "unat (va + of_nat PGSIZE - 1) = unat va + PGSIZE - 1"
  proof -
    have "va + of_nat PGSIZE - 1 = of_nat (unat va + PGSIZE - 1)"
      by (simp add: PGSIZE_def PGBITS_def)
    then show ?thesis
      using assms u32_of_nat [of "unat va + PGSIZE - 1"] by (simp add: PGSIZE_def PGBITS_def)
  qed
  have "pg_round_up va = pg_round_down (va + of_nat PGSIZE - 1)"
    by (simp add: pg_round_up_def pg_round_down_def)
  then show ?thesis
    using s by (simp add: unat_pg_round_down ROUND_UP_def)
qed

lemma pg_aligned: "pg_ofs (pg_round_down va) = 0"
  unfolding pg_ofs_take_bit pg_round_down_bits by (rule bit_word_eqI) (auto simp: bit_simps)

section \<open>Round trips\<close>

lemma vtop_ptov:
  assumes "is_kernel_vaddr va"
  shows "\<exists>p. vtop va = Some p \<and> p < 0x40000000 \<and> ptov p = Some va"
proof -
  have b: "0xc0000000 \<le> unat va" "unat va < 2 ^ 32"
    using assms unsigned_less [of va] by (auto simp: is_kernel_vaddr_def PHYS_BASE_def word_le_nat_alt)
  then have "unat (va - 0xc0000000) = unat va - 0xc0000000"
    using assms by (simp add: unat_sub is_kernel_vaddr_def PHYS_BASE_def)
  then have "va - 0xc0000000 < 0x40000000" "va - 0xc0000000 < 0xc0000000"
    using b by (simp_all add: word_less_nat_alt)
  then show ?thesis
    using assms by (simp add: vtop_def ptov_def PHYS_BASE_def)
qed

lemma and_PTE_ADDR: "w AND PTE_ADDR = pg_round_down w"
  by (simp add: pg_round_down_def PGMASK_mask PTE_ADDR_mask)

lemma pg_round_down_id: "pg_ofs w = 0 \<Longrightarrow> pg_round_down w = w"
  using bits_ident [of 12 w] by (simp add: pg_ofs_take_bit pg_round_down_bits)

lemma pg_round_down_flags: "unat f < PGSIZE \<Longrightarrow> pg_round_down (w OR f) = pg_round_down w"
proof -
  assume "unat f < PGSIZE"
  then have "unat f div 4096 = 0"
    by (simp add: PGSIZE_def PGBITS_def)
  then have "drop_bit 12 f = 0"
    by (simp add: drop_bit_eq_div unat_div flip: unat_eq_0)
  then show ?thesis
    by (simp add: pg_round_down_bits drop_bit_or)
qed

lemma vtop_aligned:
  assumes "pg_ofs va = 0" "vtop va = Some p"
  shows "pg_ofs p = 0"
proof -
  have k: "is_kernel_vaddr va" and p: "p = va - PHYS_BASE"
    using assms(2) by (auto simp: vtop_def split: if_splits)
  have "unat va mod 4096 = 0"
    using assms(1) unat_pg_ofs [of va] by (simp add: PGSIZE_def PGBITS_def)
  moreover have "unat p = unat va - 0xc0000000" "0xc0000000 \<le> unat va"
    using k p by (simp_all add: unat_sub is_kernel_vaddr_def PHYS_BASE_def word_le_nat_alt)
  ultimately have "unat p mod 4096 = 0"
    using mod_mult_self1 [of "unat p" 786432 4096] by simp
  then have "unat (pg_ofs p) = 0"
    by (simp add: unat_pg_ofs PGSIZE_def PGBITS_def)
  then show ?thesis
    by (simp only: unsigned_eq_0_iff)
qed

lemma entry_round_trip:
  assumes "is_kernel_vaddr page" "pg_ofs page = 0" "unat f < PGSIZE"
  shows "\<exists>p. vtop page = Some p \<and> ptov ((p OR f) AND PTE_ADDR) = Some page \<and> p AND mask 12 = 0"
proof -
  obtain p where p: "vtop page = Some p" "ptov p = Some page"
    using vtop_ptov [OF assms(1)] by blast
  have o: "pg_ofs p = 0"
    using vtop_aligned [OF assms(2) p(1)] .
  have "(p OR f) AND PTE_ADDR = p"
    using pg_round_down_flags [OF assms(3)] pg_round_down_id [OF o] by (simp add: and_PTE_ADDR)
  moreover have "p AND mask 12 = 0"
    using o by (simp add: pg_ofs_def PGMASK_mask)
  ultimately show ?thesis
    using p by simp
qed

lemma low_bit_or:
  assumes "(p :: u32) AND mask 12 = 0" "n < 12"
  shows "\<not> bit p n"
proof -
  have "bit (p AND mask 12) n \<longleftrightarrow> bit p n"
    using assms(2) by (simp add: bit_simps)
  then show ?thesis
    using assms(1) by simp
qed

lemma and_single_bit: "(w :: u32) AND 2 ^ n \<noteq> 0 \<longleftrightarrow> n < 32 \<and> bit w n"
proof
  assume "w AND 2 ^ n \<noteq> 0"
  then obtain m where "bit (w AND 2 ^ n) m"
    by (metis bit_0_eq bit_word_eqI bot_apply bot_bool_def)
  then show "n < 32 \<and> bit w n"
    by (auto simp: bit_simps)
next
  assume "n < 32 \<and> bit w n"
  then have "bit (w AND 2 ^ n) n"
    by (auto simp: bit_simps)
  then show "w AND 2 ^ n \<noteq> 0"
    by auto
qed

lemma flag_bits: "PTE_P = 2 ^ 0" "PTE_W = 2 ^ 1" "PTE_U = 2 ^ 2" "PTE_A = 2 ^ 5" "PTE_D = 2 ^ 6"
  by (simp_all add: PTE_P_def PTE_W_def PTE_U_def PTE_A_def PTE_D_def)

definition user_flags :: "bool \<Rightarrow> u32" where
  "user_flags w = PTE_P OR ((if w then PTE_W else 0) OR PTE_U)"

lemma user_flags_small: "unat (user_flags w) < PGSIZE"
  by (cases w) (simp_all add: user_flags_def PTE_U_def PTE_P_def PTE_W_def PGSIZE_def PGBITS_def)

lemma user_flags_bits:
  assumes "(p :: u32) AND mask 12 = 0"
  shows "bit (p OR user_flags w) 0" "bit (p OR user_flags w) 2" "bit (p OR user_flags w) 1 = w"
    "\<not> bit (p OR user_flags w) 5" "\<not> bit (p OR user_flags w) 6"
proof -
  have "bit (user_flags w) 0" "bit (user_flags w) 2" "bit (user_flags w) 1 = w"
      "\<not> bit (user_flags w) 5" "\<not> bit (user_flags w) 6"
    by (cases w; simp add: user_flags_def flag_bits bit_simps)+
  then show "bit (p OR user_flags w) 0" "bit (p OR user_flags w) 2" "bit (p OR user_flags w) 1 = w"
      "\<not> bit (p OR user_flags w) 5" "\<not> bit (p OR user_flags w) 6"
    using low_bit_or [OF assms] by (simp_all add: bit_or_iff)
qed

lemma pte_create_user_flags:
  assumes "vtop page = Some p" "pg_ofs page = 0"
  shows "pte_create_user page w = Some (p OR user_flags w)"
  unfolding pte_create_user_def pte_create_kernel_def user_flags_def
  using assms by (simp add: or.assoc)

lemma pde_round_trip:
  assumes "is_kernel_vaddr page" "pg_ofs page = 0"
  shows "\<exists>pde. pde_create page = Some pde \<and> pde_get_pt pde = Some page"
proof -
  have "unat (PTE_U OR (PTE_P OR PTE_W)) < PGSIZE"
    by (simp add: PTE_U_def PTE_P_def PTE_W_def PGSIZE_def PGBITS_def)
  then obtain p where p: "vtop page = Some p" "ptov ((p OR (PTE_U OR (PTE_P OR PTE_W))) AND PTE_ADDR) = Some page"
    using entry_round_trip [OF assms] by blast
  have "bit (p OR (PTE_U OR (PTE_P OR PTE_W))) 0"
    by (simp add: flag_bits bit_simps)
  then have "(p OR (PTE_U OR (PTE_P OR PTE_W))) AND PTE_P \<noteq> 0"
    using and_single_bit [of "p OR (PTE_U OR (PTE_P OR PTE_W))" 0, unfolded flag_bits(1) [symmetric]] by simp
  then show ?thesis
    using p assms(2) unfolding pde_create_def pde_get_pt_def or.assoc by simp
qed

lemma pte_user_round_trip:
  assumes "is_kernel_vaddr page" "pg_ofs page = 0"
  shows "\<exists>pte. pte_create_user page w = Some pte \<and> pte_get_page pte = Some page \<and>
      pte AND PTE_P \<noteq> 0 \<and> pte AND PTE_U \<noteq> 0 \<and> (pte AND PTE_W \<noteq> 0 \<longleftrightarrow> w) \<and>
      pte AND PTE_A = 0 \<and> pte AND PTE_D = 0"
proof -
  obtain p where p: "vtop page = Some p" "ptov ((p OR user_flags w) AND PTE_ADDR) = Some page" "p AND mask 12 = 0"
    using entry_round_trip [OF assms user_flags_small] by blast
  note b = and_single_bit [of "p OR user_flags w" 0, unfolded flag_bits(1) [symmetric]]
    and_single_bit [of "p OR user_flags w" 1, unfolded flag_bits(2) [symmetric]]
    and_single_bit [of "p OR user_flags w" 2, unfolded flag_bits(3) [symmetric]]
    and_single_bit [of "p OR user_flags w" 5, unfolded flag_bits(4) [symmetric]]
    and_single_bit [of "p OR user_flags w" 6, unfolded flag_bits(5) [symmetric]]
  have "(p OR user_flags w) AND PTE_P \<noteq> 0 \<and> (p OR user_flags w) AND PTE_U \<noteq> 0 \<and>
      ((p OR user_flags w) AND PTE_W \<noteq> 0 \<longleftrightarrow> w) \<and> (p OR user_flags w) AND PTE_A = 0 \<and>
      (p OR user_flags w) AND PTE_D = 0"
    using user_flags_bits [OF p(3), of w] b by simp
  then show ?thesis
    using pte_create_user_flags [OF p(1) assms(2)] p(2)
    by (simp add: pte_get_page_def)
qed

text \<open>
  C20: A page-directory or page-table entry made for a page-aligned kernel address gives that address
  back; the entry of a user page is present, open to user code, writable exactly when asked for, and
  neither accessed nor dirty.
\<close>

theorem pte_round_trip:
  assumes "is_kernel_vaddr page" "pg_ofs page = 0"
  shows "(\<exists>pde. pde_create page = Some pde \<and> pde_get_pt pde = Some page) \<and>
    (\<exists>pte. pte_create_user page w = Some pte \<and> pte_get_page pte = Some page \<and>
      pte AND PTE_P \<noteq> 0 \<and> pte AND PTE_U \<noteq> 0 \<and> (pte AND PTE_W \<noteq> 0 \<longleftrightarrow> w) \<and>
      pte AND PTE_A = 0 \<and> pte AND PTE_D = 0)"
  using pde_round_trip [OF assms] pte_user_round_trip [OF assms] by blast

theorem pte_round_trip_witness:
  "(\<exists>pde. pde_create 0xc0101000 = Some pde \<and> pde_get_pt pde = Some 0xc0101000) \<and>
    (\<exists>pte. pte_create_user 0xc0101000 True = Some pte \<and> pte_get_page pte = Some 0xc0101000 \<and> pte AND PTE_W \<noteq> 0)"
proof -
  have "is_kernel_vaddr 0xc0101000" "pg_ofs 0xc0101000 = 0"
    by (simp_all add: is_kernel_vaddr_def PHYS_BASE_def pg_ofs_take_bit take_bit_eq_mod)
  then show ?thesis
    using pte_round_trip [of "0xc0101000" True] by blast
qed

text \<open>An address is its directory index, table index and offset.\<close>

lemma vaddr_split:
  "unat va = (unat (pd_no va) * 1024 + unat (pt_no va)) * PGSIZE + unat (pg_ofs va) \<and>
    unat (pd_no va) < 1024 \<and> unat (pt_no va) < 1024 \<and> unat (pg_ofs va) < PGSIZE"
proof -
  have "unat va div (1024 * PGSIZE) = unat va div PGSIZE div 1024"
    by (metis div_mult2_eq mult.commute)
  then have "unat (pd_no va) * 1024 + unat (pt_no va) = unat va div PGSIZE"
    by (simp add: unat_pd_no unat_pt_no)
  moreover have "unat (pd_no va) < 1024"
    using u32_less [of va] by (simp add: unat_pd_no PGSIZE_def PGBITS_def less_mult_imp_div_less)
  moreover have "unat (pt_no va) < 1024" "unat (pg_ofs va) < PGSIZE"
    by (simp_all add: unat_pt_no unat_pg_ofs) (simp add: PGSIZE_def)
  ultimately show ?thesis
    by (simp add: unat_pg_ofs)
qed

end
