(* ===== verification/Threads.thy ===== *)
theory Threads
  imports Vaddr
begin

text \<open>
  Threads and the scheduler: \<^verbatim>\<open>threads/thread.c\<close> and the interrupt level of
  \<^verbatim>\<open>threads/interrupt.c\<close>, with \<^verbatim>\<open>process_activate\<close> and the task-state segment that a thread
  switch updates.

  The state \<open>kernel\<close> holds every thread, the run queue, the sleeping threads, the semaphores and
  locks, and the processor's interrupt flag and page directory register. Lists of threads are HOL
  lists: what \<^verbatim>\<open>list_insert_ordered\<close> and \<^verbatim>\<open>list_sort\<close> do to the linked nodes was shown in
  \<^verbatim>\<open>List_Sort\<close>.

  A call that switches threads does not return at once. What a thread has still to do when it
  runs again is kept as a stack of \<open>frame\<close>s in its thread structure, the model of its kernel stack:
  a function that calls another one that may switch, or that can be interrupted at a point where
  shared data are read, first pushes a frame for the rest of its own body. \<^term>\<open>None\<close> is a
  kernel panic, here a failed assertion or a write through a dangling pointer.
\<close>

section \<open>State\<close>

type_synonym tptr = nat
type_synonym lock_id = nat

text \<open>Semaphores by where they live: inside a lock, as the \<^verbatim>\<open>child_lock\<close> of a thread, or elsewhere.\<close>

datatype sema_id = Lock_sema lock_id | Child_sema tptr | Sema nat

datatype thread_status = THREAD_RUNNING | THREAD_READY | THREAD_BLOCKED | THREAD_DYING

datatype thread_fn = Client_fn | Idle_fn sema_id

text \<open>The arguments of \<^verbatim>\<open>thread_create\<close> with what the allocators it calls return: the page of
  \<^verbatim>\<open>palloc_get_page\<close>, whether \<^verbatim>\<open>malloc\<close> gave a child record, and the directory of
  \<^verbatim>\<open>dir_reopen\<close>.\<close>

record create_args =
  c_page :: tptr
  c_name :: string
  c_priority :: int
  c_function :: thread_fn
  c_child_ok :: bool
  c_newdir :: nat

text \<open>
  \<open>Set_level b\<close>: a call of \<^verbatim>\<open>intr_set_level\<close> at the end of a function. \<open>Iret\<close>: the return from an
  interrupt. \<open>Sema_retry s b\<close>: in the loop of \<^verbatim>\<open>sema_down\<close> after \<^verbatim>\<open>thread_block\<close>. \<open>Lock_got l b\<close>: the
  end of \<^verbatim>\<open>lock_acquire\<close>. \<open>Release_rest l\<close>: \<^verbatim>\<open>lock_release\<close> from its \<^verbatim>\<open>intr_disable\<close> on.
  \<open>Call_sema_down\<close>, \<open>Call_lock_acquire\<close>: the rest of \<^verbatim>\<open>cond_wait\<close>. \<open>Call_broadcast\<close>: the loop of
  \<^verbatim>\<open>cond_broadcast\<close>. \<open>Call_to_sleep w\<close>: the end of
  \<^verbatim>\<open>timer_sleep\<close>. \<open>Create_tid\<close>, \<open>Create_rest\<close>, \<open>Create_check\<close>, \<open>Create_dir\<close>: \<^verbatim>\<open>thread_create\<close> after the
  calls that may switch. \<open>Init_tid\<close>, \<open>Init_done\<close>: the end of \<^verbatim>\<open>thread_init\<close>; \<open>Start_wait\<close>: the end of
  \<^verbatim>\<open>thread_start\<close>. \<open>Kernel_thread f\<close>: the entry of a new thread. \<open>Idle_start\<close>: the entry of \<^verbatim>\<open>idle\<close>; \<open>Idle_loop\<close> and \<open>Idle_halt\<close>: the
  two halves of the loop of \<^verbatim>\<open>idle\<close>.
\<close>

datatype frame =
    Set_level bool
  | Iret
  | Sema_retry sema_id bool
  | Lock_got lock_id bool
  | Release_rest lock_id
  | Call_sema_down sema_id
  | Call_lock_acquire lock_id
  | Call_broadcast nat lock_id
  | Call_to_sleep int
  | Create_tid create_args
  | Create_rest create_args int
  | Create_check create_args int
  | Create_dir create_args int
  | Init_tid
  | Init_done int
  | Start_wait sema_id
  | Kernel_thread thread_fn
  | Idle_start sema_id
  | Idle_loop
  | Idle_halt

record child =
  pid :: int
  is_wait :: bool
  ch_status :: int

record tcb =
  t_tid :: int
  t_status :: thread_status
  t_name :: string
  t_stack :: nat
  t_priority :: int
  t_pagedir :: nat
  t_magic :: bool
  t_morning_tick :: int
  t_origin_priority :: int
  t_potential_donator :: "tptr list"
  t_waiting_lock :: lock_id
  t_load_success :: bool
  t_child_list :: "child list"
  t_parent_process :: tptr
  t_exit_code :: int
  t_lock_child_id :: int
  t_fd_count :: int
  t_dir :: nat
  t_frames :: "frame list"
  t_eax :: int

record semaphore =
  s_value :: nat
  s_waiters :: "tptr list"

record kernel =
  thr :: "tptr \<Rightarrow> tcb"
  cur :: tptr
  ready_list :: "tptr list"
  sleeping_list :: "tptr list"
  idle_thread :: tptr
  initial_thread :: tptr
  next_tid :: int
  tid_lock :: lock_id
  file_lock :: lock_id
  intr_on :: bool
  in_external_intr :: bool
  yield_on_return :: bool
  thread_ticks :: nat
  idle_ticks :: nat
  kernel_ticks :: nat
  user_ticks :: nat
  ticks :: int
  semas :: "sema_id \<Rightarrow> semaphore"
  holder :: "lock_id \<Rightarrow> tptr"
  cond_waiters :: "nat \<Rightarrow> sema_id list"
  base_page_dir :: nat
  active_pd :: nat
  tss_esp0 :: "nat option"

definition PRI_MIN :: int where "PRI_MIN = 0"
definition PRI_DEFAULT :: int where "PRI_DEFAULT = 31"
definition PRI_MAX :: int where "PRI_MAX = 63"
definition TID_ERROR :: int where "TID_ERROR = - 1"
definition TIME_SLICE :: nat where "TIME_SLICE = 4"

abbreviation priority :: "kernel \<Rightarrow> tptr \<Rightarrow> int" where
  "priority k t \<equiv> t_priority (thr k t)"

abbreviation status :: "kernel \<Rightarrow> tptr \<Rightarrow> thread_status" where
  "status k t \<equiv> t_status (thr k t)"

abbreviation frames :: "kernel \<Rightarrow> tptr \<Rightarrow> frame list" where
  "frames k t \<equiv> t_frames (thr k t)"

abbreviation waiters :: "kernel \<Rightarrow> sema_id \<Rightarrow> tptr list" where
  "waiters k s \<equiv> s_waiters (semas k s)"

abbreviation sval :: "kernel \<Rightarrow> sema_id \<Rightarrow> nat" where
  "sval k s \<equiv> s_value (semas k s)"

definition upd :: "tptr \<Rightarrow> (tcb \<Rightarrow> tcb) \<Rightarrow> kernel \<Rightarrow> kernel" where
  "upd t f k = k\<lparr>thr := (thr k)(t := f (thr k t))\<rparr>"

definition set_status :: "tptr \<Rightarrow> thread_status \<Rightarrow> kernel \<Rightarrow> kernel" where
  "set_status t st = upd t (\<lambda>c. c\<lparr>t_status := st\<rparr>)"

definition push :: "frame \<Rightarrow> kernel \<Rightarrow> kernel" where
  "push f k = upd (cur k) (\<lambda>c. c\<lparr>t_frames := f # t_frames c\<rparr>) k"

definition set_eax :: "int \<Rightarrow> kernel \<Rightarrow> kernel" where
  "set_eax v k = upd (cur k) (\<lambda>c. c\<lparr>t_eax := v\<rparr>) k"

section \<open>Interrupts\<close>

definition intr_get_level :: "kernel \<Rightarrow> bool" where
  "intr_get_level k = intr_on k"

definition intr_context :: "kernel \<Rightarrow> bool" where
  "intr_context k = in_external_intr k"

definition intr_enable :: "kernel \<Rightarrow> kernel option" where
  "intr_enable k = do {
     ASSERT (\<not> intr_context k);
     Some (k\<lparr>intr_on := True\<rparr>) }"

definition intr_disable :: "kernel \<Rightarrow> kernel" where
  "intr_disable k = k\<lparr>intr_on := False\<rparr>"

definition intr_set_level :: "bool \<Rightarrow> kernel \<Rightarrow> kernel option" where
  "intr_set_level level k = (if level then intr_enable k else Some (intr_disable k))"

definition intr_yield_on_return :: "kernel \<Rightarrow> kernel option" where
  "intr_yield_on_return k = do {
     ASSERT (intr_context k);
     Some (k\<lparr>yield_on_return := True\<rparr>) }"

section \<open>The running thread\<close>

definition is_thread :: "kernel \<Rightarrow> tptr \<Rightarrow> bool" where
  "is_thread k t \<longleftrightarrow> t \<noteq> NULL \<and> t_magic (thr k t)"

definition running_thread :: "kernel \<Rightarrow> tptr" where
  "running_thread k = cur k"

definition thread_current :: "kernel \<Rightarrow> tptr option" where
  "thread_current k = do {
     let t = running_thread k;
     ASSERT (is_thread k t);
     ASSERT (status k t = THREAD_RUNNING);
     Some t }"

definition thread_tid :: "kernel \<Rightarrow> int option" where
  "thread_tid k = do { t \<leftarrow> thread_current k; Some (t_tid (thr k t)) }"

definition thread_name :: "kernel \<Rightarrow> string option" where
  "thread_name k = do { t \<leftarrow> thread_current k; Some (t_name (thr k t)) }"

definition thread_get_priority :: "kernel \<Rightarrow> int option" where
  "thread_get_priority k = do { t \<leftarrow> thread_current k; Some (priority k t) }"

definition pagedir_activate :: "nat \<Rightarrow> kernel \<Rightarrow> kernel" where
  "pagedir_activate pd k = k\<lparr>active_pd := (if pd = NULL then base_page_dir k else pd)\<rparr>"

definition tss_update :: "kernel \<Rightarrow> kernel option" where
  "tss_update k = do {
     ASSERT (tss_esp0 k \<noteq> None);
     t \<leftarrow> thread_current k;
     Some (k\<lparr>tss_esp0 := Some (t + PGSIZE)\<rparr>) }"

definition process_activate :: "kernel \<Rightarrow> kernel option" where
  "process_activate k = do {
     t \<leftarrow> thread_current k;
     tss_update (pagedir_activate (t_pagedir (thr k t)) k) }"

section \<open>The scheduler\<close>

definition priority_compare_two_thread :: "kernel \<Rightarrow> tptr \<Rightarrow> tptr \<Rightarrow> bool" where
  "priority_compare_two_thread k a b \<longleftrightarrow> priority k a > priority k b"

definition compare_tick :: "kernel \<Rightarrow> tptr \<Rightarrow> tptr \<Rightarrow> bool" where
  "compare_tick k a b \<longleftrightarrow> t_morning_tick (thr k a) < t_morning_tick (thr k b)"

text \<open>\<^verbatim>\<open>list_insert_ordered\<close> on the sequence of elements.\<close>

definition insert_ordered :: "('a \<Rightarrow> 'a \<Rightarrow> bool) \<Rightarrow> 'a \<Rightarrow> 'a list \<Rightarrow> 'a list" where
  "insert_ordered lt x xs = takeWhile (\<lambda>y. \<not> lt x y) xs @ x # dropWhile (\<lambda>y. \<not> lt x y) xs"

definition next_thread_to_run :: "kernel \<Rightarrow> tptr \<times> kernel" where
  "next_thread_to_run k =
     (if ready_list k = [] then (idle_thread k, k)
      else (hd (ready_list k), k\<lparr>ready_list := tl (ready_list k)\<rparr>))"

text \<open>Freeing the page of a dying thread overwrites its magic number.\<close>

definition schedule_tail :: "tptr \<Rightarrow> kernel \<Rightarrow> kernel option" where
  "schedule_tail prev k = do {
     let curr = running_thread k;
     ASSERT (\<not> intr_get_level k);
     let k = (set_status curr THREAD_RUNNING k)\<lparr>thread_ticks := 0\<rparr>;
     k \<leftarrow> process_activate k;
     if prev \<noteq> NULL \<and> status k prev = THREAD_DYING \<and> prev \<noteq> initial_thread k
     then do {
       ASSERT (prev \<noteq> curr);
       Some (upd prev (\<lambda>c. c\<lparr>t_magic := False\<rparr>) k) }
     else Some k }"

text \<open>\<^verbatim>\<open>switch_threads\<close> makes \<open>nxt\<close> the running thread and returns, in it, the thread switched from.\<close>

definition schedule :: "kernel \<Rightarrow> kernel option" where
  "schedule k = do {
     let curr = running_thread k;
     let (nxt, k) = next_thread_to_run k;
     ASSERT (\<not> intr_get_level k);
     ASSERT (status k curr \<noteq> THREAD_RUNNING);
     ASSERT (is_thread k nxt);
     if curr \<noteq> nxt
     then schedule_tail curr (k\<lparr>cur := nxt\<rparr>)
     else schedule_tail NULL k }"

definition thread_block :: "kernel \<Rightarrow> kernel option" where
  "thread_block k = do {
     ASSERT (\<not> intr_context k);
     ASSERT (\<not> intr_get_level k);
     t \<leftarrow> thread_current k;
     schedule (set_status t THREAD_BLOCKED k) }"

definition thread_yield :: "kernel \<Rightarrow> kernel option" where
  "thread_yield k = do {
     curr \<leftarrow> thread_current k;
     ASSERT (\<not> intr_context k);
     let old_level = intr_get_level k;
     let k = intr_disable k;
     let k = (if curr \<noteq> idle_thread k
              then k\<lparr>ready_list := insert_ordered (priority_compare_two_thread k) curr (ready_list k)\<rparr>
              else k);
     let k = set_status curr THREAD_READY k;
     schedule (push (Set_level old_level) k) }"

definition thread_unblock :: "tptr \<Rightarrow> kernel \<Rightarrow> kernel option" where
  "thread_unblock t k = do {
     ASSERT (is_thread k t);
     let old_level = intr_get_level k;
     let k = intr_disable k;
     ASSERT (status k t = THREAD_BLOCKED);
     let k = k\<lparr>ready_list := insert_ordered (priority_compare_two_thread k) t (ready_list k)\<rparr>;
     let k = set_status t THREAD_READY k;
     let wakeup_priority = priority k t;
     curr \<leftarrow> thread_current k;
     if curr \<noteq> idle_thread k \<and> wakeup_priority > priority k curr
     then thread_yield (push (Set_level old_level) k)
     else intr_set_level old_level k }"

text \<open>The end of \<^verbatim>\<open>thread_exit\<close>, once the process has released its files and pages: the child
  records are freed and the thread is left for the scheduler to destroy.\<close>

definition thread_exit_tail :: "kernel \<Rightarrow> kernel option" where
  "thread_exit_tail k = do {
     curr \<leftarrow> thread_current k;
     let k = upd curr (\<lambda>c. c\<lparr>t_child_list := []\<rparr>) k;
     let k = intr_disable k;
     t \<leftarrow> thread_current k;
     schedule (set_status t THREAD_DYING k) }"

definition thread_set_priority :: "int \<Rightarrow> kernel \<Rightarrow> kernel option" where
  "thread_set_priority new_priority k = do {
     curr \<leftarrow> thread_current k;
     let pre_level = intr_get_level k;
     let k = intr_disable k;
     if priority k curr \<noteq> t_origin_priority (thr k curr)
     then intr_set_level pre_level (upd curr (\<lambda>c. c\<lparr>t_origin_priority := new_priority\<rparr>) k)
     else do {
       let k = upd curr (\<lambda>c. c\<lparr>t_priority := new_priority, t_origin_priority := new_priority\<rparr>) k;
       if ready_list k \<noteq> [] \<and> new_priority < priority k (hd (ready_list k))
       then thread_yield (push (Set_level pre_level) k)
       else intr_set_level pre_level k } }"

definition thread_tick :: "kernel \<Rightarrow> kernel option" where
  "thread_tick k = do {
     t \<leftarrow> thread_current k;
     let k = (if t = idle_thread k then k\<lparr>idle_ticks := idle_ticks k + 1\<rparr>
              else if t_pagedir (thr k t) \<noteq> NULL then k\<lparr>user_ticks := user_ticks k + 1\<rparr>
              else k\<lparr>kernel_ticks := kernel_ticks k + 1\<rparr>);
     let k = k\<lparr>thread_ticks := thread_ticks k + 1\<rparr>;
     if thread_ticks k \<ge> TIME_SLICE then intr_yield_on_return k else Some k }"

text \<open>\<^verbatim>\<open>init_thread\<close>; the page is zeroed first, and \<^verbatim>\<open>strlcpy\<close> keeps 15 characters of the name.\<close>

definition init_thread :: "tptr \<Rightarrow> string \<Rightarrow> int \<Rightarrow> kernel \<Rightarrow> kernel option" where
  "init_thread t name prio k = do {
     ASSERT (t \<noteq> NULL);
     ASSERT (PRI_MIN \<le> prio \<and> prio \<le> PRI_MAX);
     Some (k\<lparr>thr := (thr k)(t := \<lparr>t_tid = 0, t_status = THREAD_BLOCKED, t_name = take 15 name,
         t_stack = t + PGSIZE, t_priority = prio, t_pagedir = NULL, t_magic = True, t_morning_tick = 0,
         t_origin_priority = prio, t_potential_donator = [], t_waiting_lock = NULL,
         t_load_success = False, t_child_list = [], t_parent_process = running_thread k,
         t_exit_code = - 2, t_lock_child_id = 0, t_fd_count = 2, t_dir = NULL, t_frames = [], t_eax = 0\<rparr>),
       semas := (semas k)(Child_sema t := \<lparr>s_value = 0, s_waiters = []\<rparr>)\<rparr>) }"

definition alloc_frame :: "tptr \<Rightarrow> nat \<Rightarrow> kernel \<Rightarrow> kernel option" where
  "alloc_frame t sz k = do {
     ASSERT (is_thread k t);
     ASSERT (sz mod 4 = 0);
     Some (upd t (\<lambda>c. c\<lparr>t_stack := t_stack c - sz\<rparr>) k) }"

section \<open>Ordered insertion\<close>

lemma insert_ordered_set [simp]: "set (insert_ordered lt x xs) = insert x (set xs)"
proof -
  have "set xs = set (takeWhile (\<lambda>y. \<not> lt x y) xs) \<union> set (dropWhile (\<lambda>y. \<not> lt x y) xs)"
    by (metis set_append takeWhile_dropWhile_id)
  then show ?thesis by (simp add: insert_ordered_def)
qed

lemma insert_ordered_mset [simp]: "mset (insert_ordered lt x xs) = add_mset x (mset xs)"
proof -
  have "mset xs = mset (takeWhile (\<lambda>y. \<not> lt x y) xs) + mset (dropWhile (\<lambda>y. \<not> lt x y) xs)"
    by (metis mset_append takeWhile_dropWhile_id)
  then show ?thesis by (simp add: insert_ordered_def)
qed

lemma insert_ordered_distinct [simp]: "distinct (insert_ordered lt x xs) \<longleftrightarrow> x \<notin> set xs \<and> distinct xs"
  by (metis distinct.simps(2) insert_ordered_mset mset.simps(2) mset_eq_imp_distinct_iff)

lemma insert_ordered_not_Nil [simp]: "insert_ordered lt x xs \<noteq> []"
  by (simp add: insert_ordered_def)

lemma insert_ordered_sorted:
  fixes key :: "'a \<Rightarrow> int"
  assumes "sorted_wrt (\<lambda>a b. key a \<ge> key b) xs"
  shows "sorted_wrt (\<lambda>a b. key a \<ge> key b) (insert_ordered (\<lambda>a b. key a > key b) x xs)"
  using assms
  by (induction xs) (auto simp: insert_ordered_def dest: set_takeWhileD set_dropWhileD intro: order_trans)

lemma insert_ordered_sorted_less:
  fixes key :: "'a \<Rightarrow> int"
  assumes "sorted_wrt (\<lambda>a b. key a \<le> key b) xs"
  shows "sorted_wrt (\<lambda>a b. key a \<le> key b) (insert_ordered (\<lambda>a b. key a < key b) x xs)"
  using insert_ordered_sorted [of "\<lambda>a. - key a" xs x] assms by simp

section \<open>What scheduling changes\<close>

lemmas thread_defs = upd_def set_status_def push_def set_eax_def intr_get_level_def intr_context_def
  intr_disable_def running_thread_def Let_def

lemmas current_defs = thread_current_def is_thread_def running_thread_def Let_def

text \<open>The state after a switch to \<open>nxt\<close>, and the condition under which the switch does not panic.\<close>

definition chosen :: "kernel \<Rightarrow> tptr" where
  "chosen k = (if ready_list k = [] then idle_thread k else hd (ready_list k))"

definition freed :: "kernel \<Rightarrow> tptr \<Rightarrow> bool" where
  "freed k t \<longleftrightarrow> t = cur k \<and> t \<noteq> NULL \<and> status k t = THREAD_DYING \<and> t \<noteq> initial_thread k \<and> t \<noteq> chosen k"

definition dispatch :: "kernel \<Rightarrow> kernel" where
  "dispatch k = k\<lparr>
     thr := (\<lambda>t. (if t = chosen k then (thr k t)\<lparr>t_status := THREAD_RUNNING\<rparr>
                  else if freed k t then (thr k t)\<lparr>t_magic := False\<rparr> else thr k t)),
     cur := chosen k,
     ready_list := tl (ready_list k),
     thread_ticks := 0,
     active_pd := (if t_pagedir (thr k (chosen k)) = NULL then base_page_dir k else t_pagedir (thr k (chosen k))),
     tss_esp0 := Some (chosen k + PGSIZE)\<rparr>"

lemma process_activate_eq:
  "process_activate k = (if is_thread k (cur k) \<and> status k (cur k) = THREAD_RUNNING \<and> tss_esp0 k \<noteq> None
     then Some (k\<lparr>active_pd := (if t_pagedir (thr k (cur k)) = NULL then base_page_dir k else t_pagedir (thr k (cur k))),
       tss_esp0 := Some (cur k + PGSIZE)\<rparr>) else None)"
  by (simp add: process_activate_def tss_update_def pagedir_activate_def current_defs)

lemma schedule_eq:
  "schedule k = (if \<not> intr_on k \<and> status k (cur k) \<noteq> THREAD_RUNNING \<and> is_thread k (chosen k) \<and> tss_esp0 k \<noteq> None
     then Some (dispatch k) else None)"
proof -
  obtain nxt k1 where n: "next_thread_to_run k = (nxt, k1)" and nxt: "nxt = chosen k"
    and k1: "k1 = k\<lparr>ready_list := tl (ready_list k)\<rparr>"
    by (cases "ready_list k = []") (simp_all add: next_thread_to_run_def chosen_def)
  show ?thesis
  proof (cases "cur k = chosen k")
    case True
    then show ?thesis
      unfolding schedule_def n schedule_tail_def process_activate_eq dispatch_def
      by (auto simp: nxt k1 thread_defs is_thread_def freed_def fun_eq_iff intro!: kernel.equality)
  next
    case False
    then show ?thesis
      unfolding schedule_def n schedule_tail_def process_activate_eq dispatch_def
      by (auto simp: nxt k1 thread_defs is_thread_def freed_def fun_eq_iff intro!: kernel.equality)
  qed
qed

section \<open>Where threads are\<close>

text \<open>
  \<open>parked k t\<close>: the \<^verbatim>\<open>elem\<close> of thread \<open>t\<close> is on the list of sleeping threads or of a semaphore's waiters.
  \<open>placed X k\<close>: every list holds each thread at most once, no thread is on two lists, the lists agree
  with the states of the threads on them, and every live thread that is ready or blocked is where
  it will be found: on its list, or the idle thread, or one of the threads \<open>X\<close> that a function of
  the kernel has in hand.
\<close>

definition parked :: "kernel \<Rightarrow> tptr \<Rightarrow> bool" where
  "parked k t \<longleftrightarrow> t \<in> set (sleeping_list k) \<or> (\<exists>s. t \<in> set (waiters k s))"

definition one_list :: "kernel \<Rightarrow> bool" where
  "one_list k \<longleftrightarrow> distinct (ready_list k) \<and> distinct (sleeping_list k) \<and> (\<forall>s. distinct (waiters k s)) \<and>
     (\<forall>s. \<forall>t\<in>set (waiters k s). t \<notin> set (sleeping_list k)) \<and>
     (\<forall>s s'. \<forall>t\<in>set (waiters k s). t \<in> set (waiters k s') \<longrightarrow> s = s')"

definition states_agree :: "tptr set \<Rightarrow> kernel \<Rightarrow> bool" where
  "states_agree X k \<longleftrightarrow>
     (\<forall>t\<in>set (ready_list k). is_thread k t \<and> status k t = THREAD_READY) \<and>
     (\<forall>t. parked k t \<longrightarrow> is_thread k t \<and> status k t = THREAD_BLOCKED \<and> t \<noteq> idle_thread k) \<and>
     (\<forall>t\<in>X. is_thread k t \<and> status k t = THREAD_BLOCKED \<and> \<not> parked k t \<and> t \<noteq> idle_thread k) \<and>
     idle_thread k \<notin> set (ready_list k) \<and>
     (idle_thread k \<noteq> NULL \<longrightarrow> is_thread k (idle_thread k) \<and> status k (idle_thread k) \<noteq> THREAD_DYING)"

definition none_lost :: "tptr set \<Rightarrow> kernel \<Rightarrow> bool" where
  "none_lost X k \<longleftrightarrow> (\<forall>t. is_thread k t \<longrightarrow> t \<noteq> idle_thread k \<longrightarrow>
     (status k t = THREAD_READY \<longrightarrow> t \<in> set (ready_list k)) \<and>
     (status k t = THREAD_BLOCKED \<longrightarrow> parked k t \<or> t \<in> X) \<and>
     (status k t = THREAD_DYING \<longrightarrow> t = initial_thread k \<or> t = cur k))"

definition placed :: "tptr set \<Rightarrow> kernel \<Rightarrow> bool" where
  "placed X k \<longleftrightarrow> one_list k \<and> states_agree X k \<and> none_lost X k"

text \<open>Between calls one thread runs; on the way into \<^verbatim>\<open>schedule\<close> none does.\<close>

definition sched_ok :: "tptr set \<Rightarrow> kernel \<Rightarrow> bool" where
  "sched_ok X k \<longleftrightarrow> placed X k \<and> is_thread k (cur k) \<and> (\<forall>t. is_thread k t \<longrightarrow> status k t = THREAD_RUNNING \<longleftrightarrow> t = cur k)"

definition sched_off :: "tptr set \<Rightarrow> kernel \<Rightarrow> bool" where
  "sched_off X k \<longleftrightarrow> placed X k \<and> is_thread k (cur k) \<and> (\<forall>t. is_thread k t \<longrightarrow> status k t \<noteq> THREAD_RUNNING)"

lemmas placed_defs = placed_def one_list_def states_agree_def none_lost_def parked_def

lemma dispatch_sel [simp]:
  "cur (dispatch k) = chosen k" "ready_list (dispatch k) = tl (ready_list k)"
  "sleeping_list (dispatch k) = sleeping_list k" "semas (dispatch k) = semas k"
  "idle_thread (dispatch k) = idle_thread k" "initial_thread (dispatch k) = initial_thread k"
  "holder (dispatch k) = holder k" "cond_waiters (dispatch k) = cond_waiters k"
  "intr_on (dispatch k) = intr_on k" "in_external_intr (dispatch k) = in_external_intr k"
  "tid_lock (dispatch k) = tid_lock k" "next_tid (dispatch k) = next_tid k"
  "tss_esp0 (dispatch k) = Some (chosen k + PGSIZE)" "ticks (dispatch k) = ticks k"
  by (simp_all add: dispatch_def)

lemma dispatch_thr [simp]:
  "t_frames (thr (dispatch k) t) = frames k t" "t_priority (thr (dispatch k) t) = priority k t"
  "t_morning_tick (thr (dispatch k) t) = t_morning_tick (thr k t)"
  "t_waiting_lock (thr (dispatch k) t) = t_waiting_lock (thr k t)"
  "t_status (thr (dispatch k) t) = (if t = chosen k then THREAD_RUNNING else status k t)"
  "is_thread (dispatch k) t \<longleftrightarrow> is_thread k t \<and> \<not> freed k t"
  by (auto simp: dispatch_def is_thread_def freed_def)

lemma chosen_cases: "ready_list k = [] \<and> chosen k = idle_thread k \<or>
    (\<exists>ts. ready_list k = chosen k # ts)"
  by (cases "ready_list k") (auto simp: chosen_def)

lemma chosen_in_ready: "ready_list k \<noteq> [] \<Longrightarrow> chosen k \<in> set (ready_list k)"
  by (simp add: chosen_def)

lemma freed_current: "freed k t \<Longrightarrow> t = cur k \<and> status k t = THREAD_DYING \<and> t \<noteq> initial_thread k \<and> t \<noteq> chosen k"
  by (auto simp: freed_def)

lemma parked_dispatch [simp]: "parked (dispatch k) t = parked k t"
  by (simp add: parked_def)

lemma dispatch_placed:
  assumes "placed X k"
  shows "placed X (dispatch k)"
proof -
  have c: "\<not> freed k t" if "status k t \<noteq> THREAD_DYING" for t
    using that freed_current by blast
  have one: "one_list (dispatch k)"
    using assms by (simp add: placed_def one_list_def distinct_tl)
  have sub: "set (tl (ready_list k)) \<subseteq> set (ready_list k)"
    by (cases "ready_list k") auto
  have fst: "chosen k \<notin> set (tl (ready_list k))"
    using assms chosen_cases [of k] by (auto simp: placed_def one_list_def)
  have np: "\<not> parked k (chosen k)" "chosen k \<notin> X"
    using assms chosen_cases [of k] by (auto simp: placed_def states_agree_def)
  have agree: "states_agree X (dispatch k)"
    using assms sub fst np c unfolding placed_def states_agree_def by auto
  have nz: "t \<noteq> NULL" if "is_thread k t" for t
    using that by (simp add: is_thread_def)
  have dying: "t = initial_thread k"
    if "is_thread k t" "\<not> freed k t" "t \<noteq> idle_thread k" "status k t = THREAD_DYING" "t \<noteq> chosen k" for t
    using assms that nz unfolding placed_def none_lost_def freed_def by blast
  have "none_lost X (dispatch k)"
    using assms chosen_cases [of k] dying unfolding placed_def none_lost_def by auto
  with one agree show ?thesis
    by (simp add: placed_def)
qed

lemma schedule_ok:
  assumes "sched_off X k" "schedule k = Some k'"
  shows "k' = dispatch k \<and> sched_ok X k'"
proof -
  have "is_thread k (chosen k)" and k': "k' = dispatch k"
    using assms(2) by (auto simp: schedule_eq split: if_splits)
  moreover have "\<not> freed k (chosen k)"
    by (simp add: freed_def)
  ultimately show ?thesis
    using assms(1) dispatch_placed by (auto simp: sched_ok_def sched_off_def)
qed

text \<open>States that agree on all that the placement of threads is about.\<close>

definition same_place :: "kernel \<Rightarrow> kernel \<Rightarrow> bool" where
  "same_place k k' \<longleftrightarrow> (\<forall>t. status k' t = status k t \<and> t_magic (thr k' t) = t_magic (thr k t)) \<and>
     (\<forall>s. waiters k' s = waiters k s) \<and> cur k' = cur k \<and> ready_list k' = ready_list k \<and>
     sleeping_list k' = sleeping_list k \<and> idle_thread k' = idle_thread k \<and> initial_thread k' = initial_thread k"

lemma same_place_sched:
  assumes "same_place k k'"
  shows "sched_ok X k' = sched_ok X k" "sched_off X k' = sched_off X k" "placed X k' = placed X k"
  using assms unfolding same_place_def sched_ok_def sched_off_def placed_defs is_thread_def by simp_all

lemma same_place_upds [simp]:
  "same_place k (k\<lparr>intr_on := b\<rparr>)" "same_place k (push f k)" "same_place k (set_eax v k)"
  "same_place k (upd t (\<lambda>c. c\<lparr>t_priority := p\<rparr>) k)"
  "same_place k (upd t (\<lambda>c. c\<lparr>t_origin_priority := p\<rparr>) k)"
  "same_place k (upd t (\<lambda>c. c\<lparr>t_priority := p, t_origin_priority := p\<rparr>) k)"
  "same_place k (upd t (\<lambda>c. c\<lparr>t_child_list := cs\<rparr>) k)"
  by (simp_all add: same_place_def thread_defs)

lemmas same_place_ok [simp] = same_place_upds [THEN same_place_sched(1)]
lemmas same_place_off [simp] = same_place_upds [THEN same_place_sched(2)]

lemma is_thread_upd [simp]:
  "is_thread (k\<lparr>ready_list := r\<rparr>) t = is_thread k t" "is_thread (k\<lparr>sleeping_list := r\<rparr>) t = is_thread k t"
  "is_thread (k\<lparr>semas := ss\<rparr>) t = is_thread k t" "is_thread (k\<lparr>intr_on := b\<rparr>) t = is_thread k t"
  "is_thread (k\<lparr>cur := c\<rparr>) t = is_thread k t" "is_thread (k\<lparr>holder := h\<rparr>) t = is_thread k t"
  "is_thread (k\<lparr>idle_thread := c\<rparr>) t = is_thread k t" "is_thread (k\<lparr>in_external_intr := b\<rparr>) t = is_thread k t"
  "is_thread (k\<lparr>next_tid := n\<rparr>) t = is_thread k t" "is_thread (k\<lparr>cond_waiters := w\<rparr>) t = is_thread k t"
  by (simp_all add: is_thread_def)

lemma parked_upd [simp]:
  "parked (k\<lparr>ready_list := r\<rparr>) t = parked k t" "parked (k\<lparr>intr_on := b\<rparr>) t = parked k t"
  by (simp_all add: parked_def)

lemma set_status_sel [simp]:
  "cur (set_status t st k) = cur k" "ready_list (set_status t st k) = ready_list k"
  "sleeping_list (set_status t st k) = sleeping_list k" "semas (set_status t st k) = semas k"
  "idle_thread (set_status t st k) = idle_thread k" "initial_thread (set_status t st k) = initial_thread k"
  "parked (set_status t st k) u = parked k u" "is_thread (set_status t st k) u = is_thread k u"
  "status (set_status t st k) u = (if u = t then st else status k u)"
  "priority (set_status t st k) u = priority k u"
  by (auto simp: thread_defs parked_def is_thread_def)

lemma push_sel [simp]:
  "cur (push f k) = cur k" "ready_list (push f k) = ready_list k"
  "sleeping_list (push f k) = sleeping_list k" "semas (push f k) = semas k"
  "idle_thread (push f k) = idle_thread k" "initial_thread (push f k) = initial_thread k"
  "is_thread (push f k) u = is_thread k u" "t_status (thr (push f k) u) = status k u"
  "t_priority (thr (push f k) u) = priority k u" "intr_on (push f k) = intr_on k"
  "in_external_intr (push f k) = in_external_intr k" "holder (push f k) = holder k"
  "tss_esp0 (push f k) = tss_esp0 k"
  by (auto simp: thread_defs parked_def is_thread_def)

text \<open>The running thread gives up the processor: it joins the ready list, a list of waiting threads, or dies.\<close>

lemma leave_ready:
  assumes "sched_ok X k" "cur k \<noteq> idle_thread k"
  shows "sched_off X (set_status (cur k) THREAD_READY
    (k\<lparr>ready_list := insert_ordered lt (cur k) (ready_list k)\<rparr>))" (is "sched_off X ?k")
proof -
  have cur: "is_thread k (cur k)" "status k (cur k) = THREAD_RUNNING"
    using assms(1) by (auto simp: sched_ok_def)
  then have new: "cur k \<notin> set (ready_list k)" "\<not> parked k (cur k)" "cur k \<notin> X"
    using assms(1) by (auto simp: sched_ok_def placed_def states_agree_def)
  have sel: "parked ?k t = parked k t" "is_thread ?k t = is_thread k t" for t
    by simp_all
  have "one_list ?k"
    using assms(1) new by (simp add: sched_ok_def placed_def one_list_def)
  moreover have "states_agree X ?k"
    using assms cur new unfolding sched_ok_def placed_def states_agree_def sel by auto
  moreover have "none_lost X ?k"
    using assms unfolding sched_ok_def placed_def none_lost_def sel by auto
  ultimately show ?thesis
    using assms unfolding sched_off_def sched_ok_def placed_def sel by auto
qed

lemma one_list_set_status [simp]: "one_list (set_status t st k) = one_list k"
  by (simp add: one_list_def)

lemma leave_status:
  assumes "sched_ok X k" "st = THREAD_DYING \<and> cur k \<noteq> idle_thread k \<or>
    (st = THREAD_READY \<or> st = THREAD_BLOCKED) \<and> cur k = idle_thread k"
  shows "sched_off X (set_status (cur k) st k)"
proof -
  have cur: "is_thread k (cur k)" "status k (cur k) = THREAD_RUNNING"
    using assms(1) by (auto simp: sched_ok_def)
  then have new: "cur k \<notin> set (ready_list k)" "\<not> parked k (cur k)" "cur k \<notin> X"
    using assms(1) by (auto simp: sched_ok_def placed_def states_agree_def)
  have "states_agree X (set_status (cur k) st k)"
    using assms cur new unfolding sched_ok_def placed_def states_agree_def by auto
  moreover have "none_lost X (set_status (cur k) st k)"
    using assms unfolding sched_ok_def placed_def none_lost_def by auto
  moreover have "\<forall>t. is_thread k t \<longrightarrow> status (set_status (cur k) st k) t \<noteq> THREAD_RUNNING"
    using assms unfolding sched_ok_def by auto
  ultimately show ?thesis
    using assms(1) unfolding sched_off_def sched_ok_def placed_def by simp
qed

lemma leave_parked:
  assumes "sched_ok X k" "cur k \<noteq> idle_thread k" "one_list k1" "\<And>t. parked k1 t \<longleftrightarrow> parked k t \<or> t = cur k"
    and [simp]: "thr k1 = thr k" "cur k1 = cur k" "ready_list k1 = ready_list k" "idle_thread k1 = idle_thread k"
    "initial_thread k1 = initial_thread k"
  shows "sched_off X (set_status (cur k) THREAD_BLOCKED k1)"
proof -
  have [simp]: "is_thread k1 t = is_thread k t" for t
    by (simp add: is_thread_def)
  have cur: "is_thread k (cur k)" "status k (cur k) = THREAD_RUNNING"
    using assms(1) by (auto simp: sched_ok_def)
  then have new: "cur k \<notin> set (ready_list k)" "\<not> parked k (cur k)" "cur k \<notin> X"
    using assms(1) by (auto simp: sched_ok_def placed_def states_agree_def)
  have "states_agree X (set_status (cur k) THREAD_BLOCKED k1)"
    using assms(1,2,4) cur new unfolding sched_ok_def placed_def states_agree_def by auto
  moreover have "none_lost X (set_status (cur k) THREAD_BLOCKED k1)"
    using assms(1,2,4) unfolding sched_ok_def placed_def none_lost_def by auto
  moreover have "\<forall>t. is_thread k t \<longrightarrow> status (set_status (cur k) THREAD_BLOCKED k1) t \<noteq> THREAD_RUNNING"
    using assms(1) unfolding sched_ok_def by auto
  ultimately show ?thesis
    using assms(1,3) unfolding sched_off_def sched_ok_def placed_def by simp
qed

text \<open>A blocked thread in hand joins the ready list.\<close>

lemma join_ready:
  assumes "sched_ok (insert t X) k" "t \<notin> X"
  shows "sched_ok X (set_status t THREAD_READY (k\<lparr>ready_list := insert_ordered lt t (ready_list k)\<rparr>))"
    (is "sched_ok X ?k")
proof -
  have t: "is_thread k t" "status k t = THREAD_BLOCKED" "\<not> parked k t" "t \<noteq> idle_thread k"
    using assms(1) by (auto simp: sched_ok_def placed_def states_agree_def)
  then have new: "t \<notin> set (ready_list k)" "t \<noteq> cur k"
    using assms(1) by (auto simp: sched_ok_def placed_def states_agree_def)
  have "one_list ?k"
    using assms(1) new by (simp add: sched_ok_def placed_def one_list_def)
  moreover have "states_agree X ?k"
    using assms t new unfolding sched_ok_def placed_def states_agree_def by auto
  moreover have "none_lost X ?k"
    using assms unfolding sched_ok_def placed_def none_lost_def by auto
  moreover have "\<forall>u. is_thread k u \<longrightarrow> status ?k u = THREAD_RUNNING \<longleftrightarrow> u = cur k"
    using assms new unfolding sched_ok_def by auto
  ultimately show ?thesis
    using assms(1) unfolding sched_ok_def placed_def by simp
qed

text \<open>A thread is taken off the list it waits on.\<close>

lemma take_parked:
  assumes "sched_ok X k" "one_list k1" "parked k t" "\<And>u. parked k1 u \<longleftrightarrow> parked k u \<and> u \<noteq> t"
    and [simp]: "thr k1 = thr k" "cur k1 = cur k" "ready_list k1 = ready_list k" "idle_thread k1 = idle_thread k"
    "initial_thread k1 = initial_thread k"
  shows "sched_ok (insert t X) k1 \<and> t \<notin> X"
proof -
  have [simp]: "is_thread k1 u = is_thread k u" for u
    by (simp add: is_thread_def)
  have t: "is_thread k t" "status k t = THREAD_BLOCKED" "t \<noteq> idle_thread k" "t \<notin> X"
    using assms(1,3) by (auto simp: sched_ok_def placed_def states_agree_def)
  have "states_agree (insert t X) k1"
    using assms(1,4) t unfolding sched_ok_def placed_def states_agree_def by simp
  moreover have "none_lost (insert t X) k1"
    using assms(1,4) unfolding sched_ok_def placed_def none_lost_def by auto
  ultimately show ?thesis
    using assms(1,2) t unfolding sched_ok_def placed_def by simp
qed

section \<open>The operations keep threads placed\<close>

lemma thread_current_ok: "sched_ok X k \<Longrightarrow> thread_current k = Some (cur k)"
  by (simp add: sched_ok_def thread_current_def running_thread_def)

text \<open>What a successful call did, up to the switch.\<close>

definition yielded :: "kernel \<Rightarrow> kernel" where
  "yielded k = push (Set_level (intr_on k)) (set_status (cur k) THREAD_READY
     (if cur k \<noteq> idle_thread k
      then k\<lparr>intr_on := False, ready_list := insert_ordered (priority_compare_two_thread k) (cur k) (ready_list k)\<rparr>
      else k\<lparr>intr_on := False\<rparr>))"

lemma thread_yield_eq:
  "thread_yield k = (if is_thread k (cur k) \<and> status k (cur k) = THREAD_RUNNING \<and> \<not> in_external_intr k
     then schedule (yielded k) else None)"
  by (simp add: thread_yield_def thread_current_def running_thread_def intr_context_def intr_get_level_def
      intr_disable_def Let_def yielded_def priority_compare_two_thread_def [abs_def])

lemma yielded_off:
  assumes "sched_ok X k"
  shows "sched_off X (yielded k)"
proof (cases "cur k = idle_thread k")
  case True
  then show ?thesis
    using leave_status [of X "k\<lparr>intr_on := False\<rparr>" THREAD_READY] assms by (simp add: yielded_def)
next
  case False
  then show ?thesis
    using leave_ready [of X "k\<lparr>intr_on := False\<rparr>"] assms by (simp add: yielded_def)
qed

lemma thread_yield_ok:
  assumes "sched_ok X k" "thread_yield k = Some k'"
  shows "k' = dispatch (yielded k) \<and> sched_ok X k'"
  using assms schedule_ok [OF yielded_off] by (simp add: thread_yield_eq split: if_splits)

lemma thread_block_eq:
  "thread_block k = (if is_thread k (cur k) \<and> status k (cur k) = THREAD_RUNNING \<and> \<not> in_external_intr k \<and> \<not> intr_on k
     then schedule (set_status (cur k) THREAD_BLOCKED k) else None)"
  by (simp add: thread_block_def thread_current_def running_thread_def intr_context_def intr_get_level_def Let_def)

lemma thread_block_ok:
  assumes "sched_off X (set_status (cur k) THREAD_BLOCKED k)" "thread_block k = Some k'"
  shows "k' = dispatch (set_status (cur k) THREAD_BLOCKED k) \<and> sched_ok X k'"
  using assms schedule_ok by (simp add: thread_block_eq split: if_splits)

definition unblocked :: "tptr \<Rightarrow> kernel \<Rightarrow> kernel" where
  "unblocked t k = set_status t THREAD_READY
     (k\<lparr>intr_on := False, ready_list := insert_ordered (priority_compare_two_thread k) t (ready_list k)\<rparr>)"

lemma unblocked_sel [simp]:
  "cur (unblocked t k) = cur k" "idle_thread (unblocked t k) = idle_thread k"
  "priority (unblocked t k) u = priority k u" "is_thread (unblocked t k) u = is_thread k u"
  "status (unblocked t k) u = (if u = t then THREAD_READY else status k u)"
  "in_external_intr (unblocked t k) = in_external_intr k" "intr_on (unblocked t k) = False"
  "sleeping_list (unblocked t k) = sleeping_list k"
  "ready_list (unblocked t k) = insert_ordered (priority_compare_two_thread k) t (ready_list k)"
  by (auto simp: unblocked_def thread_defs is_thread_def)

lemma thread_unblock_eq:
  "thread_unblock t k = (if is_thread k t \<and> status k t = THREAD_BLOCKED \<and> t \<noteq> cur k \<and>
       is_thread k (cur k) \<and> status k (cur k) = THREAD_RUNNING
     then if cur k \<noteq> idle_thread k \<and> priority k t > priority k (cur k)
       then thread_yield (push (Set_level (intr_on k)) (unblocked t k))
       else intr_set_level (intr_on k) (unblocked t k)
     else None)"
proof -
  have "intr_disable k\<lparr>ready_list := insert_ordered (priority_compare_two_thread (intr_disable k)) t
      (ready_list (intr_disable k))\<rparr> =
    k\<lparr>intr_on := False, ready_list := insert_ordered (priority_compare_two_thread k) t (ready_list k)\<rparr>"
    by (simp add: intr_disable_def priority_compare_two_thread_def [abs_def])
  then have u: "set_status t THREAD_READY (intr_disable k\<lparr>ready_list :=
      insert_ordered (priority_compare_two_thread (intr_disable k)) t (ready_list (intr_disable k))\<rparr>) = unblocked t k"
    by (simp add: unblocked_def)
  show ?thesis
    unfolding thread_unblock_def Let_def u
    by (auto simp: thread_current_def running_thread_def intr_get_level_def intr_disable_def Let_def)
qed

lemma unblocked_ok: "sched_ok (insert t X) k \<Longrightarrow> t \<notin> X \<Longrightarrow> sched_ok X (unblocked t k)"
  using join_ready [of t X "k\<lparr>intr_on := False\<rparr>"] by (simp add: unblocked_def)

lemma intr_set_level_eq:
  "intr_set_level b k = (if b \<and> in_external_intr k then None else Some (k\<lparr>intr_on := b\<rparr>))"
  by (simp add: intr_set_level_def intr_enable_def intr_disable_def intr_context_def)

lemma intr_set_level_ok: "sched_ok X k \<Longrightarrow> intr_set_level b k = Some k' \<Longrightarrow> sched_ok X k'"
  by (auto simp: intr_set_level_eq split: if_splits)

lemma thread_unblock_ok:
  assumes "sched_ok (insert t X) k" "t \<notin> X" "thread_unblock t k = Some k'"
  shows "sched_ok X k'"
  using assms unblocked_ok [OF assms(1,2)] thread_yield_ok [of X "push (Set_level (intr_on k)) (unblocked t k)" k']
    intr_set_level_ok [of X "unblocked t k" "intr_on k" k']
  by (auto simp: thread_unblock_eq split: if_splits)

lemma thread_set_priority_ok:
  assumes "sched_ok X k" "thread_set_priority p k = Some k'"
  shows "sched_ok X k'"
proof -
  let ?o = "upd (cur k) (\<lambda>c. c\<lparr>t_origin_priority := p\<rparr>) (intr_disable k)"
  let ?p = "upd (cur k) (\<lambda>c. c\<lparr>t_priority := p, t_origin_priority := p\<rparr>) (intr_disable k)"
  have ok: "sched_ok X ?o" "sched_ok X ?p" "sched_ok X (push (Set_level (intr_on k)) ?p)"
    using assms(1) by (simp_all add: intr_disable_def)
  show ?thesis
    using assms(2) thread_current_ok [OF assms(1)] intr_set_level_ok [OF ok(1)] intr_set_level_ok [OF ok(2)]
      thread_yield_ok [OF ok(3)]
    by (auto simp: thread_set_priority_def Let_def intr_get_level_def split: if_splits)
qed

lemma thread_exit_tail_ok:
  assumes "sched_ok X k" "cur k \<noteq> idle_thread k" "thread_exit_tail k = Some k'"
  shows "sched_ok X k'"
proof -
  let ?k = "upd (cur k) (\<lambda>c. c\<lparr>t_child_list := []\<rparr>) k\<lparr>intr_on := False\<rparr>"
  have ok: "sched_ok X ?k"
    using assms(1) by simp
  have c: "cur ?k = cur k" "idle_thread ?k = idle_thread k"
    by (simp_all add: upd_def)
  then have "schedule (set_status (cur k) THREAD_DYING ?k) = Some k'"
    using assms(3) thread_current_ok [OF assms(1)] thread_current_ok [OF ok]
    by (simp add: thread_exit_tail_def intr_disable_def)
  with leave_status [OF ok, of THREAD_DYING] c assms(2) schedule_ok show ?thesis
    by simp
qed

section \<open>What the operations leave alone\<close>

text \<open>Scheduling changes states, the ready list and the processor, and adds only pending calls of
  \<^verbatim>\<open>intr_set_level\<close> to the stacks.\<close>

definition only_sched :: "kernel \<Rightarrow> kernel \<Rightarrow> bool" where
  "only_sched k k' \<longleftrightarrow> semas k' = semas k \<and> holder k' = holder k \<and> cond_waiters k' = cond_waiters k \<and>
     next_tid k' = next_tid k \<and> tid_lock k' = tid_lock k \<and> idle_thread k' = idle_thread k \<and>
     initial_thread k' = initial_thread k \<and> sleeping_list k' = sleeping_list k \<and>
     in_external_intr k' = in_external_intr k \<and>
     (\<forall>t. is_thread k' t = is_thread k t \<and> priority k' t = priority k t \<and>
       t_morning_tick (thr k' t) = t_morning_tick (thr k t) \<and> t_waiting_lock (thr k' t) = t_waiting_lock (thr k t) \<and>
       (\<exists>bs. frames k' t = map Set_level bs @ frames k t))"

lemma only_sched_refl: "only_sched k k"
  by (simp add: only_sched_def)

lemma only_sched_trans: "only_sched k k1 \<Longrightarrow> only_sched k1 k2 \<Longrightarrow> only_sched k k2"
  unfolding only_sched_def by (metis append_assoc map_append)

lemma only_sched_simple:
  "only_sched k (set_status t st k)" "only_sched k (k\<lparr>intr_on := b\<rparr>)" "only_sched k (k\<lparr>ready_list := r\<rparr>)"
  "only_sched k (k\<lparr>intr_on := b, ready_list := r\<rparr>)"
  by (auto simp: only_sched_def thread_defs is_thread_def)

lemma only_sched_push: "only_sched k (push (Set_level b) k)"
proof -
  have "\<exists>bs. frames (push (Set_level b) k) t = map Set_level bs @ frames k t" for t
    by (cases "t = cur k") (auto simp: thread_defs intro: exI [of _ "[b]"])
  then show ?thesis
    by (auto simp: only_sched_def thread_defs is_thread_def)
qed

lemma only_sched_dispatch: "status k (cur k) \<noteq> THREAD_DYING \<Longrightarrow> only_sched k (dispatch k)"
  by (auto simp: only_sched_def freed_def)

lemma yielded_sel [simp]:
  "cur (yielded k) = cur k" "priority (yielded k) t = priority k t" "idle_thread (yielded k) = idle_thread k"
  "status (yielded k) t = (if t = cur k then THREAD_READY else status k t)" "is_thread (yielded k) t = is_thread k t"
  "ready_list (yielded k) = (if cur k = idle_thread k then ready_list k
     else insert_ordered (priority_compare_two_thread k) (cur k) (ready_list k))"
  "intr_on (yielded k) = False"
  by (auto simp: yielded_def thread_defs is_thread_def)

lemma only_sched_yielded: "only_sched k (yielded k)"
proof -
  have "only_sched k (if cur k \<noteq> idle_thread k
      then k\<lparr>intr_on := False, ready_list := insert_ordered (priority_compare_two_thread k) (cur k) (ready_list k)\<rparr>
      else k\<lparr>intr_on := False\<rparr>)"
    by (simp add: only_sched_simple)
  then show ?thesis
    unfolding yielded_def by (rule only_sched_trans [OF only_sched_trans [OF _ only_sched_simple(1)] only_sched_push])
qed

lemma thread_yield_only:
  assumes "thread_yield k = Some k'"
  shows "only_sched k k'"
  using assms only_sched_trans [OF only_sched_yielded only_sched_dispatch]
  by (auto simp: thread_yield_eq schedule_eq split: if_splits)

lemma thread_block_only:
  assumes "thread_block k = Some k'"
  shows "only_sched k k'"
  using assms only_sched_trans [OF only_sched_simple(1) only_sched_dispatch]
  by (auto simp: thread_block_eq schedule_eq split: if_splits)

lemma intr_set_level_only: "intr_set_level b k = Some k' \<Longrightarrow> only_sched k k'"
  by (auto simp: intr_set_level_eq only_sched_simple split: if_splits)

lemma only_sched_unblocked: "only_sched k (unblocked t k)"
  unfolding unblocked_def using only_sched_simple only_sched_trans by blast

lemma thread_unblock_only:
  assumes "thread_unblock t k = Some k'"
  shows "only_sched k k'"
proof -
  have "only_sched k (push (Set_level (intr_on k)) (unblocked t k))"
    using only_sched_trans [OF only_sched_unblocked only_sched_push] .
  then have "only_sched k k'" if "thread_yield (push (Set_level (intr_on k)) (unblocked t k)) = Some k'"
    using thread_yield_only [OF that] only_sched_trans by blast
  moreover have "only_sched k k'" if "intr_set_level (intr_on k) (unblocked t k) = Some k'"
    using intr_set_level_only [OF that] only_sched_trans [OF only_sched_unblocked] by blast
  ultimately show ?thesis
    using assms by (auto simp: thread_unblock_eq split: if_splits)
qed

section \<open>Priorities\<close>

definition by_priority :: "kernel \<Rightarrow> tptr list \<Rightarrow> bool" where
  "by_priority k ts \<longleftrightarrow> sorted_wrt (\<lambda>a b. priority k a \<ge> priority k b) ts"

lemma insert_by_priority:
  "by_priority k ts \<Longrightarrow> by_priority k (insert_ordered (priority_compare_two_thread k) t ts)"
  unfolding by_priority_def priority_compare_two_thread_def [abs_def] by (rule insert_ordered_sorted)

lemma by_priority_cong: "(\<And>t. priority k' t = priority k t) \<Longrightarrow> by_priority k' ts = by_priority k ts"
  by (simp add: by_priority_def)

lemma by_priority_tl: "by_priority k ts \<Longrightarrow> by_priority k (tl ts)"
  by (cases ts) (auto simp: by_priority_def)

lemma dispatch_highest:
  assumes "by_priority k (ready_list k)"
  shows "\<forall>t\<in>set (ready_list k). priority k t \<le> priority k (chosen k)"
  using assms by (cases "ready_list k") (auto simp: by_priority_def chosen_def)

lemma yield_highest:
  assumes "by_priority k (ready_list k)" "thread_yield k = Some k'" "cur k \<noteq> idle_thread k"
  shows "by_priority k' (ready_list k') \<and> (\<forall>t\<in>insert (cur k) (set (ready_list k)). priority k' t \<le> priority k' (cur k')) \<and>
    cur k' \<in> insert (cur k) (set (ready_list k))"
proof -
  let ?y = "yielded k"
  have k': "k' = dispatch ?y"
    using assms(2) by (auto simp: thread_yield_eq schedule_eq split: if_splits)
  have b: "by_priority k (ready_list ?y)"
    using insert_by_priority [OF assms(1)] assms(3) by simp
  then have "by_priority ?y (ready_list ?y)"
    by (simp add: by_priority_def)
  moreover have "ready_list ?y \<noteq> []"
    using assms(3) by simp
  ultimately show ?thesis
    using dispatch_highest [of ?y] by_priority_tl [OF b] chosen_in_ready [of ?y] assms(3)
    by (simp add: k' by_priority_def)
qed

end
