(* ===== verification/Synch.thy ===== *)
theory Synch
  imports Threads
begin

text \<open>
  Semaphores, locks with priority donation and condition variables: \<^verbatim>\<open>threads/synch.c\<close>.

  The lemmas show that every operation keeps the threads placed (\<open>sched_ok\<close>), and that a lock's
  semaphore, its holder and the threads on their way into or out of the lock always add up to one,
  which is mutual exclusion.
\<close>

section \<open>Semaphores\<close>

abbreviation (input) UINT_MOD :: nat where
  "UINT_MOD \<equiv> 4294967296"

definition set_sema :: "sema_id \<Rightarrow> (semaphore \<Rightarrow> semaphore) \<Rightarrow> kernel \<Rightarrow> kernel" where
  "set_sema s f k = k\<lparr>semas := (semas k)(s := f (semas k s))\<rparr>"

definition compare_priority :: "kernel \<Rightarrow> tptr \<Rightarrow> tptr \<Rightarrow> bool" where
  "compare_priority k a b \<longleftrightarrow> priority k a > priority k b"

definition sema_init :: "sema_id \<Rightarrow> nat \<Rightarrow> kernel \<Rightarrow> kernel" where
  "sema_init s v = set_sema s (\<lambda>_. \<lparr>s_value = v, s_waiters = []\<rparr>)"

text \<open>The loop of \<^verbatim>\<open>donate_priority\<close>, with the number of rounds still allowed.\<close>

fun donate_loop :: "nat \<Rightarrow> tptr \<Rightarrow> lock_id \<Rightarrow> kernel \<Rightarrow> kernel" where
  "donate_loop 0 t lk k = k"
| "donate_loop (Suc n) t lk k =
     (if t_waiting_lock (thr k t) \<noteq> NULL then
        if holder k lk \<noteq> NULL then
          if priority k t > priority k (holder k lk) then
            let h = holder k lk;
                k = upd h (\<lambda>c. c\<lparr>t_priority := priority k t\<rparr>) k
            in donate_loop n h (t_waiting_lock (thr k h)) k
          else k
        else k
      else k)"

definition donate_priority :: "kernel \<Rightarrow> kernel option" where
  "donate_priority k = do {
     curr \<leftarrow> thread_current k;
     Some (donate_loop 8 curr (t_waiting_lock (thr k curr)) k) }"

definition sema_down_loop :: "sema_id \<Rightarrow> bool \<Rightarrow> kernel \<Rightarrow> kernel option" where
  "sema_down_loop s old_level k =
     (if sval k s = 0 then do {
        k \<leftarrow> donate_priority k;
        t \<leftarrow> thread_current k;
        let k = set_sema s (\<lambda>c. c\<lparr>s_waiters := s_waiters c @ [t]\<rparr>) k;
        thread_block (push (Sema_retry s old_level) k) }
      else intr_set_level old_level (set_sema s (\<lambda>c. c\<lparr>s_value := s_value c - 1\<rparr>) k))"

definition sema_down :: "sema_id \<Rightarrow> kernel \<Rightarrow> kernel option" where
  "sema_down s k = do {
     curr \<leftarrow> thread_current k;
     ASSERT (\<not> intr_context k);
     let old_level = intr_get_level k;
     sema_down_loop s old_level (intr_disable k) }"

definition sema_try_down :: "sema_id \<Rightarrow> kernel \<Rightarrow> (bool \<times> kernel) option" where
  "sema_try_down s k = do {
     let old_level = intr_get_level k;
     let k = intr_disable k;
     let success = sval k s > 0;
     let k = (if success then set_sema s (\<lambda>c. c\<lparr>s_value := s_value c - 1\<rparr>) k else k);
     k \<leftarrow> intr_set_level old_level k;
     Some (success, k) }"

text \<open>\<^verbatim>\<open>list_sort\<close> is stable, so the waiters are sorted as \<^const>\<open>sort_key\<close> sorts them.\<close>

definition sema_up :: "sema_id \<Rightarrow> kernel \<Rightarrow> kernel option" where
  "sema_up s k = do {
     let old_level = intr_get_level k;
     let k = intr_disable k;
     let k = set_sema s (\<lambda>c. c\<lparr>s_value := (s_value c + 1) mod UINT_MOD\<rparr>) k;
     case sort_key (\<lambda>t. - priority k t) (waiters k s) of
       [] \<Rightarrow> intr_set_level old_level k
     | most_priority # rest \<Rightarrow>
         thread_unblock most_priority
           (push (Set_level old_level) (set_sema s (\<lambda>c. c\<lparr>s_waiters := rest\<rparr>) k)) }"

section \<open>Locks\<close>

definition lock_init :: "lock_id \<Rightarrow> kernel \<Rightarrow> kernel option" where
  "lock_init l k = do {
     ASSERT (l \<noteq> NULL);
     Some (sema_init (Lock_sema l) 1 (k\<lparr>holder := (holder k)(l := NULL)\<rparr>)) }"

definition lock_held_by_current_thread :: "lock_id \<Rightarrow> kernel \<Rightarrow> bool option" where
  "lock_held_by_current_thread l k = do {
     ASSERT (l \<noteq> NULL);
     t \<leftarrow> thread_current k;
     Some (holder k l = t) }"

text \<open>
  \<^verbatim>\<open>compare_priority\<close> applied to \<^verbatim>\<open>donation_elem\<close> nodes. It computes the thread from the node as if
  the node were the thread's \<^verbatim>\<open>elem\<close>, so the word it reads as \<^verbatim>\<open>priority\<close> is the one just in front of
  \<^verbatim>\<open>donation_elem\<close>: the pointer \<^verbatim>\<open>waiting_lock\<close>, read as a signed 32-bit integer.
\<close>

definition ptr_int :: "nat \<Rightarrow> int" where
  "ptr_int p = (if p < 2147483648 then int p else int p - 4294967296)"

definition donor_key :: "kernel \<Rightarrow> tptr \<Rightarrow> int" where
  "donor_key k t = ptr_int (t_waiting_lock (thr k t))"

definition lock_acquire :: "lock_id \<Rightarrow> kernel \<Rightarrow> kernel option" where
  "lock_acquire l k = do {
     ASSERT (l \<noteq> NULL);
     ASSERT (\<not> intr_context k);
     held \<leftarrow> lock_held_by_current_thread l k;
     ASSERT (\<not> held);
     curr \<leftarrow> thread_current k;
     let pre_level = intr_get_level k;
     let k = intr_disable k;
     let k = (if holder k l \<noteq> NULL then
                let k = upd curr (\<lambda>c. c\<lparr>t_waiting_lock := l\<rparr>) k in
                upd (holder k l) (\<lambda>c. c\<lparr>t_potential_donator :=
                  insert_ordered (\<lambda>a b. donor_key k a > donor_key k b) curr (t_potential_donator c)\<rparr>) k
              else k);
     sema_down (Lock_sema l) (push (Lock_got l pre_level) k) }"

definition lock_acquire_end :: "lock_id \<Rightarrow> bool \<Rightarrow> kernel \<Rightarrow> kernel option" where
  "lock_acquire_end l pre_level k = do {
     t \<leftarrow> thread_current k;
     intr_set_level pre_level (k\<lparr>holder := (holder k)(l := t)\<rparr>) }"

definition lock_try_acquire :: "lock_id \<Rightarrow> kernel \<Rightarrow> (bool \<times> kernel) option" where
  "lock_try_acquire l k = do {
     ASSERT (l \<noteq> NULL);
     held \<leftarrow> lock_held_by_current_thread l k;
     ASSERT (\<not> held);
     curr \<leftarrow> thread_current k;
     let pre_level = intr_get_level k;
     let k = intr_disable k;
     (success, k) \<leftarrow> sema_try_down (Lock_sema l) k;
     let k = (if success
              then (upd curr (\<lambda>c. c\<lparr>t_waiting_lock := NULL\<rparr>) k)\<lparr>holder := (holder k)(l := curr)\<rparr>
              else k);
     k \<leftarrow> intr_set_level pre_level k;
     Some (success, k) }"

definition restore_priority :: "lock_id \<Rightarrow> kernel \<Rightarrow> kernel option" where
  "restore_priority l k = do {
     curr \<leftarrow> thread_current k;
     let donors = sort_key (\<lambda>t. - donor_key k t) (t_potential_donator (thr k curr));
     let donors = filter (\<lambda>t. t_waiting_lock (thr k t) \<noteq> l) donors;
     let k = upd curr (\<lambda>c. c\<lparr>t_priority := t_origin_priority c\<rparr>) k;
     let donors = sort_key (\<lambda>t. - donor_key k t) donors;
     let k = upd curr (\<lambda>c. c\<lparr>t_potential_donator := donors\<rparr>) k;
     Some (case donors of
         [] \<Rightarrow> k
       | maybe_donator # _ \<Rightarrow>
           if priority k maybe_donator > priority k curr
           then upd curr (\<lambda>c. c\<lparr>t_priority := priority k maybe_donator\<rparr>) k
           else k) }"

text \<open>The holder is cleared before interrupts are turned off, so another thread can run in between.\<close>

definition lock_release :: "lock_id \<Rightarrow> kernel \<Rightarrow> kernel option" where
  "lock_release l k = do {
     ASSERT (l \<noteq> NULL);
     held \<leftarrow> lock_held_by_current_thread l k;
     ASSERT held;
     Some (push (Release_rest l) (k\<lparr>holder := (holder k)(l := NULL)\<rparr>)) }"

definition lock_release_rest :: "lock_id \<Rightarrow> kernel \<Rightarrow> kernel option" where
  "lock_release_rest l k = do {
     let pre_level = intr_get_level k;
     k \<leftarrow> restore_priority l (intr_disable k);
     sema_up (Lock_sema l) (push (Set_level pre_level) k) }"

section \<open>Condition variables\<close>

definition cond_init :: "nat \<Rightarrow> kernel \<Rightarrow> kernel" where
  "cond_init c k = k\<lparr>cond_waiters := (cond_waiters k)(c := [])\<rparr>"

text \<open>\<open>w\<close> is the semaphore of the \<^verbatim>\<open>semaphore_elem\<close> on the stack of the waiting thread.\<close>

definition cond_wait :: "nat \<Rightarrow> lock_id \<Rightarrow> sema_id \<Rightarrow> kernel \<Rightarrow> kernel option" where
  "cond_wait c l w k = do {
     ASSERT (l \<noteq> NULL);
     ASSERT (\<not> intr_context k);
     held \<leftarrow> lock_held_by_current_thread l k;
     ASSERT held;
     let k = sema_init w 0 k;
     let k = k\<lparr>cond_waiters := (cond_waiters k)(c := cond_waiters k c @ [w])\<rparr>;
     lock_release l (push (Call_sema_down w) (push (Call_lock_acquire l) k)) }"

text \<open>\<^verbatim>\<open>compare_sema_priority\<close> compares the first waiters of two semaphores; \<^verbatim>\<open>list_front\<close> panics on an
  empty list. In its first pass \<^verbatim>\<open>list_sort\<close> compares each element of a list of two or more.\<close>

definition front_priority :: "kernel \<Rightarrow> sema_id \<Rightarrow> int option" where
  "front_priority k w = (case waiters k w of [] \<Rightarrow> None | t # _ \<Rightarrow> Some (priority k t))"

definition compare_sema_priority :: "kernel \<Rightarrow> sema_id \<Rightarrow> sema_id \<Rightarrow> bool option" where
  "compare_sema_priority k a b = do {
     pa \<leftarrow> front_priority k a;
     pb \<leftarrow> front_priority k b;
     Some (pa > pb) }"

definition sort_cond_waiters :: "kernel \<Rightarrow> sema_id list \<Rightarrow> sema_id list option" where
  "sort_cond_waiters k ws =
     (if length ws < 2 then Some ws
      else if \<exists>w\<in>set ws. front_priority k w = None then None
      else Some (sort_key (\<lambda>w. - the (front_priority k w)) ws))"

definition cond_signal :: "nat \<Rightarrow> lock_id \<Rightarrow> kernel \<Rightarrow> kernel option" where
  "cond_signal c l k = do {
     ASSERT (l \<noteq> NULL);
     ASSERT (\<not> intr_context k);
     held \<leftarrow> lock_held_by_current_thread l k;
     ASSERT held;
     ws \<leftarrow> sort_cond_waiters k (cond_waiters k c);
     case ws of
       [] \<Rightarrow> Some k
     | w # ws \<Rightarrow> sema_up w (k\<lparr>cond_waiters := (cond_waiters k)(c := ws)\<rparr>) }"

definition cond_broadcast :: "nat \<Rightarrow> lock_id \<Rightarrow> kernel \<Rightarrow> kernel option" where
  "cond_broadcast c l k = do {
     ASSERT (l \<noteq> NULL);
     if cond_waiters k c \<noteq> [] then cond_signal c l (push (Call_broadcast c l) k) else Some k }"

section \<open>Threads stay placed\<close>

lemma set_sema_sel [simp]:
  "thr (set_sema s f k) = thr k" "cur (set_sema s f k) = cur k" "ready_list (set_sema s f k) = ready_list k"
  "sleeping_list (set_sema s f k) = sleeping_list k" "idle_thread (set_sema s f k) = idle_thread k"
  "initial_thread (set_sema s f k) = initial_thread k" "is_thread (set_sema s f k) t = is_thread k t"
  "semas (set_sema s f k) s' = (if s' = s then f (semas k s) else semas k s')"
  "holder (set_sema s f k) = holder k" "in_external_intr (set_sema s f k) = in_external_intr k"
  "intr_on (set_sema s f k) = intr_on k" "cond_waiters (set_sema s f k) = cond_waiters k"
  by (simp_all add: set_sema_def is_thread_def)

lemma upd_sel [simp]:
  "cur (upd t f k) = cur k" "ready_list (upd t f k) = ready_list k" "sleeping_list (upd t f k) = sleeping_list k"
  "semas (upd t f k) = semas k" "idle_thread (upd t f k) = idle_thread k" "holder (upd t f k) = holder k"
  "initial_thread (upd t f k) = initial_thread k" "in_external_intr (upd t f k) = in_external_intr k"
  "intr_on (upd t f k) = intr_on k" "cond_waiters (upd t f k) = cond_waiters k" "next_tid (upd t f k) = next_tid k"
  "tid_lock (upd t f k) = tid_lock k"
  by (simp_all add: upd_def)

lemma upd_thr [simp]:
  "(\<And>c. t_magic (f c) = t_magic c) \<Longrightarrow> is_thread (upd t f k) u = is_thread k u"
  "(\<And>c. t_frames (f c) = t_frames c) \<Longrightarrow> frames (upd t f k) u = frames k u"
  by (auto simp: upd_def is_thread_def)

lemma same_place_upd:
  "(\<And>c. t_status (f c) = t_status c \<and> t_magic (f c) = t_magic c) \<Longrightarrow> same_place k (upd t f k)"
  by (simp add: same_place_def thread_defs)

lemma same_place_set_sema:
  "(\<And>c. s_waiters (f c) = s_waiters c) \<Longrightarrow> same_place k (set_sema s f k)"
  by (simp add: same_place_def)

lemma same_place_holder: "same_place k (k\<lparr>holder := h\<rparr>)" "same_place k (k\<lparr>cond_waiters := w\<rparr>)"
  by (simp_all add: same_place_def)

lemma same_place_trans: "same_place k k1 \<Longrightarrow> same_place k1 k2 \<Longrightarrow> same_place k k2"
  by (auto simp: same_place_def)

lemma donate_loop_prio:
  "\<exists>p. donate_loop n t lk k = k\<lparr>thr := \<lambda>u. (thr k u)\<lparr>t_priority := p u\<rparr>\<rparr>"
proof (induction n arbitrary: t lk k)
  case 0
  have "k = k\<lparr>thr := \<lambda>u. (thr k u)\<lparr>t_priority := priority k u\<rparr>\<rparr>"
    by simp
  then show ?case
    by (metis donate_loop.simps(1))
next
  case (Suc n)
  have id: "\<exists>p. k = k\<lparr>thr := \<lambda>u. (thr k u)\<lparr>t_priority := p u\<rparr>\<rparr>"
    by (rule exI [of _ "priority k"]) simp
  let ?h = "holder k lk"
  let ?k = "upd ?h (\<lambda>c. c\<lparr>t_priority := priority k t\<rparr>) k"
  obtain p where "donate_loop n ?h (t_waiting_lock (thr ?k ?h)) ?k = ?k\<lparr>thr := \<lambda>u. (thr ?k u)\<lparr>t_priority := p u\<rparr>\<rparr>"
    using Suc by blast
  moreover have "(\<lambda>u. (thr ?k u)\<lparr>t_priority := p u\<rparr>) = (\<lambda>u. (thr k u)\<lparr>t_priority := p u\<rparr>)"
    by (auto simp: upd_def)
  moreover have "?k\<lparr>thr := f\<rparr> = k\<lparr>thr := f\<rparr>" for f
    by (simp add: upd_def)
  ultimately have "donate_loop n ?h (t_waiting_lock (thr ?k ?h)) ?k = k\<lparr>thr := \<lambda>u. (thr k u)\<lparr>t_priority := p u\<rparr>\<rparr>"
    by metis
  then show ?case
    using id by (auto simp: Let_def)
qed

lemma donated_place: "same_place k (k\<lparr>thr := \<lambda>u. (thr k u)\<lparr>t_priority := p u\<rparr>\<rparr>)"
  by (simp add: same_place_def)

lemma set_status_push: "set_status t st (push f k) = push f (set_status t st k)"
  by (auto simp: thread_defs intro!: kernel.equality)

lemma one_list_wait:
  assumes "one_list k" "\<not> parked k t"
  shows "one_list (set_sema s (\<lambda>c. c\<lparr>s_waiters := s_waiters c @ [t]\<rparr>) k)"
proof -
  have "u \<in> set (waiters k a) \<Longrightarrow> u \<in> set (waiters k b) \<Longrightarrow> a = b" for u a b
    using assms(1) unfolding one_list_def by blast
  moreover have "t \<notin> set (waiters k a)" for a
    using assms(2) by (auto simp: parked_def)
  ultimately show ?thesis
    using assms by (auto simp: one_list_def parked_def)
qed

lemma wait_parked:
  assumes "sched_ok X k" "cur k \<noteq> idle_thread k"
  shows "sched_off X (set_status (cur k) THREAD_BLOCKED (set_sema s (\<lambda>c. c\<lparr>s_waiters := s_waiters c @ [cur k]\<rparr>) k))"
proof (rule leave_parked [OF assms])
  have new: "\<not> parked k (cur k)"
    using assms(1) by (auto simp: sched_ok_def placed_def states_agree_def)
  then show "one_list (set_sema s (\<lambda>c. c\<lparr>s_waiters := s_waiters c @ [cur k]\<rparr>) k)"
    using assms(1) by (intro one_list_wait) (auto simp: sched_ok_def placed_def)
qed (auto simp: parked_def split: if_splits)

lemma sema_down_loop_cases:
  assumes "sched_ok X k" "sema_down_loop s b k = Some k'"
  obtains (wait) p k1 where "sval k s = 0" "k1 = k\<lparr>thr := \<lambda>u. (thr k u)\<lparr>t_priority := p u\<rparr>\<rparr>" "sched_ok X k1"
      "thread_block (push (Sema_retry s b) (set_sema s (\<lambda>c. c\<lparr>s_waiters := s_waiters c @ [cur k]\<rparr>) k1)) = Some k'"
  | (take) "sval k s > 0" "intr_set_level b (set_sema s (\<lambda>c. c\<lparr>s_value := s_value c - 1\<rparr>) k) = Some k'"
proof (cases "sval k s = 0")
  case True
  obtain p where "donate_loop 8 (cur k) (t_waiting_lock (thr k (cur k))) k = k\<lparr>thr := \<lambda>u. (thr k u)\<lparr>t_priority := p u\<rparr>\<rparr>"
    using donate_loop_prio by blast
  moreover have ok: "sched_ok X (k\<lparr>thr := \<lambda>u. (thr k u)\<lparr>t_priority := p u\<rparr>\<rparr>)"
    using assms(1) same_place_sched(1) [OF donated_place] by simp
  ultimately show ?thesis
    using assms True thread_current_ok [OF assms(1)] thread_current_ok [OF ok]
    by (intro wait [OF True refl ok]) (simp add: sema_down_loop_def donate_priority_def)
next
  case False
  then show ?thesis
    using assms(2) take by (simp add: sema_down_loop_def)
qed

lemma sema_down_loop_ok:
  assumes "sched_ok X k" "cur k \<noteq> idle_thread k" "sema_down_loop s b k = Some k'"
  shows "sched_ok X k'"
  using assms(1,3)
proof (cases rule: sema_down_loop_cases)
  case (wait p k1)
  have c: "cur k1 = cur k" "idle_thread k1 = idle_thread k"
    using wait(2) by simp_all
  let ?w = "set_sema s (\<lambda>c. c\<lparr>s_waiters := s_waiters c @ [cur k]\<rparr>) k1"
  show ?thesis
    using wait_parked [OF wait(3), of s] assms(2) c thread_block_ok [OF _ wait(4), of X]
    by (auto simp: set_status_push)
next
  case take
  then show ?thesis
    using intr_set_level_ok [of X "set_sema s (\<lambda>c. c\<lparr>s_value := s_value c - 1\<rparr>) k"] assms(1)
      same_place_sched(1) [OF same_place_set_sema [of "\<lambda>c. c\<lparr>s_value := s_value c - 1\<rparr>"]] by simp
qed

lemma sema_down_eq:
  "sched_ok X k \<Longrightarrow> sema_down s k = (if in_external_intr k then None else sema_down_loop s (intr_on k) (k\<lparr>intr_on := False\<rparr>))"
  by (simp add: sema_down_def thread_current_ok intr_context_def intr_get_level_def intr_disable_def)

lemma sema_down_ok:
  assumes "sched_ok X k" "cur k \<noteq> idle_thread k" "sema_down s k = Some k'"
  shows "sched_ok X k'"
  using assms sema_down_loop_ok [of X "k\<lparr>intr_on := False\<rparr>"] by (simp add: sema_down_eq split: if_splits)

lemma sema_try_down_ok:
  assumes "sched_ok X k" "sema_try_down s k = Some (r, k')"
  shows "sched_ok X k'"
proof -
  let ?d = "k\<lparr>intr_on := False\<rparr>"
  have d: "sched_ok X ?d"
    using assms(1) by simp
  then have "sched_ok X (set_sema s (\<lambda>c. c\<lparr>s_value := s_value c - 1\<rparr>) ?d)"
    using same_place_sched(1) [OF same_place_set_sema [of "\<lambda>c. c\<lparr>s_value := s_value c - 1\<rparr>"]] by simp
  with d show ?thesis
    using assms(2) by (auto simp: sema_try_down_def Let_def intr_disable_def intr_get_level_def intr_set_level_eq
        split: if_splits)
qed

text \<open>The state in which \<^verbatim>\<open>sema_up\<close> wakes the waiter it chose.\<close>

definition sema_wake :: "sema_id \<Rightarrow> tptr list \<Rightarrow> kernel \<Rightarrow> kernel" where
  "sema_wake s rest k = push (Set_level (intr_on k))
     (set_sema s (\<lambda>c. c\<lparr>s_value := (s_value c + 1) mod UINT_MOD, s_waiters := rest\<rparr>) (k\<lparr>intr_on := False\<rparr>))"

lemma sema_up_eq:
  "sema_up s k = (case sort_key (\<lambda>t. - priority k t) (waiters k s) of
       [] \<Rightarrow> intr_set_level (intr_on k) (set_sema s (\<lambda>c. c\<lparr>s_value := (s_value c + 1) mod UINT_MOD\<rparr>) (k\<lparr>intr_on := False\<rparr>))
     | t # rest \<Rightarrow> thread_unblock t (sema_wake s rest k))"
  by (simp add: sema_up_def sema_wake_def intr_get_level_def intr_disable_def set_sema_def Let_def
      cong: list.case_cong)

lemma sema_wake_parked:
  assumes "sched_ok X k" "sort_key f (waiters k s) = t # rest"
  shows "sched_ok (insert t X) (sema_wake s rest k) \<and> t \<notin> X"
proof -
  have w: "mset (waiters k s) = add_mset t (mset rest)"
    by (metis assms(2) mset.simps(2) mset_sort)
  then have s: "set (waiters k s) = insert t (set rest)" and d: "distinct (waiters k s) \<Longrightarrow> t \<notin> set rest \<and> distinct rest"
    by (metis set_mset_add_mset_insert set_mset_mset, metis distinct.simps(2) mset.simps(2) mset_eq_imp_distinct_iff)
  let ?k1 = "set_sema s (\<lambda>c. c\<lparr>s_value := (s_value c + 1) mod UINT_MOD, s_waiters := rest\<rparr>) (k\<lparr>intr_on := False\<rparr>)"
  have one: "one_list k"
    using assms(1) by (simp add: sched_ok_def placed_def)
  then have nt: "t \<notin> set rest" "distinct rest" "t \<notin> set (sleeping_list k)" "t \<notin> set (waiters k s')" if "s' \<noteq> s" for s'
    using s d that unfolding one_list_def by blast+
  have dr: "t \<notin> set rest \<and> distinct rest \<and> t \<notin> set (sleeping_list k)"
    using one s d unfolding one_list_def by blast
  have "u \<in> set rest \<Longrightarrow> u \<in> set (waiters k a) \<Longrightarrow> a = s" "u \<in> set rest \<Longrightarrow> u \<notin> set (sleeping_list k)" for u a
    using one s unfolding one_list_def by blast+
  then have "one_list ?k1"
    using one s dr by (auto simp: one_list_def)
  moreover have "(\<exists>a. u \<in> set (waiters ?k1 a)) \<longleftrightarrow> (\<exists>a. u \<in> set (waiters k a)) \<and> u \<noteq> t" for u
    using s dr nt by (simp add: if_distrib) (metis insert_iff)
  then have "parked ?k1 u \<longleftrightarrow> parked (k\<lparr>intr_on := False\<rparr>) u \<and> u \<noteq> t" for u
    using dr by (auto simp: parked_def)
  moreover have "parked (k\<lparr>intr_on := False\<rparr>) t"
    using s by (auto simp: parked_def)
  ultimately have "sched_ok (insert t X) ?k1 \<and> t \<notin> X"
    using assms(1) by (intro take_parked [of X "k\<lparr>intr_on := False\<rparr>"]) auto
  then show ?thesis
    by (simp add: sema_wake_def)
qed

lemma sema_up_ok:
  assumes "sched_ok X k" "sema_up s k = Some k'"
  shows "sched_ok X k'"
proof (cases "sort_key (\<lambda>t. - priority k t) (waiters k s)")
  case Nil
  then show ?thesis
    using assms intr_set_level_ok [of X "set_sema s (\<lambda>c. c\<lparr>s_value := (s_value c + 1) mod UINT_MOD\<rparr>) (k\<lparr>intr_on := False\<rparr>)"]
      same_place_sched(1) [OF same_place_set_sema [of "\<lambda>c. c\<lparr>s_value := (s_value c + 1) mod UINT_MOD\<rparr>"]]
    by (simp add: sema_up_eq)
next
  case (Cons t rest)
  then show ?thesis
    using assms sema_wake_parked [OF assms(1) Cons] thread_unblock_ok by (auto simp: sema_up_eq)
qed

lemma lock_held_ok: "sched_ok X k \<Longrightarrow> lock_held_by_current_thread l k = (if l = NULL then None else Some (holder k l = cur k))"
  by (simp add: lock_held_by_current_thread_def thread_current_ok)

text \<open>The state in which \<^verbatim>\<open>lock_acquire\<close> calls \<^verbatim>\<open>sema_down\<close>, its own frame apart.\<close>

definition lock_wait :: "lock_id \<Rightarrow> kernel \<Rightarrow> kernel" where
  "lock_wait l k = (let k = intr_disable k in
     if holder k l \<noteq> NULL then
       let k = upd (cur k) (\<lambda>c. c\<lparr>t_waiting_lock := l\<rparr>) k in
       upd (holder k l) (\<lambda>c. c\<lparr>t_potential_donator :=
         insert_ordered (\<lambda>a b. donor_key k a > donor_key k b) (cur k) (t_potential_donator c)\<rparr>) k
     else k)"

lemma lock_acquire_eq:
  assumes "sched_ok X k"
  shows "lock_acquire l k = (if l = NULL \<or> in_external_intr k \<or> holder k l = cur k then None
     else sema_down (Lock_sema l) (push (Lock_got l (intr_on k)) (lock_wait l k)))"
  using lock_held_ok [OF assms] thread_current_ok [OF assms]
  by (simp add: lock_acquire_def lock_wait_def Let_def intr_context_def intr_get_level_def intr_disable_def upd_def)

lemma lock_wait_sel [simp]:
  "cur (lock_wait l k) = cur k" "idle_thread (lock_wait l k) = idle_thread k" "semas (lock_wait l k) = semas k"
  "holder (lock_wait l k) = holder k" "is_thread (lock_wait l k) t = is_thread k t"
  "frames (lock_wait l k) t = frames k t" "in_external_intr (lock_wait l k) = in_external_intr k"
  "next_tid (lock_wait l k) = next_tid k" "tid_lock (lock_wait l k) = tid_lock k"
  "cond_waiters (lock_wait l k) = cond_waiters k" "initial_thread (lock_wait l k) = initial_thread k"
  "intr_on (lock_wait l k) = False" "sleeping_list (lock_wait l k) = sleeping_list k"
  by (simp_all add: lock_wait_def Let_def intr_disable_def upd_def is_thread_def)

lemma lock_wait_place: "same_place k (lock_wait l k)"
  by (simp add: lock_wait_def Let_def intr_disable_def upd_def same_place_def)

lemma lock_acquire_ok:
  assumes "sched_ok X k" "cur k \<noteq> idle_thread k" "lock_acquire l k = Some k'"
  shows "sched_ok X k'"
  using assms sema_down_ok [of X "push (Lock_got l (intr_on k)) (lock_wait l k)" "Lock_sema l" k']
    same_place_sched(1) [OF lock_wait_place, of X l k]
  by (simp add: lock_acquire_eq split: if_splits)

lemma lock_acquire_end_ok:
  assumes "sched_ok X k" "lock_acquire_end l b k = Some k'"
  shows "sched_ok X k'"
  using assms intr_set_level_ok [of X "k\<lparr>holder := (holder k)(l := cur k)\<rparr>"] same_place_sched(1) [OF same_place_holder(1)]
  by (simp add: lock_acquire_end_def thread_current_ok)

lemma restore_priority_eq:
  assumes "sched_ok X k"
  shows "\<exists>p d. restore_priority l k = Some (upd (cur k) (\<lambda>c. c\<lparr>t_priority := p, t_potential_donator := d\<rparr>) k)"
proof -
  have *: "upd t (\<lambda>c. c\<lparr>t_potential_donator := d\<rparr>) (upd t (\<lambda>c. c\<lparr>t_priority := t_origin_priority c\<rparr>) k) =
      upd t (\<lambda>c. c\<lparr>t_priority := t_origin_priority (thr k t), t_potential_donator := d\<rparr>) k"
    "upd t (\<lambda>c. c\<lparr>t_priority := p\<rparr>) (upd t (\<lambda>c. c\<lparr>t_priority := q, t_potential_donator := d\<rparr>) k) =
      upd t (\<lambda>c. c\<lparr>t_priority := p, t_potential_donator := d\<rparr>) k" for t d p q
    by (auto simp: upd_def intro!: kernel.equality)
  show ?thesis
    using thread_current_ok [OF assms]
    by (auto simp: restore_priority_def Let_def * split: list.split)
qed

lemma restored_place: "same_place k (upd t (\<lambda>c. c\<lparr>t_priority := p, t_potential_donator := d\<rparr>) k)"
  by (simp add: same_place_upd)

lemma lock_release_eq:
  assumes "sched_ok X k"
  shows "lock_release l k = (if l = NULL \<or> holder k l \<noteq> cur k then None
    else Some (push (Release_rest l) (k\<lparr>holder := (holder k)(l := NULL)\<rparr>)))"
  using lock_held_ok [OF assms] by (simp add: lock_release_def)

lemma lock_release_ok:
  assumes "sched_ok X k" "lock_release l k = Some k'"
  shows "sched_ok X k'"
  using assms(2) unfolding lock_release_eq [OF assms(1)]
  using assms(1) same_place_sched(1) [OF same_place_holder(1)] by (auto split: if_splits)

lemma lock_release_rest_cases:
  assumes "sched_ok X k" "lock_release_rest l k = Some k'"
  obtains p d where "sched_ok X (push (Set_level (intr_on k))
      (upd (cur k) (\<lambda>c. c\<lparr>t_priority := p, t_potential_donator := d\<rparr>) (k\<lparr>intr_on := False\<rparr>)))"
    "sema_up (Lock_sema l) (push (Set_level (intr_on k))
      (upd (cur k) (\<lambda>c. c\<lparr>t_priority := p, t_potential_donator := d\<rparr>) (k\<lparr>intr_on := False\<rparr>))) = Some k'"
proof -
  have ok: "sched_ok X (k\<lparr>intr_on := False\<rparr>)"
    using assms(1) by simp
  obtain p d where r: "restore_priority l (k\<lparr>intr_on := False\<rparr>) =
      Some (upd (cur k) (\<lambda>c. c\<lparr>t_priority := p, t_potential_donator := d\<rparr>) (k\<lparr>intr_on := False\<rparr>))"
    using restore_priority_eq [OF ok, of l] by auto
  show ?thesis
    using that assms(2) ok r same_place_sched(1) [OF restored_place]
    by (simp add: lock_release_rest_def intr_disable_def intr_get_level_def)
qed

lemma lock_release_rest_ok:
  assumes "sched_ok X k" "lock_release_rest l k = Some k'"
  shows "sched_ok X k'"
  using assms by (rule lock_release_rest_cases) (rule sema_up_ok)

lemma lock_try_acquire_ok:
  assumes "sched_ok X k" "lock_try_acquire l k = Some (r, k')"
  shows "sched_ok X k'"
proof -
  obtain k1 where d: "sema_try_down (Lock_sema l) (k\<lparr>intr_on := False\<rparr>) = Some (r, k1)"
    and k': "intr_set_level (intr_on k) (if r then (upd (cur k) (\<lambda>c. c\<lparr>t_waiting_lock := NULL\<rparr>) k1)
      \<lparr>holder := (holder k1)(l := cur k)\<rparr> else k1) = Some k'"
    using assms(2) lock_held_ok [OF assms(1)] thread_current_ok [OF assms(1)]
    by (auto simp: lock_try_acquire_def Let_def intr_disable_def intr_get_level_def split: if_splits
        dest!: bind_eq_SomeD)
  have ok: "sched_ok X k1"
    using sema_try_down_ok [OF _ d, of X] assms(1) by simp
  have "sched_ok X ((upd (cur k) (\<lambda>c. c\<lparr>t_waiting_lock := NULL\<rparr>) k1)\<lparr>holder := (holder k1)(l := cur k)\<rparr>)"
    using ok same_place_sched(1) [OF same_place_trans [OF same_place_upd same_place_holder(1)]] by simp
  with ok intr_set_level_ok [OF _ k'] show ?thesis
    by auto
qed

lemma sema_init_ok:
  assumes "sched_ok X k" "waiters k s = []"
  shows "sched_ok X (sema_init s v k)"
proof -
  have "same_place k (sema_init s v k)"
    using assms(2) by (simp add: same_place_def sema_init_def)
  then show ?thesis
    using assms(1) same_place_sched(1) by simp
qed

lemma cond_wait_ok:
  assumes "sched_ok X k" "waiters k w = []" "cond_wait c l w k = Some k'"
  shows "sched_ok X k'"
proof -
  let ?k = "(sema_init w 0 k)\<lparr>cond_waiters := (cond_waiters k)(c := cond_waiters k c @ [w])\<rparr>"
  have "sched_ok X ?k"
    using sema_init_ok [OF assms(1,2)] same_place_sched(1) [OF same_place_holder(2)] by simp
  then have "sched_ok X (push (Call_sema_down w) (push (Call_lock_acquire l) ?k))"
    by simp
  from lock_release_ok [OF this, of l k'] show ?thesis
    using assms(3) lock_held_ok [OF assms(1)]
    by (auto simp: cond_wait_def Let_def sema_init_def split: if_splits)
qed

lemma cond_signal_ok:
  assumes "sched_ok X k" "cond_signal c l k = Some k'"
  shows "sched_ok X k'"
proof -
  have ok: "sched_ok X (k\<lparr>cond_waiters := w\<rparr>)" for w
    using assms(1) same_place_sched(1) [OF same_place_holder(2)] by simp
  show ?thesis
    using assms sema_up_ok [OF ok]
    by (auto simp: cond_signal_def lock_held_ok split: list.splits if_splits dest!: bind_eq_SomeD)
qed

lemma cond_broadcast_ok:
  assumes "sched_ok X k" "cond_broadcast c l k = Some k'"
  shows "sched_ok X k'"
  using assms cond_signal_ok [of X "push (Call_broadcast c l) k"]
  by (auto simp: cond_broadcast_def split: if_splits)

section \<open>Mutual exclusion\<close>

text \<open>
  \<open>owing fs\<close> is the lock that the thread with stack \<open>fs\<close> is just entering, having taken its semaphore,
  or just leaving, not having returned it. \<open>inside k l\<close> are the threads at one of these points, and
  \<open>lock_sum k l\<close> adds up everything that stands for the possession of the lock.
\<close>

fun owing :: "frame list \<Rightarrow> lock_id option" where
  "owing (Set_level _ # fs) = owing fs"
| "owing (Iret # fs) = owing fs"
| "owing (Lock_got l _ # _) = Some l"
| "owing (Release_rest l # _) = Some l"
| "owing _ = None"

definition sema_lock :: "sema_id \<Rightarrow> lock_id option" where
  "sema_lock s = (case s of Lock_sema l \<Rightarrow> Some l | _ \<Rightarrow> None)"

text \<open>What may lie under a frame: \<^verbatim>\<open>sema_down\<close> on a lock is called by \<^verbatim>\<open>lock_acquire\<close> only, not by
  \<^verbatim>\<open>cond_wait\<close>, and no function is called between taking a lock's semaphore and recording the holder.\<close>

fun stack_ok :: "frame list \<Rightarrow> bool" where
  "stack_ok [] \<longleftrightarrow> True"
| "stack_ok (Set_level _ # fs) \<longleftrightarrow> stack_ok fs"
| "stack_ok (Iret # fs) \<longleftrightarrow> stack_ok fs"
| "stack_ok (Sema_retry s _ # fs) \<longleftrightarrow> stack_ok fs \<and> owing fs = sema_lock s"
| "stack_ok (Call_sema_down s # fs) \<longleftrightarrow> stack_ok fs \<and> owing fs = None \<and> sema_lock s = None"
| "stack_ok (_ # fs) \<longleftrightarrow> stack_ok fs \<and> owing fs = None"

definition inside :: "kernel \<Rightarrow> lock_id \<Rightarrow> tptr set" where
  "inside k l = {t. is_thread k t \<and> owing (frames k t) = Some l}"

definition held :: "kernel \<Rightarrow> lock_id \<Rightarrow> nat" where
  "held k l = (if holder k l = NULL then 0 else 1)"

definition lock_sum :: "kernel \<Rightarrow> lock_id \<Rightarrow> nat" where
  "lock_sum k l = sval k (Lock_sema l) + held k l + card (inside k l)"

definition lock_sums :: "kernel \<Rightarrow> (lock_id \<Rightarrow> nat) \<Rightarrow> bool" where
  "lock_sums k f \<longleftrightarrow> (\<forall>t. is_thread k t \<longrightarrow> stack_ok (frames k t)) \<and> (\<forall>l. finite (inside k l) \<and> lock_sum k l = f l)"

definition locks_ok :: "kernel \<Rightarrow> bool" where
  "locks_ok k \<longleftrightarrow> lock_sums k (\<lambda>_. 1)"

lemma owing_Set_level [simp]: "owing (map Set_level bs @ fs) = owing fs"
  by (induction bs) auto

lemma stack_ok_Set_level [simp]: "stack_ok (map Set_level bs @ fs) = stack_ok fs"
  by (induction bs) auto

lemma only_sched_lock_sums:
  assumes "only_sched k k'"
  shows "lock_sums k' f = lock_sums k f"
proof -
  have o: "owing (frames k' t) = owing (frames k t) \<and> stack_ok (frames k' t) = stack_ok (frames k t)" for t
    using assms unfolding only_sched_def by (metis owing_Set_level stack_ok_Set_level)
  then have "inside k' l = inside k l" for l
    using assms by (simp add: inside_def only_sched_def)
  then show ?thesis
    using assms o by (simp add: lock_sums_def lock_sum_def held_def only_sched_def)
qed

text \<open>A step of the running thread changes its own stack and the lock data.\<close>

lemma lock_sums_step:
  assumes "lock_sums k f" "is_thread k c" "\<And>t. is_thread k' t = is_thread k t"
    and "\<And>t. t \<noteq> c \<Longrightarrow> frames k' t = frames k t" "stack_ok (frames k' c)"
    and "\<And>l. g l + sval k (Lock_sema l) + held k l + of_bool (owing (frames k c) = Some l) =
      f l + sval k' (Lock_sema l) + held k' l + of_bool (owing (frames k' c) = Some l)"
  shows "lock_sums k' g"
proof -
  have "finite (inside k' l) \<and> lock_sum k' l = g l" for l
  proof -
    define R where "R = inside k l - {c}"
    have old: "inside k l = R \<union> (if owing (frames k c) = Some l then {c} else {})"
      and new: "inside k' l = R \<union> (if owing (frames k' c) = Some l then {c} else {})"
      using assms(2-4) by (auto simp: R_def inside_def split: if_splits) metis+
    have fin: "finite R" "c \<notin> R" and f: "lock_sum k l = f l"
      using assms(1) by (auto simp: R_def lock_sums_def)
    have "card (inside k l) = card R + of_bool (owing (frames k c) = Some l)"
      using fin by (simp add: old)
    moreover have "card (inside k' l) = card R + of_bool (owing (frames k' c) = Some l)" "finite (inside k' l)"
      using fin by (simp_all add: new)
    ultimately show ?thesis
      using f assms(6) [of l] by (simp add: lock_sum_def)
  qed
  moreover have "stack_ok (frames k' t)" if "is_thread k' t" for t
    using assms(1,3-5) that by (cases "t = c") (auto simp: lock_sums_def)
  ultimately show ?thesis
    by (simp add: lock_sums_def)
qed

lemma push_frames: "frames (push f k) t = (if t = cur k then f # frames k t else frames k t)"
  by (simp add: thread_defs)

lemma sema_lock_iff [simp]: "sema_lock s = Some l \<longleftrightarrow> s = Lock_sema l"
  by (cases s) (auto simp: sema_lock_def)

lemma live_cur: "sched_ok X k \<Longrightarrow> is_thread k (cur k)"
  by (simp add: sched_ok_def)

lemma sema_down_loop_locks:
  assumes ok: "sched_ok X k" and sums: "lock_sums k (\<lambda>l. if s = Lock_sema l then 2 else 1)"
    and ow: "owing (frames k (cur k)) = sema_lock s" and "sema_down_loop s b k = Some k'"
  shows "locks_ok k'"
  using ok assms(4)
proof (cases rule: sema_down_loop_cases)
  case (wait p k1)
  let ?w = "push (Sema_retry s b) (set_sema s (\<lambda>c. c\<lparr>s_waiters := s_waiters c @ [cur k]\<rparr>) k1)"
  have st: "stack_ok (frames k (cur k))"
    using sums live_cur [OF ok] by (simp add: lock_sums_def)
  have k1: "is_thread k1 t = is_thread k t" "frames k1 t = frames k t" "cur k1 = cur k" "holder k1 = holder k"
      "semas k1 = semas k" for t
    by (simp_all add: wait(2) is_thread_def)
  have "lock_sums ?w (\<lambda>_. 1)"
    by (rule lock_sums_step [OF sums live_cur [OF ok]]) (use st ow k1 in \<open>auto simp: push_frames held_def\<close>)
  then show ?thesis
    using only_sched_lock_sums [OF thread_block_only [OF wait(4)]] by (simp add: locks_ok_def)
next
  case take
  have st: "stack_ok (frames k (cur k))"
    using sums live_cur [OF ok] by (simp add: lock_sums_def)
  have "lock_sums (set_sema s (\<lambda>c. c\<lparr>s_value := s_value c - 1\<rparr>) k) (\<lambda>_. 1)"
    by (rule lock_sums_step [OF sums live_cur [OF ok]]) (use take st in \<open>auto simp: held_def\<close>)
  then show ?thesis
    using only_sched_lock_sums [OF intr_set_level_only [OF take(2)]] by (simp add: locks_ok_def)
qed

lemma lock_sums_intr: "lock_sums (k\<lparr>intr_on := b\<rparr>) f = lock_sums k f"
  using only_sched_lock_sums [OF only_sched_simple(2)] .

lemma sema_up_locks:
  assumes ok: "sched_ok X k" and sums: "lock_sums k (\<lambda>l. if s = Lock_sema l then 0 else 1)"
    and "sema_up s k = Some k'"
  shows "locks_ok k'"
proof -
  have st: "stack_ok (frames k (cur k))"
    using sums live_cur [OF ok] by (simp add: lock_sums_def)
  have zero: "s = Lock_sema l \<Longrightarrow> sval k s = 0" for l
    using sums by (auto simp: lock_sums_def lock_sum_def dest!: spec [of _ l])
  have live: "is_thread (k\<lparr>intr_on := False\<rparr>) (cur k)"
    using live_cur [OF ok] by simp
  have sums0: "lock_sums (k\<lparr>intr_on := False\<rparr>) (\<lambda>l. if s = Lock_sema l then 0 else 1)"
    using sums by (simp add: lock_sums_intr)
  have *: "lock_sums (set_sema s f (k\<lparr>intr_on := False\<rparr>)) (\<lambda>_. 1)"
    if "\<And>c. s_value (f c) = (s_value c + 1) mod UINT_MOD" for f
    by (rule lock_sums_step [OF sums0 live]) (use st that zero in \<open>auto simp: held_def\<close>)
  show ?thesis
  proof (cases "sort_key (\<lambda>t. - priority k t) (waiters k s)")
    case Nil
    then show ?thesis
      using assms(3) only_sched_lock_sums [OF intr_set_level_only] * [of "\<lambda>c. c\<lparr>s_value := (s_value c + 1) mod UINT_MOD\<rparr>"]
      by (simp add: sema_up_eq locks_ok_def)
  next
    case (Cons t rest)
    have "lock_sums (sema_wake s rest k) (\<lambda>_. 1)"
      unfolding sema_wake_def only_sched_lock_sums [OF only_sched_push] by (rule *) simp
    then show ?thesis
      using assms(3) Cons only_sched_lock_sums [OF thread_unblock_only] by (simp add: sema_up_eq locks_ok_def)
  qed
qed

lemma sema_down_locks:
  assumes "sched_ok X k" "lock_sums k (\<lambda>l. if s = Lock_sema l then 2 else 1)"
    "owing (frames k (cur k)) = sema_lock s" "sema_down s k = Some k'"
  shows "locks_ok k'"
  using assms sema_down_loop_locks [of X "k\<lparr>intr_on := False\<rparr>" s]
  by (simp add: sema_down_eq lock_sums_intr split: if_splits)

lemma lock_acquire_locks:
  assumes ok: "sched_ok X k" and "locks_ok k" "owing (frames k (cur k)) = None" "lock_acquire l k = Some k'"
  shows "locks_ok k'"
proof -
  let ?k = "push (Lock_got l (intr_on k)) (lock_wait l k)"
  have ok': "sched_ok X ?k"
    using ok same_place_sched(1) [OF lock_wait_place] by simp
  have sums: "lock_sums k (\<lambda>_. 1)"
    using assms(2) by (simp add: locks_ok_def)
  have st: "stack_ok (frames k (cur k))"
    using sums live_cur [OF ok] by (simp add: lock_sums_def)
  have "lock_sums ?k (\<lambda>l'. if Lock_sema l = Lock_sema l' then 2 else 1)"
    by (rule lock_sums_step [OF sums live_cur [OF ok]])
      (use st assms(3) in \<open>auto simp: push_frames held_def\<close>)
  then show ?thesis
    using sema_down_locks [OF ok', of "Lock_sema l" k'] assms(4)
    by (simp add: lock_acquire_eq [OF ok] push_frames sema_lock_def split: if_splits)
qed

text \<open>When \<^verbatim>\<open>lock_acquire\<close> records the holder there is none: the popped stack is the argument.\<close>

definition pop :: "kernel \<Rightarrow> kernel" where
  "pop k = upd (cur k) (\<lambda>c. c\<lparr>t_frames := tl (t_frames c)\<rparr>) k"

lemma pop_sel [simp]:
  "cur (pop k) = cur k" "semas (pop k) = semas k" "holder (pop k) = holder k" "is_thread (pop k) t = is_thread k t"
  "frames (pop k) t = (if t = cur k then tl (frames k t) else frames k t)" "intr_on (pop k) = intr_on k"
  "in_external_intr (pop k) = in_external_intr k" "idle_thread (pop k) = idle_thread k"
  "cond_waiters (pop k) = cond_waiters k" "ready_list (pop k) = ready_list k" "sleeping_list (pop k) = sleeping_list k"
  "status (pop k) t = status k t" "priority (pop k) t = priority k t" "initial_thread (pop k) = initial_thread k"
  "next_tid (pop k) = next_tid k" "tid_lock (pop k) = tid_lock k"
  by (simp_all add: pop_def upd_def is_thread_def)

lemma pop_place: "same_place k (pop k)"
  by (simp add: pop_def same_place_upd)

lemmas pop_ok [simp] = pop_place [THEN same_place_sched(1)]

lemma pop_sums:
  assumes "sched_ok X k" "locks_ok k" "frames k (cur k) = f # fs"
  shows "lock_sums (pop k) (\<lambda>l. 1 + of_bool (owing fs = Some l) - of_bool (owing (f # fs) = Some l)) \<and>
    (owing (f # fs) = Some l \<longrightarrow> sval k (Lock_sema l) = 0 \<and> holder k l = NULL)"
proof
  have sums: "lock_sums k (\<lambda>_. 1)"
    using assms(2) by (simp add: locks_ok_def)
  have st: "stack_ok (f # fs)"
    using sums live_cur [OF assms(1)] assms(3) by (metis lock_sums_def)
  then have "stack_ok fs"
    by (cases "(f # fs)" rule: stack_ok.cases) auto
  then show "lock_sums (pop k) (\<lambda>l. 1 + of_bool (owing fs = Some l) - of_bool (owing (f # fs) = Some l))"
    by (intro lock_sums_step [OF sums live_cur [OF assms(1)]]) (use assms(3) in \<open>auto simp: held_def\<close>)
  show "owing (f # fs) = Some l \<longrightarrow> sval k (Lock_sema l) = 0 \<and> holder k l = NULL"
  proof
    assume "owing (f # fs) = Some l"
    then have "cur k \<in> inside k l" "finite (inside k l)" "lock_sum k l = 1"
      using sums assms(3) live_cur [OF assms(1)] by (auto simp: inside_def lock_sums_def)
    then have "card (inside k l) > 0" "lock_sum k l = 1"
      by (auto simp: card_gt_0_iff)
    then show "sval k (Lock_sema l) = 0 \<and> holder k l = NULL"
      by (auto simp: lock_sum_def held_def split: if_splits)
  qed
qed

lemma locks_ok_stack: "sched_ok X k \<Longrightarrow> locks_ok k \<Longrightarrow> stack_ok (frames k (cur k))"
  using live_cur by (simp add: locks_ok_def lock_sums_def)

lemma lock_sums_cong: "lock_sums k f \<Longrightarrow> (\<And>l. f l = g l) \<Longrightarrow> lock_sums k g"
  by (simp add: lock_sums_def)

lemma sema_retry_locks:
  assumes "sched_ok X k" "locks_ok k" "frames k (cur k) = Sema_retry s b # fs" "sema_down_loop s b (pop k) = Some k'"
  shows "locks_ok k'"
proof -
  have ow: "owing fs = sema_lock s"
    using locks_ok_stack [OF assms(1,2)] assms(3) by simp
  then have "lock_sums (pop k) (\<lambda>l. if s = Lock_sema l then 2 else 1)"
    using pop_sums [OF assms(1-3)] by (auto elim!: lock_sums_cong)
  then show ?thesis
    using sema_down_loop_locks [of X "pop k" s b k'] assms ow by simp
qed

lemma lock_acquire_end_locks:
  assumes "sched_ok X k" "locks_ok k" "frames k (cur k) = Lock_got l b # fs" "lock_acquire_end l b (pop k) = Some k'"
  shows "locks_ok k'"
proof -
  have ow: "stack_ok fs" "owing fs = None"
    using locks_ok_stack [OF assms(1,2)] assms(3) by simp_all
  have pop: "lock_sums (pop k) (\<lambda>l'. if l' = l then 0 else 1)" and free: "holder k l = NULL"
    using pop_sums [OF assms(1-3), of l] ow by (auto elim!: lock_sums_cong)
  have "cur k \<noteq> NULL"
    using live_cur [OF assms(1)] by (simp add: is_thread_def)
  then have "lock_sums (pop k\<lparr>holder := (holder k)(l := cur k)\<rparr>) (\<lambda>_. 1)"
    by (intro lock_sums_step [OF pop, of "cur k"])
      (use assms(3) live_cur [OF assms(1)] ow free in \<open>auto simp: held_def\<close>)
  then show ?thesis
    using assms(1,4) thread_current_ok [of X "pop k"] only_sched_lock_sums [OF intr_set_level_only]
    by (simp add: lock_acquire_end_def locks_ok_def)
qed

lemma lock_release_rest_locks:
  assumes "sched_ok X k" "locks_ok k" "frames k (cur k) = Release_rest l # fs" "lock_release_rest l (pop k) = Some k'"
  shows "locks_ok k'"
proof -
  have ow: "stack_ok fs" "owing fs = None"
    using locks_ok_stack [OF assms(1,2)] assms(3) by simp_all
  have pop: "lock_sums (pop k) (\<lambda>l'. if l' = l then 0 else 1)"
    using pop_sums [OF assms(1-3), of l] ow by (auto elim!: lock_sums_cong)
  have okp: "sched_ok X (pop k)"
    using assms(1) by simp
  show ?thesis
    using okp assms(4)
  proof (rule lock_release_rest_cases)
    fix p d
    let ?r = "push (Set_level (intr_on (pop k)))
      (upd (cur (pop k)) (\<lambda>c. c\<lparr>t_priority := p, t_potential_donator := d\<rparr>) (pop k\<lparr>intr_on := False\<rparr>))"
    assume r: "sched_ok X ?r" "sema_up (Lock_sema l) ?r = Some k'"
    have "lock_sums ?r (\<lambda>l'. if Lock_sema l = Lock_sema l' then 0 else 1)"
      by (rule lock_sums_step [OF pop, of "cur k"])
        (use assms(3) live_cur [OF assms(1)] ow in \<open>auto simp: held_def push_frames\<close>)
    then show ?thesis
      using sema_up_locks [OF r(1) _ r(2)] by blast
  qed
qed

lemma lock_release_locks:
  assumes "sched_ok X k" "locks_ok k" "owing (frames k (cur k)) = None" "lock_release l k = Some k'"
  shows "locks_ok k'"
proof -
  have k': "k' = push (Release_rest l) (k\<lparr>holder := (holder k)(l := NULL)\<rparr>)" and h: "holder k l = cur k"
    using assms(4) by (auto simp: lock_release_eq [OF assms(1)] split: if_splits)
  have "cur k \<noteq> NULL"
    using live_cur [OF assms(1)] by (simp add: is_thread_def)
  then show ?thesis
    unfolding locks_ok_def k'
    by (intro lock_sums_step [OF assms(2) [unfolded locks_ok_def] live_cur [OF assms(1)]])
      (use assms(3) h locks_ok_stack [OF assms(1,2)] in \<open>auto simp: held_def push_frames\<close>)
qed

lemma sema_try_down_locks:
  assumes "sched_ok X k" "locks_ok k" "sema_lock s = None" "sema_try_down s k = Some (r, k')"
  shows "locks_ok k'"
proof -
  have "lock_sums (set_sema s (\<lambda>c. c\<lparr>s_value := s_value c - 1\<rparr>) k) (\<lambda>_. 1)"
    by (rule lock_sums_step [OF assms(2) [unfolded locks_ok_def] live_cur [OF assms(1)]])
      (use assms(3) locks_ok_stack [OF assms(1,2)] in \<open>auto simp: held_def sema_lock_def\<close>)
  then have "locks_ok (set_sema s (\<lambda>c. c\<lparr>s_value := s_value c - 1\<rparr>) k\<lparr>intr_on := b\<rparr>)" for b
    by (simp add: locks_ok_def lock_sums_intr)
  moreover have "set_sema s f (k\<lparr>intr_on := c\<rparr>)\<lparr>intr_on := b\<rparr> = set_sema s f k\<lparr>intr_on := b\<rparr>" for f c b
    by (simp add: set_sema_def)
  ultimately show ?thesis
    using assms(2,4) by (auto simp: sema_try_down_def Let_def intr_disable_def intr_get_level_def intr_set_level_eq
        locks_ok_def lock_sums_intr split: if_splits)
qed

definition try_acquired :: "lock_id \<Rightarrow> kernel \<Rightarrow> kernel" where
  "try_acquired l k = upd (cur k) (\<lambda>c. c\<lparr>t_waiting_lock := NULL\<rparr>)
     (set_sema (Lock_sema l) (\<lambda>c. c\<lparr>s_value := s_value c - 1\<rparr>) k)\<lparr>holder := (holder k)(l := cur k)\<rparr>"

lemma lock_try_acquire_eq:
  assumes "sched_ok X k"
  shows "lock_try_acquire l k =
    (if l = NULL \<or> holder k l = cur k \<or> intr_on k \<and> in_external_intr k then None
     else if sval k (Lock_sema l) > 0 then Some (True, try_acquired l k) else Some (False, k))"
proof -
  let ?s = "set_sema (Lock_sema l) (\<lambda>c. c\<lparr>s_value := s_value c - 1\<rparr>) k"
  have t: "sema_try_down (Lock_sema l) (k\<lparr>intr_on := False\<rparr>) =
      Some (sval k (Lock_sema l) > 0, (if sval k (Lock_sema l) > 0 then ?s\<lparr>intr_on := False\<rparr> else k\<lparr>intr_on := False\<rparr>))"
    by (simp add: sema_try_down_def Let_def intr_disable_def intr_get_level_def intr_set_level_eq set_sema_def)
  have id: "?s\<lparr>intr_on := intr_on k\<rparr> = ?s"
    by (simp add: set_sema_def)
  show ?thesis
    using lock_held_ok [OF assms] thread_current_ok [OF assms] t id
    by (simp add: lock_try_acquire_def try_acquired_def Let_def intr_disable_def intr_get_level_def
        intr_set_level_eq upd_def)
qed

lemma lock_try_acquire_locks:
  assumes "sched_ok X k" "locks_ok k" "lock_try_acquire l k = Some (r, k')"
  shows "locks_ok k'"
proof (cases "r")
  case False
  then show ?thesis
    using assms(2,3) by (simp add: lock_try_acquire_eq [OF assms(1)] split: if_splits)
next
  case True
  then have v: "sval k (Lock_sema l) > 0" and k': "k' = try_acquired l k"
    using assms(3) by (auto simp: lock_try_acquire_eq [OF assms(1)] split: if_splits)
  have "lock_sum k l = 1"
    using assms(2) by (simp add: locks_ok_def lock_sums_def)
  then have free: "holder k l = NULL"
    using v by (auto simp: lock_sum_def held_def split: if_splits)
  show ?thesis
    unfolding locks_ok_def k'
    by (rule lock_sums_step [OF assms(2) [unfolded locks_ok_def] live_cur [OF assms(1)]])
      (use v free live_cur [OF assms(1)] locks_ok_stack [OF assms(1,2)] in
        \<open>auto simp: try_acquired_def held_def upd_def is_thread_def\<close>)
qed

end
