(* ===== verification/Timer.thy ===== *)
theory Timer
  imports Synch
begin

text \<open>
  The timer (\<^verbatim>\<open>devices/timer.c\<close>): sleeping and waking threads, the tick interrupt with the common
  interrupt handler of \<^verbatim>\<open>threads/interrupt.c\<close>, and the calibration of the delay loop.

  The lemmas show that sleeping threads are kept in the order of their wake-up times, that a tick
  wakes exactly those that are due, and when it panics instead. The delay loop itself has no effect
  on the state; the number of iterations that fit into a tick is a parameter of the calibration.
\<close>

section \<open>Sleeping\<close>

definition TIMER_FREQ :: int where "TIMER_FREQ = 100"

text \<open>Signed 64-bit arithmetic.\<close>

definition int64 :: "int \<Rightarrow> int" where
  "int64 x = (x + 9223372036854775808) mod 18446744073709551616 - 9223372036854775808"

text \<open>C division rounds towards zero.\<close>

definition quot :: "int \<Rightarrow> int \<Rightarrow> int" where
  "quot a b = sgn a * sgn b * (\<bar>a\<bar> div \<bar>b\<bar>)"

definition timer_ticks :: "kernel \<Rightarrow> (int \<times> kernel) option" where
  "timer_ticks k = do {
     let old_level = intr_get_level k;
     let k = intr_disable k;
     let t = ticks k;
     k \<leftarrow> intr_set_level old_level k;
     Some (t, k) }"

definition timer_elapsed :: "int \<Rightarrow> kernel \<Rightarrow> (int \<times> kernel) option" where
  "timer_elapsed thn k = do { (t, k) \<leftarrow> timer_ticks k; Some (int64 (t - thn), k) }"

definition timer_sleep :: "int \<Rightarrow> kernel \<Rightarrow> kernel option" where
  "timer_sleep n k = do {
     (start, k) \<leftarrow> timer_ticks k;
     ASSERT (intr_get_level k);
     Some (push (Call_to_sleep (int64 (start + n))) k) }"

definition thread_to_sleep :: "int \<Rightarrow> kernel \<Rightarrow> kernel option" where
  "thread_to_sleep when_to_wakeup k = do {
     let pre_level = intr_get_level k;
     let k = intr_disable k;
     curr \<leftarrow> thread_current k;
     let k = upd curr (\<lambda>c. c\<lparr>t_morning_tick := when_to_wakeup\<rparr>) k;
     let k = k\<lparr>sleeping_list := insert_ordered (compare_tick k) curr (sleeping_list k)\<rparr>;
     thread_block (push (Set_level pre_level) k) }"

fun wakeup_loop :: "int \<Rightarrow> tptr list \<Rightarrow> kernel \<Rightarrow> kernel option" where
  "wakeup_loop current_tick [] k = Some k"
| "wakeup_loop current_tick (t # rest) k =
     (if current_tick \<ge> t_morning_tick (thr k t) then do {
        k \<leftarrow> thread_unblock t (k\<lparr>sleeping_list := rest\<rparr>);
        wakeup_loop current_tick rest k }
      else Some k)"

definition thread_to_wakeup :: "int \<Rightarrow> kernel \<Rightarrow> kernel option" where
  "thread_to_wakeup current_tick k = wakeup_loop current_tick (sleeping_list k) k"

definition real_time_sleep :: "int \<Rightarrow> int \<Rightarrow> kernel \<Rightarrow> kernel option" where
  "real_time_sleep num denom k = do {
     let n = quot (int64 (num * TIMER_FREQ)) denom;
     ASSERT (intr_get_level k);
     if n > 0 then timer_sleep n k
     else do { ASSERT (denom mod 1000 = 0); Some k } }"

definition timer_msleep :: "int \<Rightarrow> kernel \<Rightarrow> kernel option" where
  "timer_msleep ms = real_time_sleep ms 1000"

definition timer_usleep :: "int \<Rightarrow> kernel \<Rightarrow> kernel option" where
  "timer_usleep us = real_time_sleep us (1000 * 1000)"

definition timer_nsleep :: "int \<Rightarrow> kernel \<Rightarrow> kernel option" where
  "timer_nsleep ns = real_time_sleep ns (1000 * 1000 * 1000)"

section \<open>Interrupts\<close>

definition timer_interrupt :: "kernel \<Rightarrow> kernel option" where
  "timer_interrupt k = do {
     k \<leftarrow> thread_tick (k\<lparr>ticks := ticks k + 1\<rparr>);
     thread_to_wakeup (ticks k) k }"

text \<open>\<^verbatim>\<open>intr_handler\<close> for a vector with a registered handler.\<close>

definition intr_handler :: "nat \<Rightarrow> (kernel \<Rightarrow> kernel option) \<Rightarrow> kernel \<Rightarrow> kernel option" where
  "intr_handler vec_no handler k = do {
     let external = (vec_no \<ge> 0x20 \<and> vec_no < 0x30);
     k \<leftarrow> (if external then do {
             ASSERT (\<not> intr_get_level k);
             ASSERT (\<not> intr_context k);
             Some (k\<lparr>in_external_intr := True, yield_on_return := False\<rparr>) }
           else Some k);
     k \<leftarrow> handler k;
     if external then do {
       ASSERT (\<not> intr_get_level k);
       ASSERT (intr_context k);
       let k = k\<lparr>in_external_intr := False\<rparr>;
       if yield_on_return k then thread_yield k else Some k }
     else Some k }"

text \<open>The processor takes the timer interrupt: it saves the flags, turns interrupts off and enters the handler.\<close>

definition timer_irq :: "kernel \<Rightarrow> kernel option" where
  "timer_irq k = intr_handler 0x20 timer_interrupt (push Iret (intr_disable k))"

section \<open>Calibration\<close>

text \<open>\<open>too_many_loops n\<close> is the measurement: \<open>n\<close> iterations take longer than a tick.\<close>

partial_function (option) double_loops :: "(u32 \<Rightarrow> bool) \<Rightarrow> u32 \<Rightarrow> u32 option" where
  "double_loops too_many_loops loops =
     (if \<not> too_many_loops (push_bit 1 loops) then do {
        let loops = push_bit 1 loops;
        ASSERT (loops \<noteq> 0);
        double_loops too_many_loops loops }
      else Some loops)"

fun refine_loops :: "(u32 \<Rightarrow> bool) \<Rightarrow> u32 \<Rightarrow> nat \<Rightarrow> nat \<Rightarrow> u32 \<Rightarrow> u32" where
  "refine_loops too_many_loops high_bit i 0 loops = loops"
| "refine_loops too_many_loops high_bit i (Suc n) loops =
     refine_loops too_many_loops high_bit (Suc i) n
       (if \<not> too_many_loops (high_bit OR drop_bit i high_bit) then loops OR drop_bit i high_bit else loops)"

text \<open>The loop over \<^verbatim>\<open>test_bit\<close> from \<^verbatim>\<open>high_bit >> 1\<close> down to \<^verbatim>\<open>high_bit >> 10\<close>, exclusive.\<close>

definition timer_calibrate :: "(u32 \<Rightarrow> bool) \<Rightarrow> u32 option" where
  "timer_calibrate too_many_loops = do {
     high_bit \<leftarrow> double_loops too_many_loops (push_bit 10 1);
     Some (refine_loops too_many_loops high_bit 1 9 high_bit) }"

section \<open>Sleepers are kept in order\<close>

definition sleepers_sorted :: "kernel \<Rightarrow> bool" where
  "sleepers_sorted k \<longleftrightarrow> sorted_wrt (\<lambda>a b. t_morning_tick (thr k a) \<le> t_morning_tick (thr k b)) (sleeping_list k)"

lemma compare_tick_eq: "compare_tick k = (\<lambda>a b. t_morning_tick (thr k a) < t_morning_tick (thr k b))"
  by (simp add: compare_tick_def fun_eq_iff)

definition slept :: "int \<Rightarrow> kernel \<Rightarrow> kernel" where
  "slept w k = (let k = upd (cur k) (\<lambda>c. c\<lparr>t_morning_tick := w\<rparr>) (k\<lparr>intr_on := False\<rparr>) in
     k\<lparr>sleeping_list := insert_ordered (compare_tick k) (cur k) (sleeping_list k)\<rparr>)"

lemma thread_to_sleep_eq:
  assumes "sched_ok X k"
  shows "thread_to_sleep w k = thread_block (push (Set_level (intr_on k)) (slept w k))"
  using thread_current_ok [of X "k\<lparr>intr_on := False\<rparr>"] assms
  by (simp add: thread_to_sleep_def slept_def Let_def intr_get_level_def intr_disable_def)

lemma slept_sel [simp]:
  "cur (slept w k) = cur k" "ready_list (slept w k) = ready_list k" "idle_thread (slept w k) = idle_thread k"
  "initial_thread (slept w k) = initial_thread k" "semas (slept w k) = semas k" "holder (slept w k) = holder k"
  "is_thread (slept w k) t = is_thread k t" "frames (slept w k) t = frames k t" "status (slept w k) t = status k t"
  "in_external_intr (slept w k) = in_external_intr k"  "cond_waiters (slept w k) = cond_waiters k"
  "tid_lock (slept w k) = tid_lock k"
  by (simp_all add: slept_def Let_def upd_def is_thread_def)

lemma slept_off:
  assumes "sched_ok X k" "cur k \<noteq> idle_thread k"
  shows "sched_off X (set_status (cur k) THREAD_BLOCKED (slept w k))"
proof -
  let ?m = "upd (cur k) (\<lambda>c. c\<lparr>t_morning_tick := w\<rparr>) (k\<lparr>intr_on := False\<rparr>)"
  have ok: "sched_ok X ?m"
    using assms(1) same_place_sched(1) [OF same_place_upd] by simp
  have new: "\<not> parked ?m (cur k)" and one: "one_list ?m"
    using ok by (auto simp: sched_ok_def placed_def states_agree_def)
  have "one_list (slept w k)"
    using new one by (auto simp: one_list_def parked_def slept_def Let_def)
  moreover have "parked (slept w k) t \<longleftrightarrow> parked ?m t \<or> t = cur ?m" for t
    by (auto simp: parked_def slept_def Let_def)
  ultimately have "sched_off X (set_status (cur ?m) THREAD_BLOCKED (slept w k))"
    using ok assms(2) by (intro leave_parked [of X ?m]) (simp_all add: slept_def Let_def)
  then show ?thesis
    by simp
qed

lemma thread_to_sleep_ok:
  assumes "sched_ok X k" "cur k \<noteq> idle_thread k" "thread_to_sleep w k = Some k'"
  shows "sched_ok X k'"
  using assms(3) slept_off [OF assms(1,2), of w] thread_block_ok [of X "push (Set_level (intr_on k)) (slept w k)" k']
  by (auto simp: thread_to_sleep_eq [OF assms(1)] set_status_push)

lemma only_sched_sleepers: "only_sched k k' \<Longrightarrow> sleepers_sorted k' = sleepers_sorted k"
  by (simp add: only_sched_def sleepers_sorted_def)

lemma slept_sorted:
  assumes "sleepers_sorted k" "cur k \<notin> set (sleeping_list k)"
  shows "sleepers_sorted (slept w k)"
proof -
  let ?m = "upd (cur k) (\<lambda>c. c\<lparr>t_morning_tick := w\<rparr>) (k\<lparr>intr_on := False\<rparr>)"
  have "sorted_wrt (\<lambda>a b. t_morning_tick (thr ?m a) \<le> t_morning_tick (thr ?m b)) (sleeping_list k)"
    using assms unfolding sleepers_sorted_def
    by (auto simp: upd_def elim!: sorted_wrt_mono_rel [rotated])
  from insert_ordered_sorted_less [OF this, of "cur k"] show ?thesis
    by (simp add: sleepers_sorted_def slept_def Let_def compare_tick_eq)
qed

lemma thread_to_sleep_sorted:
  assumes "sched_ok X k" "sleepers_sorted k" "thread_to_sleep w k = Some k'"
  shows "sleepers_sorted k'"
proof -
  have "cur k \<notin> set (sleeping_list k)"
    using assms(1) by (auto simp: sched_ok_def placed_def states_agree_def parked_def)
  with assms(2,3) slept_sorted only_sched_sleepers [OF thread_block_only] only_sched_sleepers [OF only_sched_push]
  show ?thesis
    by (simp add: thread_to_sleep_eq [OF assms(1)])
qed

section \<open>A tick wakes the threads that are due\<close>

text \<open>Taking the first sleeper off the list.\<close>

lemma take_sleeper:
  assumes "sched_ok X k" "sleeping_list k = t # rest"
  shows "sched_ok (insert t X) (k\<lparr>sleeping_list := rest\<rparr>) \<and> t \<notin> X"
proof (rule take_parked [OF assms(1)])
  have one: "one_list k"
    using assms(1) by (simp add: sched_ok_def placed_def)
  then show "one_list (k\<lparr>sleeping_list := rest\<rparr>)"
    using assms(2) by (auto simp: one_list_def)
  show "parked k t"
    using assms(2) by (simp add: parked_def)
  have "t \<notin> set rest" "\<And>s. t \<notin> set (waiters k s)"
    using one assms(2) by (auto simp: one_list_def)
  then show "parked (k\<lparr>sleeping_list := rest\<rparr>) u \<longleftrightarrow> parked k u \<and> u \<noteq> t" for u
    using assms(2) by (auto simp: parked_def)
qed simp_all

text \<open>In an interrupt handler a wake-up either leaves the running thread alone or panics.\<close>

lemma unblock_in_interrupt:
  assumes "sched_ok (insert t X) k" "t \<notin> X" "in_external_intr k" "\<not> intr_on k"
  shows "thread_unblock t k = (if cur k \<noteq> idle_thread k \<and> priority k t > priority k (cur k) then None
    else Some (unblocked t k))"
proof -
  have t: "is_thread k t" "status k t = THREAD_BLOCKED" and c: "is_thread k (cur k)" "status k (cur k) = THREAD_RUNNING"
    using assms(1) by (auto simp: sched_ok_def placed_def states_agree_def)
  moreover have "unblocked t k\<lparr>intr_on := False\<rparr> = unblocked t k"
    by (simp add: unblocked_def thread_defs)
  ultimately show ?thesis
    using assms(3,4) by (auto simp: thread_unblock_eq thread_yield_eq intr_set_level_eq)
qed

definition due :: "int \<Rightarrow> kernel \<Rightarrow> tptr \<Rightarrow> bool" where
  "due now k t \<longleftrightarrow> t_morning_tick (thr k t) \<le> now"

definition outranks :: "kernel \<Rightarrow> tptr \<Rightarrow> bool" where
  "outranks k t \<longleftrightarrow> cur k \<noteq> idle_thread k \<and> priority k t > priority k (cur k)"

lemma unblocked_morning [simp]: "t_morning_tick (thr (unblocked t k) u) = t_morning_tick (thr k u)"
  by (simp add: unblocked_def thread_defs)

definition woken :: "tptr set \<Rightarrow> int \<Rightarrow> kernel \<Rightarrow> kernel \<Rightarrow> bool" where
  "woken X now k k' \<longleftrightarrow> sched_ok X k' \<and> sleepers_sorted k' \<and> only_sched (k\<lparr>sleeping_list := sleeping_list k'\<rparr>) k' \<and>
     cur k' = cur k \<and> \<not> intr_on k' \<and> yield_on_return k' = yield_on_return k \<and>
     sleeping_list k' = filter (\<lambda>t. \<not> due now k t) (sleeping_list k) \<and>
     set (ready_list k') = set (ready_list k) \<union> {t \<in> set (sleeping_list k). due now k t} \<and>
     (\<forall>t\<in>set (sleeping_list k). due now k t \<longrightarrow> \<not> outranks k t)"

lemma woken_refl:
  assumes "sched_ok X k" "sleepers_sorted k" "\<not> intr_on k" "\<And>t. t \<in> set (sleeping_list k) \<Longrightarrow> \<not> due now k t"
  shows "woken X now k k"
proof -
  have "k\<lparr>sleeping_list := sleeping_list k\<rparr> = k"
    by simp
  moreover have "filter (\<lambda>t. \<not> due now k t) (sleeping_list k) = sleeping_list k"
    using assms(4) by (simp add: filter_id_conv)
  ultimately show ?thesis
    using assms only_sched_refl [of k] unfolding woken_def by auto
qed

lemma woken_Cons:
  assumes "woken X now (unblocked t (k\<lparr>sleeping_list := rest\<rparr>)) k'" "sleeping_list k = t # rest"
    "due now k t" "\<not> outranks k t"
  shows "woken X now k k'"
proof -
  let ?u = "unblocked t (k\<lparr>sleeping_list := rest\<rparr>)"
  have "?u\<lparr>sleeping_list := sl\<rparr> = unblocked t (k\<lparr>sleeping_list := sl\<rparr>)" for sl
    by (simp add: unblocked_def thread_defs priority_compare_two_thread_def [abs_def])
  then have os: "only_sched (k\<lparr>sleeping_list := sleeping_list k'\<rparr>) k'"
    using assms(1) only_sched_trans [OF only_sched_unblocked] unfolding woken_def by metis
  have eq: "due now ?u v = due now k v" "outranks ?u v = outranks k v" for v
    by (simp_all add: due_def outranks_def)
  have "yield_on_return ?u = yield_on_return k"
    by (simp add: unblocked_def thread_defs)
  then show ?thesis
    using assms os unfolding woken_def eq by auto
qed

lemma wakeup_loop_result:
  assumes "sched_ok X k" "sleepers_sorted k" "in_external_intr k" "\<not> intr_on k"
  shows "case wakeup_loop now (sleeping_list k) k of
      None \<Rightarrow> \<exists>t\<in>set (sleeping_list k). due now k t \<and> outranks k t
    | Some k' \<Rightarrow> woken X now k k'"
  using assms
proof (induction "sleeping_list k" arbitrary: k)
  case Nil
  then show ?case
    using woken_refl [of X k now] by (simp flip: Nil(1))
next
  case (Cons t rest)
  note s = Cons.hyps(2) [symmetric]
  let ?k = "k\<lparr>sleeping_list := rest\<rparr>"
  let ?u = "unblocked t ?k"
  have tk: "sched_ok (insert t X) ?k" "t \<notin> X"
    using take_sleeper [OF Cons.prems(1) s] by auto
  have un: "thread_unblock t ?k = (if outranks k t then None else Some ?u)"
    using unblock_in_interrupt [OF tk] Cons.prems(3,4) by (simp add: outranks_def)
  have "sleepers_sorted ?u"
    using Cons.prems(2) s by (simp add: sleepers_sorted_def)
  then have IH: "case wakeup_loop now rest ?u of
      None \<Rightarrow> \<exists>t\<in>set rest. due now k t \<and> outranks k t | Some k' \<Rightarrow> woken X now ?u k'"
    using Cons.hyps(1) [of ?u] unblocked_ok [OF tk] Cons.prems(3)
    by (simp add: due_def outranks_def split: option.splits)
  consider "\<not> due now k t" | "due now k t" "outranks k t" | "due now k t" "\<not> outranks k t"
    by blast
  then show ?case
  proof cases
    case 1
    then have "\<not> due now k u" if "u \<in> set (sleeping_list k)" for u
      using Cons.prems(2) s that by (auto simp: sleepers_sorted_def due_def)
    moreover have "wakeup_loop now (sleeping_list k) k = Some k"
      using 1 s by (simp add: due_def)
    ultimately show ?thesis
      using woken_refl [OF Cons.prems(1,2,4)] by simp
  next
    case 2
    then show ?thesis
      using un s by (auto simp: due_def)
  next
    case 3
    then have "wakeup_loop now (sleeping_list k) k = wakeup_loop now rest ?u"
      using un s by (simp add: due_def)
    then show ?thesis
      using IH woken_Cons [OF _ s 3] s by (auto split: option.splits)
  qed
qed

section \<open>The tick interrupt keeps the invariants\<close>

lemma thread_tick_ok:
  assumes "sched_ok X k" "in_external_intr k"
  obtains k' where "thread_tick k = Some k'" "same_place k k'" "only_sched k k'" "ticks k' = ticks k"
    "cur k' = cur k" "intr_on k' = intr_on k" "thread_ticks k' = thread_ticks k + 1"
    "yield_on_return k' \<longleftrightarrow> yield_on_return k \<or> thread_ticks k + 1 \<ge> TIME_SLICE"
proof -
  define k1 where "k1 = (if cur k = idle_thread k then k\<lparr>idle_ticks := idle_ticks k + 1\<rparr>
    else if t_pagedir (thr k (cur k)) \<noteq> NULL then k\<lparr>user_ticks := user_ticks k + 1\<rparr>
    else k\<lparr>kernel_ticks := kernel_ticks k + 1\<rparr>)"
  define k2 where "k2 = k1\<lparr>thread_ticks := thread_ticks k1 + 1\<rparr>"
  let ?k' = "if thread_ticks k2 \<ge> TIME_SLICE then k2\<lparr>yield_on_return := True\<rparr> else k2"
  have "thread_tick k = Some ?k'"
    using thread_current_ok [OF assms(1)] assms(2)
    by (simp add: thread_tick_def Let_def intr_yield_on_return_def intr_context_def k2_def k1_def)
  moreover have "thread_ticks k2 = thread_ticks k + 1"
    by (simp add: k2_def k1_def)
  moreover have "same_place k ?k'" "only_sched k ?k'" "ticks ?k' = ticks k" "cur ?k' = cur k" "intr_on ?k' = intr_on k"
    by (simp_all add: k2_def k1_def same_place_def only_sched_def is_thread_def)
  moreover have "thread_ticks ?k' = thread_ticks k2"
    "yield_on_return ?k' \<longleftrightarrow> yield_on_return k \<or> thread_ticks k2 \<ge> TIME_SLICE"
    by (simp_all add: k2_def k1_def)
  ultimately show ?thesis
    using that by metis
qed

lemma same_place_misc:
  "same_place k (k\<lparr>in_external_intr := b\<rparr>)" "same_place k (k\<lparr>in_external_intr := b, yield_on_return := c, ticks := n\<rparr>)"
  by (simp_all add: same_place_def)

text \<open>Entering the handler.\<close>

definition irq_entry :: "kernel \<Rightarrow> kernel" where
  "irq_entry k = (push Iret (k\<lparr>intr_on := False\<rparr>))
     \<lparr>in_external_intr := True, yield_on_return := False, ticks := ticks k + 1\<rparr>"

lemma timer_irq_eq:
  "timer_irq k = (if in_external_intr k then None else do {
     k \<leftarrow> thread_tick (irq_entry k);
     k \<leftarrow> thread_to_wakeup (ticks k) k;
     ASSERT (\<not> intr_on k);
     ASSERT (in_external_intr k);
     if yield_on_return k then thread_yield (k\<lparr>in_external_intr := False\<rparr>)
     else Some (k\<lparr>in_external_intr := False\<rparr>) })"
  by (auto simp: timer_irq_def intr_handler_def timer_interrupt_def irq_entry_def thread_defs Option.bind_assoc
      cong: Option.bind_cong)

lemma irq_entry_place: "same_place k (irq_entry k)"
  by (simp add: irq_entry_def same_place_def thread_defs)

lemma irq_entry_sel [simp]:
  "cur (irq_entry k) = cur k" "sleeping_list (irq_entry k) = sleeping_list k" "in_external_intr (irq_entry k)"
  "\<not> intr_on (irq_entry k)" "ticks (irq_entry k) = ticks k + 1" "idle_thread (irq_entry k) = idle_thread k"
  "priority (irq_entry k) t = priority k t" "t_morning_tick (thr (irq_entry k) t) = t_morning_tick (thr k t)"
  "is_thread (irq_entry k) t = is_thread k t" "semas (irq_entry k) = semas k" "holder (irq_entry k) = holder k"
  "frames (irq_entry k) t = (if t = cur k then Iret # frames k t else frames k t)"
  "thread_ticks (irq_entry k) = thread_ticks k" "\<not> yield_on_return (irq_entry k)" "ready_list (irq_entry k) = ready_list k"
  "initial_thread (irq_entry k) = initial_thread k" "cond_waiters (irq_entry k) = cond_waiters k"
  "tid_lock (irq_entry k) = tid_lock k" "next_tid (irq_entry k) = next_tid k"
  by (auto simp: irq_entry_def thread_defs is_thread_def)

text \<open>What a tick does, up to the switch at its end.\<close>

lemma timer_irq_cases:
  assumes "sched_ok X k" "sleepers_sorted k" "\<not> in_external_intr k"
  obtains (panic) "timer_irq k = None" "\<exists>t\<in>set (sleeping_list k). due (ticks k + 1) k t \<and> outranks k t"
  | (tick) k1 k2 where "woken X (ticks k + 1) k1 k2" "same_place (irq_entry k) k1" "only_sched (irq_entry k) k1"
      "in_external_intr k2" "yield_on_return k2 \<longleftrightarrow> thread_ticks k + 1 \<ge> TIME_SLICE"
      "timer_irq k = (if yield_on_return k2 then thread_yield (k2\<lparr>in_external_intr := False\<rparr>)
        else Some (k2\<lparr>in_external_intr := False\<rparr>))"
proof -
  have ok: "sched_ok X (irq_entry k)"
    using assms(1) same_place_sched(1) [OF irq_entry_place] by simp
  then obtain k1 where k1: "thread_tick (irq_entry k) = Some k1" "same_place (irq_entry k) k1"
      "only_sched (irq_entry k) k1" "ticks k1 = ticks k + 1" "cur k1 = cur k" "\<not> intr_on k1"
      "yield_on_return k1 \<longleftrightarrow> thread_ticks k + 1 \<ge> TIME_SLICE"
    by (rule thread_tick_ok) auto
  have ok1: "sched_ok X k1" "sleepers_sorted k1" "in_external_intr k1"
    using ok k1(2,3) same_place_sched(1) assms(2) by (auto simp: sleepers_sorted_def only_sched_def)
  note r = wakeup_loop_result [OF ok1 k1(6), of "ticks k + 1"]
  have t: "timer_irq k = do {
      k \<leftarrow> thread_to_wakeup (ticks k + 1) k1;
      ASSERT (\<not> intr_on k);
      ASSERT (in_external_intr k);
      if yield_on_return k then thread_yield (k\<lparr>in_external_intr := False\<rparr>)
      else Some (k\<lparr>in_external_intr := False\<rparr>) }"
    using assms(3) k1(1,4) by (simp add: timer_irq_eq)
  have eq: "sleeping_list k1 = sleeping_list k" "due n k1 v = due n k v" "outranks k1 v = outranks k v" for n v
    using k1(3,5) by (simp_all add: only_sched_def due_def outranks_def)
  show ?thesis
  proof (cases "wakeup_loop (ticks k + 1) (sleeping_list k1) k1")
    case None
    then show ?thesis
      using panic r t eq by (simp add: thread_to_wakeup_def)
  next
    case (Some k2)
    then have w: "woken X (ticks k + 1) k1 k2"
      using r by simp
    then have "in_external_intr k2" "\<not> intr_on k2" "yield_on_return k2 = yield_on_return k1"
      using ok1(3) by (auto simp: woken_def only_sched_def)
    then show ?thesis
      using tick [OF w k1(2,3)] Some t k1(7) by (simp add: thread_to_wakeup_def)
  qed
qed

lemma woken_ok: "woken X now k k' \<Longrightarrow> sched_ok X k' \<and> sleepers_sorted k'"
  by (simp add: woken_def)

lemma lock_sums_sleeping: "lock_sums (k\<lparr>sleeping_list := s\<rparr>) f = lock_sums k f"
  by (simp add: lock_sums_def lock_sum_def inside_def held_def)

lemma woken_lock_sums: "woken X now k k' \<Longrightarrow> lock_sums k' f = lock_sums k f"
  using only_sched_lock_sums [of "k\<lparr>sleeping_list := sleeping_list k'\<rparr>" k' f] lock_sums_sleeping
  unfolding woken_def by blast

lemma lock_sums_external: "lock_sums (k\<lparr>in_external_intr := b\<rparr>) f = lock_sums k f"
  by (simp add: lock_sums_def lock_sum_def inside_def held_def)

lemma irq_entry_locks:
  assumes "sched_ok X k" "locks_ok k"
  shows "locks_ok (irq_entry k)"
  unfolding locks_ok_def
  by (rule lock_sums_step [OF assms(2) [unfolded locks_ok_def] live_cur [OF assms(1)]])
    (use locks_ok_stack [OF assms] in \<open>auto simp: held_def\<close>)

lemma timer_irq_ok:
  assumes "sched_ok X k" "sleepers_sorted k" "\<not> in_external_intr k" "locks_ok k" "timer_irq k = Some k'"
  shows "sched_ok X k' \<and> sleepers_sorted k' \<and> locks_ok k' \<and> \<not> in_external_intr k'"
  using assms(1-3)
proof (cases rule: timer_irq_cases)
  case panic
  then show ?thesis
    using assms(5) by simp
next
  case (tick k1 k2)
  let ?k = "k2\<lparr>in_external_intr := False\<rparr>"
  have ok: "sched_ok X ?k" "sleepers_sorted ?k"
    using woken_ok [OF tick(1)] same_place_sched(1) [OF same_place_misc(1)] by (simp_all add: sleepers_sorted_def)
  have "lock_sums ?k f = lock_sums (irq_entry k) f" for f
    using woken_lock_sums [OF tick(1)] only_sched_lock_sums [OF tick(3)] by (simp add: lock_sums_external)
  then have lk: "locks_ok ?k"
    using irq_entry_locks [OF assms(1,4)] by (simp add: locks_ok_def)
  show ?thesis
  proof (cases "yield_on_return k2")
    case True
    then have y: "thread_yield ?k = Some k'"
      using tick(6) assms(5) by simp
    then show ?thesis
      using thread_yield_ok [OF ok(1) y] only_sched_sleepers [OF thread_yield_only [OF y]] ok(2) lk
        only_sched_lock_sums [OF thread_yield_only [OF y]] thread_yield_only [OF y]
      by (auto simp: locks_ok_def only_sched_def)
  next
    case False
    then show ?thesis
      using tick(6) assms(5) ok lk by auto
  qed
qed

section \<open>Calibration\<close>

text \<open>The measurement is monotone: \<open>n\<close> iterations take too long if \<open>n\<close> exceeds the number \<open>N\<close> that fit.\<close>

definition longer_than :: "nat \<Rightarrow> u32 \<Rightarrow> bool" where
  "longer_than N n \<longleftrightarrow> N < unat n"

lemma unat_2_power: "n < 32 \<Longrightarrow> unat (2 ^ n :: u32) = 2 ^ n"
proof -
  assume "n < 32"
  then have "(2 ^ n :: nat) < 2 ^ 32"
    by (intro power_strict_increasing) auto
  then have "unat (of_nat (2 ^ n) :: u32) = 2 ^ n"
    unfolding unat_of_nat by (intro mod_less) simp
  then show ?thesis
    by simp
qed

lemma double_loops_eq:
  assumes "e < 31"
  shows "double_loops (longer_than N) (2 ^ e) =
    (if N < 2 ^ Suc e then Some (2 ^ e) else double_loops (longer_than N) (2 ^ Suc e))"
proof -
  have p: "push_bit 1 (2 ^ e :: u32) = 2 ^ Suc e"
    by (simp add: push_bit_eq_mult)
  have u: "unat (2 ^ Suc e :: u32) = 2 ^ Suc e"
    using assms by (intro unat_2_power) simp
  then have "(2 ^ Suc e :: u32) \<noteq> 0"
    by (metis power_not_zero unat_0 zero_neq_numeral)
  then show ?thesis
    unfolding double_loops.simps [of _ "2 ^ e"] p Let_def longer_than_def u by (simp del: power_Suc)
qed

lemma double_loops_power:
  assumes "e \<le> d" "d < 31" "2 ^ d \<le> N" "N < 2 ^ Suc d"
  shows "double_loops (longer_than N) (2 ^ e) = Some (2 ^ d)"
  using assms
proof (induction "d - e" arbitrary: e)
  case 0
  then show ?case
    by (simp add: double_loops_eq)
next
  case (Suc n)
  then have "Suc e \<le> d" "e < 31"
    by simp_all
  moreover from this(1) have "(2::nat) ^ Suc e \<le> 2 ^ d"
    by (intro power_increasing) auto
  then have "\<not> N < 2 ^ Suc e"
    using Suc.prems(3) by linarith
  ultimately show ?case
    using Suc double_loops_eq [of e N] by (simp del: power_Suc)
qed

lemma refine_loops_bounds:
  assumes "i + n \<le> d" "0 < i" "d < 32" "drop_bit d r = (1 :: u32)"
  shows "drop_bit d (refine_loops f (2 ^ d) i n r) = 1"
  using assms
proof (induction n arbitrary: i r)
  case (Suc n)
  have "(2 :: u32) ^ d = push_bit d 1"
    by (simp add: push_bit_eq_mult)
  moreover have "d < d + i"
    using Suc.prems(2) by simp
  ultimately have "drop_bit d (drop_bit i (2 ^ d :: u32)) = 0"
    by (intro bit_word_eqI) (auto simp: bit_simps)
  then have "drop_bit d (r OR drop_bit i (2 ^ d)) = 1"
    using Suc.prems(4) by (simp add: drop_bit_or)
  then show ?case
    using Suc.IH [of "Suc i"] Suc.prems by auto
qed simp

lemma drop_bit_1_bounds:
  assumes "drop_bit d (r :: u32) = 1"
  shows "2 ^ d \<le> unat r \<and> unat r < 2 ^ Suc d"
proof -
  have "unat r div 2 ^ d = 1"
    using assms by (metis drop_bit_eq_div unat_1 unat_drop_bit_eq)
  then show ?thesis
    using div_nat_eqI [of 1 "2 ^ d" "unat r"] by (metis div_le_dividend div_less_iff_less_mult
        le_refl less_eq_div_iff_mult_less_eq lessI mult.commute mult_1 numeral_2_eq_2 one_add_one plus_1_eq_Suc
        power_Suc zero_less_numeral zero_less_power)
qed

text \<open>
  Calibration ends, and its result has the same highest bit as the number of iterations that fit
  into a tick: it is off by less than a factor of two.
\<close>

theorem timer_calibrate_magnitude:
  assumes "2 ^ 10 \<le> N" "N < 2 ^ 31"
  shows "\<exists>r d. timer_calibrate (longer_than N) = Some r \<and> 2 ^ d \<le> N \<and> N < 2 ^ Suc d \<and>
    2 ^ d \<le> unat r \<and> unat r < 2 ^ Suc d"
proof -
  obtain d where d: "2 ^ d \<le> N" "N < 2 ^ Suc d"
    using ex_power_ivl1 [of 2 N] assms(1) by auto
  have "(2::nat) ^ d < 2 ^ 31" "(2::nat) ^ 10 < 2 ^ Suc d"
    using d assms by linarith+
  then have e: "10 \<le> d" "d < 31"
    by (metis nat_power_less_imp_less zero_less_numeral less_Suc_eq_le)+
  have "drop_bit d (2 ^ d :: u32) = 1"
    using e(2) by (intro bit_word_eqI) (auto simp: bit_simps)
  then have "drop_bit d (refine_loops (longer_than N) (2 ^ d) 1 9 (2 ^ d)) = 1"
    using e by (intro refine_loops_bounds) auto
  moreover have "double_loops (longer_than N) (push_bit 10 1) = Some (2 ^ d)"
    using double_loops_power [OF e d] by simp
  ultimately show ?thesis
    using d drop_bit_1_bounds by (auto simp: timer_calibrate_def)
qed

theorem timer_calibrate_magnitude_witness:
  "\<exists>r d. timer_calibrate (longer_than 1600) = Some r \<and> 2 ^ d \<le> (1600::nat) \<and> 1600 < (2::nat) ^ Suc d \<and>
    2 ^ d \<le> unat r \<and> unat r < 2 ^ Suc d"
  using timer_calibrate_magnitude [of 1600] by simp


end
