(* ===== verification/Kernel_Run.thy ===== *)
theory Kernel_Run
  imports Timer
begin

text \<open>
  Running the kernel: \<^verbatim>\<open>thread_init\<close>, \<^verbatim>\<open>thread_start\<close>, \<^verbatim>\<open>thread_create\<close> and the idle thread of
  \<^verbatim>\<open>threads/thread.c\<close>, and the step relation in which threads, interrupted by the timer, call the
  operations of \<^verbatim>\<open>Threads\<close>, \<^verbatim>\<open>Synch\<close> and \<^verbatim>\<open>Timer\<close> in any order.

  The main results are invariants of every state reachable from a booted kernel: one thread
  runs, every other live thread is on exactly one list that agrees with its state, and every lock
  is possessed at most once.
\<close>

section \<open>Start-up and thread creation\<close>

definition thread_init :: "lock_id \<Rightarrow> lock_id \<Rightarrow> kernel \<Rightarrow> kernel option" where
  "thread_init tidl filel k = do {
     ASSERT (\<not> intr_get_level k);
     k \<leftarrow> lock_init tidl (k\<lparr>tid_lock := tidl\<rparr>);
     let k = k\<lparr>ready_list := [], sleeping_list := []\<rparr>;
     k \<leftarrow> lock_init filel (k\<lparr>file_lock := filel\<rparr>);
     let k = k\<lparr>initial_thread := running_thread k\<rparr>;
     k \<leftarrow> init_thread (initial_thread k) ''main'' PRI_DEFAULT k;
     let k = set_status (initial_thread k) THREAD_RUNNING k;
     lock_acquire (tid_lock k) (push Init_tid k) }"

definition init_tid :: "kernel \<Rightarrow> kernel option" where
  "init_tid k = lock_release (tid_lock k) (push (Init_done (next_tid k)) (k\<lparr>next_tid := next_tid k + 1\<rparr>))"

definition init_done :: "int \<Rightarrow> kernel \<Rightarrow> kernel option" where
  "init_done tid k = Some (upd (initial_thread k) (\<lambda>c. c\<lparr>t_tid := tid\<rparr>) k)"

definition thread_create :: "create_args \<Rightarrow> kernel \<Rightarrow> kernel option" where
  "thread_create a k =
     (if c_page a = NULL then Some (set_eax TID_ERROR k)
      else do {
        k \<leftarrow> init_thread (c_page a) (c_name a) (c_priority a) k;
        lock_acquire (tid_lock k) (push (Create_tid a) k) })"

text \<open>The body of \<^verbatim>\<open>allocate_tid\<close> between its lock operations.\<close>

definition allocate_tid :: "create_args \<Rightarrow> kernel \<Rightarrow> kernel option" where
  "allocate_tid a k = lock_release (tid_lock k) (push (Create_rest a (next_tid k)) (k\<lparr>next_tid := next_tid k + 1\<rparr>))"

text \<open>Writing through the null pointer of a failed \<^verbatim>\<open>malloc\<close> is a fault. The three stack frames have
  12, 4 and 28 bytes.\<close>

definition create_rest :: "create_args \<Rightarrow> int \<Rightarrow> kernel \<Rightarrow> kernel option" where
  "create_rest a tid k = do {
     let t = c_page a;
     let k = upd t (\<lambda>c. c\<lparr>t_tid := tid\<rparr>) k;
     ASSERT (c_child_ok a);
     let child = \<lparr>pid = t_tid (thr k t), is_wait = False, ch_status = t_exit_code (thr k t)\<rparr>;
     let k = upd (running_thread k) (\<lambda>c. c\<lparr>t_child_list := t_child_list c @ [child]\<rparr>) k;
     k \<leftarrow> alloc_frame t 12 k;
     k \<leftarrow> alloc_frame t 4 k;
     k \<leftarrow> alloc_frame t 28 k;
     let k = upd t (\<lambda>c. c\<lparr>t_frames := [Kernel_thread (c_function a)]\<rparr>) k;
     thread_unblock t (push (Create_check a tid) k) }"

definition create_check :: "create_args \<Rightarrow> int \<Rightarrow> kernel \<Rightarrow> kernel option" where
  "create_check a tid k = do {
     t \<leftarrow> thread_current k;
     let k = push (Create_dir a tid) k;
     if priority k t < c_priority a then thread_yield k else Some k }"

text \<open>By now the new thread may have ended and its page may have been freed; the write is then a fault.\<close>

definition create_dir :: "create_args \<Rightarrow> int \<Rightarrow> kernel \<Rightarrow> kernel option" where
  "create_dir a tid k = do {
     t \<leftarrow> thread_current k;
     k \<leftarrow> (if t_dir (thr k t) \<noteq> NULL then do {
             ASSERT (is_thread k (c_page a));
             Some (upd (c_page a) (\<lambda>c. c\<lparr>t_dir := c_newdir a\<rparr>) k) }
           else Some k);
     Some (set_eax tid k) }"

definition thread_start :: "tptr \<Rightarrow> sema_id \<Rightarrow> kernel \<Rightarrow> kernel option" where
  "thread_start page idle_started k =
     thread_create \<lparr>c_page = page, c_name = ''idle'', c_priority = PRI_MIN, c_function = Idle_fn idle_started,
         c_child_ok = True, c_newdir = NULL\<rparr>
       (push (Start_wait idle_started) (sema_init idle_started 0 k))"

definition start_wait :: "sema_id \<Rightarrow> kernel \<Rightarrow> kernel option" where
  "start_wait s k = do { k \<leftarrow> intr_enable k; sema_down s k }"

definition kernel_thread :: "thread_fn \<Rightarrow> kernel \<Rightarrow> kernel option" where
  "kernel_thread f k = do {
     k \<leftarrow> intr_enable k;
     Some (case f of Client_fn \<Rightarrow> k | Idle_fn s \<Rightarrow> push (Idle_start s) k) }"

definition idle_start :: "sema_id \<Rightarrow> kernel \<Rightarrow> kernel option" where
  "idle_start s k = do {
     t \<leftarrow> thread_current k;
     sema_up s (push Idle_loop (k\<lparr>idle_thread := t\<rparr>)) }"

definition idle_loop :: "kernel \<Rightarrow> kernel option" where
  "idle_loop k = thread_block (push Idle_halt (intr_disable k))"

definition idle_halt :: "kernel \<Rightarrow> kernel option" where
  "idle_halt k = Some (push Idle_loop (k\<lparr>intr_on := True\<rparr>))"

definition acquire_file_lock :: "kernel \<Rightarrow> kernel option" where
  "acquire_file_lock k = lock_acquire (file_lock k) k"

definition release_file_lock :: "kernel \<Rightarrow> kernel option" where
  "release_file_lock k = lock_release (file_lock k) k"

section \<open>Steps\<close>

text \<open>Continue the running thread with its topmost frame.\<close>

definition exec_frame :: "frame \<Rightarrow> kernel \<Rightarrow> kernel option" where
  "exec_frame f k = (case f of
       Set_level b \<Rightarrow> intr_set_level b k
     | Iret \<Rightarrow> Some (k\<lparr>intr_on := True\<rparr>)
     | Sema_retry s b \<Rightarrow> sema_down_loop s b k
     | Lock_got l b \<Rightarrow> lock_acquire_end l b k
     | Release_rest l \<Rightarrow> lock_release_rest l k
     | Call_sema_down s \<Rightarrow> sema_down s k
     | Call_lock_acquire l \<Rightarrow> lock_acquire l k
     | Call_broadcast c l \<Rightarrow> cond_broadcast c l k
     | Call_to_sleep w \<Rightarrow> thread_to_sleep w k
     | Create_tid a \<Rightarrow> allocate_tid a k
     | Create_rest a tid \<Rightarrow> create_rest a tid k
     | Create_check a tid \<Rightarrow> create_check a tid k
     | Create_dir a tid \<Rightarrow> create_dir a tid k
     | Init_tid \<Rightarrow> init_tid k
     | Init_done tid \<Rightarrow> init_done tid k
     | Start_wait s \<Rightarrow> start_wait s k
     | Kernel_thread f \<Rightarrow> kernel_thread f k
     | Idle_start s \<Rightarrow> idle_start s k
     | Idle_loop \<Rightarrow> idle_loop k
     | Idle_halt \<Rightarrow> idle_halt k)"

definition exec :: "kernel \<Rightarrow> kernel option" where
  "exec k = (case frames k (cur k) of [] \<Rightarrow> None | f # _ \<Rightarrow> exec_frame f (pop k))"

text \<open>What a thread may call, and the effect of the call. The results of the trying operations are
  left in the register \<^verbatim>\<open>eax\<close>. \<open>Thread_exit\<close> is the end of the thread, after the calls with
  which the process releases its resources.\<close>

datatype call =
    Thread_yield
  | Thread_set_priority int
  | Thread_create create_args
  | Thread_exit
  | Sema_init sema_id nat
  | Sema_down sema_id
  | Sema_try_down sema_id
  | Sema_up sema_id
  | Lock_acquire lock_id
  | Lock_try_acquire lock_id
  | Lock_release lock_id
  | Cond_wait nat lock_id sema_id
  | Cond_signal nat lock_id
  | Cond_broadcast nat lock_id
  | Timer_sleep int

definition do_call :: "call \<Rightarrow> kernel \<Rightarrow> kernel option" where
  "do_call c k = (case c of
       Thread_yield \<Rightarrow> thread_yield k
     | Thread_set_priority p \<Rightarrow> thread_set_priority p k
     | Thread_create a \<Rightarrow> thread_create a k
     | Thread_exit \<Rightarrow> thread_exit_tail k
     | Sema_init s v \<Rightarrow> Some (sema_init s v k)
     | Sema_down s \<Rightarrow> sema_down s k
     | Sema_try_down s \<Rightarrow> map_option (\<lambda>(r, k). set_eax (of_bool r) k) (sema_try_down s k)
     | Sema_up s \<Rightarrow> sema_up s k
     | Lock_acquire l \<Rightarrow> lock_acquire l k
     | Lock_try_acquire l \<Rightarrow> map_option (\<lambda>(r, k). set_eax (of_bool r) k) (lock_try_acquire l k)
     | Lock_release l \<Rightarrow> lock_release l k
     | Cond_wait c l w \<Rightarrow> cond_wait c l w k
     | Cond_signal c l \<Rightarrow> cond_signal c l k
     | Cond_broadcast c l \<Rightarrow> cond_broadcast c l k
     | Timer_sleep n \<Rightarrow> timer_sleep n k)"

text \<open>
  The rules of use: semaphores inside locks are left to the lock operations, a semaphore is initialised
  when no thread waits on it, and the page for a new thread is free memory.
\<close>

definition call_ok :: "call \<Rightarrow> kernel \<Rightarrow> bool" where
  "call_ok c k \<longleftrightarrow> (case c of
       Thread_create a \<Rightarrow> \<not> is_thread k (c_page a) \<and> waiters k (Child_sema (c_page a)) = [] \<and> c_function a = Client_fn
     | Sema_init s v \<Rightarrow> sema_lock s = None \<and> waiters k s = []
     | Sema_down s \<Rightarrow> sema_lock s = None
     | Sema_try_down s \<Rightarrow> sema_lock s = None
     | Sema_up s \<Rightarrow> sema_lock s = None
     | Cond_wait c l w \<Rightarrow> sema_lock w = None \<and> waiters k w = []
     | _ \<Rightarrow> True)"

inductive kstep :: "kernel \<Rightarrow> kernel \<Rightarrow> bool" where
  continue: "exec k = Some k' \<Longrightarrow> kstep k k'"
| call: "frames k (cur k) = [] \<Longrightarrow> call_ok c k \<Longrightarrow> do_call c k = Some k' \<Longrightarrow> kstep k k'"
| tick: "intr_on k \<Longrightarrow> timer_irq k = Some k' \<Longrightarrow> kstep k k'"

section \<open>What calls do to the stacks\<close>

text \<open>The threads a function has in hand: those that \<^verbatim>\<open>thread_create\<close> has not yet made ready.\<close>

definition created_by :: "frame \<Rightarrow> tptr list" where
  "created_by f = (case f of Create_tid a \<Rightarrow> [c_page a] | Create_rest a _ \<Rightarrow> [c_page a] | _ \<Rightarrow> [])"

definition creating :: "frame list \<Rightarrow> tptr list" where
  "creating fs = concat (map created_by fs)"

definition nascent :: "kernel \<Rightarrow> tptr set" where
  "nascent k = {p. \<exists>t. is_thread k t \<and> p \<in> set (creating (frames k t))}"

definition creations_ok :: "kernel \<Rightarrow> bool" where
  "creations_ok k \<longleftrightarrow> (\<forall>t. is_thread k t \<longrightarrow> distinct (creating (frames k t))) \<and>
     (\<forall>t u. is_thread k t \<and> is_thread k u \<and> t \<noteq> u \<longrightarrow> set (creating (frames k t)) \<inter> set (creating (frames k u)) = {})"

text \<open>Frames of the operations that any thread may call, frames of ordinary threads, and the stack
  of the idle thread.\<close>

definition benign :: "frame \<Rightarrow> bool" where
  "benign f \<longleftrightarrow> (case f of Create_tid _ \<Rightarrow> False | Create_rest _ _ \<Rightarrow> False | Init_tid \<Rightarrow> False | Init_done _ \<Rightarrow> False |
     Start_wait _ \<Rightarrow> False | Kernel_thread _ \<Rightarrow> False | Idle_start _ \<Rightarrow> False | Idle_loop \<Rightarrow> False | Idle_halt \<Rightarrow> False | _ \<Rightarrow> True)"

definition client_frame :: "frame \<Rightarrow> bool" where
  "client_frame f \<longleftrightarrow> (case f of Create_tid a \<Rightarrow> c_function a = Client_fn | Create_rest a _ \<Rightarrow> c_function a = Client_fn |
     Kernel_thread g \<Rightarrow> g = Client_fn | _ \<Rightarrow> benign f)"

fun idle_stack :: "frame list \<Rightarrow> bool" where
  "idle_stack [] \<longleftrightarrow> False"
| "idle_stack (f # fs) \<longleftrightarrow> (case f of Set_level _ \<Rightarrow> idle_stack fs | Iret \<Rightarrow> idle_stack fs |
     Idle_loop \<Rightarrow> fs = [] | Idle_halt \<Rightarrow> fs = [] | _ \<Rightarrow> False)"

definition idle_ok :: "kernel \<Rightarrow> bool" where
  "idle_ok k \<longleftrightarrow> idle_thread k \<noteq> NULL \<and> idle_stack (frames k (idle_thread k)) \<and>
     (\<forall>t. is_thread k t \<and> t \<noteq> idle_thread k \<longrightarrow> (\<forall>f\<in>set (frames k t). client_frame f))"

definition conds_ok :: "kernel \<Rightarrow> bool" where
  "conds_ok k \<longleftrightarrow> (\<forall>c. \<forall>w\<in>set (cond_waiters k c). sema_lock w = None)"

text \<open>A call pushes frames on the stack of its caller; other threads get at most pending calls of
  \<^verbatim>\<open>intr_set_level\<close>.\<close>

definition calls :: "kernel \<Rightarrow> kernel \<Rightarrow> bool" where
  "calls k k' \<longleftrightarrow> (\<forall>t. is_thread k' t = is_thread k t) \<and>
     (\<forall>t. t \<noteq> cur k \<longrightarrow> (\<exists>bs. frames k' t = map Set_level bs @ frames k t)) \<and>
     (\<exists>gs. frames k' (cur k) = gs @ frames k (cur k) \<and> (\<forall>g\<in>set gs. benign g)) \<and>
     idle_thread k' = idle_thread k \<and> in_external_intr k' = in_external_intr k \<and>
     (sleepers_sorted k \<longrightarrow> sleepers_sorted k') \<and> (conds_ok k \<longrightarrow> conds_ok k')"

lemma benign_Set_level [simp]: "benign (Set_level b)"
  by (simp add: benign_def)

lemma calls_trans:
  assumes "calls k k1" "calls k1 k2" "cur k1 = cur k"
  shows "calls k k2"
proof -
  obtain gs where "frames k1 (cur k) = gs @ frames k (cur k)" "\<forall>g\<in>set gs. benign g"
    using assms(1) unfolding calls_def by blast
  moreover obtain hs where "frames k2 (cur k) = hs @ frames k1 (cur k)" "\<forall>g\<in>set hs. benign g"
    using assms(2,3) unfolding calls_def by metis
  ultimately have "\<exists>gs. frames k2 (cur k) = gs @ frames k (cur k) \<and> (\<forall>g\<in>set gs. benign g)"
    by (intro exI [of _ "hs @ gs"]) auto
  moreover have "\<exists>bs. frames k2 t = map Set_level bs @ frames k t" if "t \<noteq> cur k" for t
    using assms that unfolding calls_def by (metis append_assoc map_append)
  moreover have "(\<forall>t. is_thread k2 t = is_thread k t) \<and> idle_thread k2 = idle_thread k \<and>
      in_external_intr k2 = in_external_intr k \<and> (sleepers_sorted k \<longrightarrow> sleepers_sorted k2) \<and> (conds_ok k \<longrightarrow> conds_ok k2)"
    using assms by (simp add: calls_def)
  ultimately show ?thesis
    unfolding calls_def by blast
qed

lemma only_sched_calls:
  assumes "only_sched k k'"
  shows "calls k k'"
proof -
  obtain bs where "frames k' (cur k) = map Set_level bs @ frames k (cur k)"
    using assms unfolding only_sched_def by blast
  then have "\<exists>gs. frames k' (cur k) = gs @ frames k (cur k) \<and> (\<forall>g\<in>set gs. benign g)"
    by (intro exI [of _ "map Set_level bs"]) auto
  then show ?thesis
    using assms only_sched_sleepers [OF assms] unfolding calls_def only_sched_def conds_ok_def by auto
qed

lemma calls_then: "calls k k1 \<Longrightarrow> cur k1 = cur k \<Longrightarrow> only_sched k1 k2 \<Longrightarrow> calls k k2"
  using calls_trans only_sched_calls by blast

lemma calls_push:
  assumes "benign f"
  shows "calls k (push f k)"
proof -
  have "frames (push f k) (cur k) = [f] @ frames k (cur k)"
    by (simp add: push_frames)
  then have "\<exists>gs. frames (push f k) (cur k) = gs @ frames k (cur k) \<and> (\<forall>g\<in>set gs. benign g)"
    using assms by (intro exI [of _ "[f]"]) simp
  moreover have "t_morning_tick (thr (push f k) t) = t_morning_tick (thr k t)" "cond_waiters (push f k) = cond_waiters k" for t
    by (simp_all add: thread_defs)
  ultimately show ?thesis
    by (auto simp: calls_def push_frames sleepers_sorted_def conds_ok_def)
qed

text \<open>Changes that leave all stacks alone.\<close>

lemma calls_quiet:
  assumes "\<And>t. frames k' t = frames k t \<and> is_thread k' t = is_thread k t \<and>
      t_morning_tick (thr k' t) = t_morning_tick (thr k t)"
    and "idle_thread k' = idle_thread k" "in_external_intr k' = in_external_intr k"
    "sleeping_list k' = sleeping_list k" "conds_ok k \<longrightarrow> conds_ok k'"
  shows "calls k k'"
  using assms by (simp add: calls_def sleepers_sorted_def)

lemma calls_donated: "calls k (k\<lparr>thr := \<lambda>u. (thr k u)\<lparr>t_priority := p u\<rparr>\<rparr>)"
  by (rule calls_quiet) (simp_all add: is_thread_def conds_ok_def)

lemma calls_set_sema: "calls k (set_sema s f k)"
  by (rule calls_quiet) (simp_all add: conds_ok_def)

lemma calls_upd:
  "(\<And>c. t_frames (f c) = t_frames c \<and> t_magic (f c) = t_magic c \<and> t_morning_tick (f c) = t_morning_tick c) \<Longrightarrow>
    calls k (upd t f k)"
  by (rule calls_quiet) (simp_all add: conds_ok_def upd_def is_thread_def)

lemma calls_holder: "calls k (k\<lparr>holder := h\<rparr>)"
  by (rule calls_quiet) (simp_all add: conds_ok_def is_thread_def)

lemmas calls_intr = only_sched_calls [OF only_sched_simple(2)]

lemma sema_down_loop_calls:
  assumes "sched_ok X k" "sema_down_loop s b k = Some k'"
  shows "calls k k'"
  using assms
proof (cases rule: sema_down_loop_cases)
  case (wait p k1)
  have "calls k (set_sema s (\<lambda>c. c\<lparr>s_waiters := s_waiters c @ [cur k]\<rparr>) k1)"
    using calls_trans [OF calls_donated calls_set_sema] wait(2) by simp
  then have "calls k (push (Sema_retry s b) (set_sema s (\<lambda>c. c\<lparr>s_waiters := s_waiters c @ [cur k]\<rparr>) k1))"
    using calls_trans [OF _ calls_push] wait(2) by (simp add: benign_def)
  then show ?thesis
    using calls_then [OF _ _ thread_block_only [OF wait(4)]] wait(2) by simp
next
  case take
  then show ?thesis
    using calls_then [OF calls_set_sema _ intr_set_level_only] by simp
qed

lemma sema_down_calls:
  assumes "sched_ok X k" "sema_down s k = Some k'"
  shows "calls k k'"
proof -
  have "sched_ok X (k\<lparr>intr_on := False\<rparr>)"
    using assms(1) by simp
  from calls_trans [OF calls_intr sema_down_loop_calls [OF this]] show ?thesis
    using assms by (auto simp: sema_down_eq split: if_splits)
qed

lemma sema_try_down_calls:
  assumes "sema_try_down s k = Some (r, k')"
  shows "calls k k' \<and> cur k' = cur k"
proof -
  have "calls k (set_sema s f (k\<lparr>intr_on := b\<rparr>)\<lparr>intr_on := c\<rparr>)" "calls k (k\<lparr>intr_on := b\<rparr>)" for f b c
    using calls_trans [OF calls_trans [OF calls_intr calls_set_sema] calls_intr] calls_intr by simp_all
  then show ?thesis
    using assms only_sched_calls [OF only_sched_refl] by (auto simp: sema_try_down_def Let_def intr_disable_def intr_get_level_def intr_set_level_eq
        split: if_splits)
qed

lemma sema_up_calls:
  assumes "sema_up s k = Some k'"
  shows "calls k k'"
proof (cases "sort_key (\<lambda>t. - priority k t) (waiters k s)")
  case Nil
  then show ?thesis
    using assms calls_then [OF calls_trans [OF calls_intr calls_set_sema] _ intr_set_level_only]
    by (simp add: sema_up_eq)
next
  case (Cons t rest)
  have "calls k (sema_wake s rest k)"
    unfolding sema_wake_def by (intro calls_trans [OF calls_trans [OF calls_intr calls_set_sema] calls_push]) simp_all
  then show ?thesis
    using assms Cons calls_then [OF _ _ thread_unblock_only] by (simp add: sema_up_eq sema_wake_def)
qed

lemma lock_wait_calls: "calls k (lock_wait l k)"
  by (rule calls_quiet) (simp_all add: conds_ok_def, simp add: lock_wait_def Let_def intr_disable_def upd_def)

lemma lock_acquire_calls:
  assumes "sched_ok X k" "lock_acquire l k = Some k'"
  shows "calls k k'"
proof -
  let ?k = "push (Lock_got l (intr_on k)) (lock_wait l k)"
  have ok: "sched_ok X ?k"
    using assms(1) same_place_sched(1) [OF lock_wait_place] by simp
  have "calls k ?k"
    by (intro calls_trans [OF lock_wait_calls calls_push]) (simp_all add: benign_def)
  then show ?thesis
    using calls_trans [OF _ sema_down_calls [OF ok]] assms(2) by (simp add: lock_acquire_eq [OF assms(1)] split: if_splits)
qed

lemma lock_acquire_end_calls:
  assumes "sched_ok X k" "lock_acquire_end l b k = Some k'"
  shows "calls k k'"
  using assms calls_then [OF calls_holder _ intr_set_level_only] by (simp add: lock_acquire_end_def thread_current_ok)

lemma lock_release_calls:
  assumes "sched_ok X k" "lock_release l k = Some k'"
  shows "calls k k'"
proof -
  have "calls k (push (Release_rest l) (k\<lparr>holder := (holder k)(l := NULL)\<rparr>))"
    by (intro calls_trans [OF calls_holder calls_push]) (simp_all add: benign_def)
  then show ?thesis
    using assms by (auto simp: lock_release_eq split: if_splits)
qed

lemma lock_release_rest_calls:
  assumes "sched_ok X k" "lock_release_rest l k = Some k'"
  shows "calls k k'"
  using assms
proof (rule lock_release_rest_cases)
  fix p d
  let ?u = "upd (cur k) (\<lambda>c. c\<lparr>t_priority := p, t_potential_donator := d\<rparr>) (k\<lparr>intr_on := False\<rparr>)"
  assume "sema_up (Lock_sema l) (push (Set_level (intr_on k)) ?u) = Some k'"
  moreover have "calls k ?u"
    by (intro calls_trans [OF calls_intr calls_upd]) simp_all
  ultimately show ?thesis
    using calls_trans [OF calls_trans [OF _ calls_push] sema_up_calls, of k ?u "Set_level (intr_on k)"] by simp
qed

lemma lock_try_acquire_calls:
  assumes "sched_ok X k" "lock_try_acquire l k = Some (r, k')"
  shows "calls k k' \<and> cur k' = cur k"
proof -
  have "calls k (try_acquired l k)"
    unfolding try_acquired_def
    by (intro calls_trans [OF calls_trans [OF calls_set_sema calls_upd] calls_holder]) simp_all
  then show ?thesis
    using assms(2) only_sched_calls [OF only_sched_refl]
    by (auto simp: lock_try_acquire_eq [OF assms(1)] try_acquired_def split: if_splits)
qed

lemma sema_init_calls: "calls k (sema_init s v k)"
  unfolding sema_init_def by (rule calls_set_sema)

lemma cond_wait_calls:
  assumes "sched_ok X k" "sema_lock w = None" "waiters k w = []" "cond_wait c l w k = Some k'"
  shows "calls k k'"
proof -
  let ?k = "sema_init w 0 k\<lparr>cond_waiters := (cond_waiters k)(c := cond_waiters k c @ [w])\<rparr>"
  let ?p = "push (Call_sema_down w) (push (Call_lock_acquire l) ?k)"
  have "calls k ?k"
    by (rule calls_quiet) (use assms(2) in \<open>auto simp: sema_init_def conds_ok_def\<close>)
  then have p: "calls k ?p"
    by (intro calls_trans [OF calls_trans [OF _ calls_push] calls_push]) (simp_all add: benign_def sema_init_def)
  have ok: "sched_ok X ?p"
    using sema_init_ok [OF assms(1,3)] same_place_sched(1) [OF same_place_holder(2)] by simp
  show ?thesis
    using calls_trans [OF p lock_release_calls [OF ok, of l k']] assms(4) lock_held_ok [OF assms(1)]
    by (auto simp: cond_wait_def Let_def sema_init_def split: if_splits)
qed

lemma sort_cond_waiters_set: "sort_cond_waiters k ws = Some vs \<Longrightarrow> set vs = set ws"
  by (auto simp: sort_cond_waiters_def split: if_splits)

lemma cond_signal_calls:
  assumes "sched_ok X k" "cond_signal c l k = Some k'"
  shows "calls k k'"
proof -
  obtain vs where vs: "sort_cond_waiters k (cond_waiters k c) = Some vs"
    and k': "(case vs of [] \<Rightarrow> Some k | w # ws \<Rightarrow> sema_up w (k\<lparr>cond_waiters := (cond_waiters k)(c := ws)\<rparr>)) = Some k'"
    using assms(2) lock_held_ok [OF assms(1)]
    by (auto simp: cond_signal_def split: if_splits dest!: bind_eq_SomeD)
  show ?thesis
  proof (cases vs)
    case Nil
    then show ?thesis
      using k' only_sched_calls [OF only_sched_refl] by simp
  next
    case (Cons w ws)
    then have "calls k (k\<lparr>cond_waiters := (cond_waiters k)(c := ws)\<rparr>)"
      using sort_cond_waiters_set [OF vs] by (intro calls_quiet) (auto simp: conds_ok_def is_thread_def)
    then show ?thesis
      using k' Cons calls_trans [OF _ sema_up_calls] by simp
  qed
qed

lemma cond_broadcast_calls:
  assumes "sched_ok X k" "cond_broadcast c l k = Some k'"
  shows "calls k k'"
proof -
  have ok: "sched_ok X (push (Call_broadcast c l) k)"
    using assms(1) by simp
  have "calls k (push (Call_broadcast c l) k)"
    by (rule calls_push) (simp add: benign_def)
  from calls_trans [OF this cond_signal_calls [OF ok]] show ?thesis
    using assms(2) only_sched_calls [OF only_sched_refl]
    by (auto simp: cond_broadcast_def split: if_splits)
qed

lemma thread_set_priority_calls:
  assumes "sched_ok X k" "thread_set_priority p k = Some k'"
  shows "calls k k'"
proof -
  let ?o = "upd (cur k) (\<lambda>c. c\<lparr>t_origin_priority := p\<rparr>) (k\<lparr>intr_on := False\<rparr>)"
  let ?p = "upd (cur k) (\<lambda>c. c\<lparr>t_priority := p, t_origin_priority := p\<rparr>) (k\<lparr>intr_on := False\<rparr>)"
  have "calls k ?o" "calls k ?p"
    by (intro calls_trans [OF calls_intr calls_upd]; simp)+
  moreover from this(2) have "calls k (push (Set_level (intr_on k)) ?p)"
    by (rule calls_trans [OF _ calls_push]) simp_all
  ultimately show ?thesis
    using assms(2) thread_current_ok [OF assms(1)] calls_then [OF _ _ intr_set_level_only, of k ?o]
      calls_then [OF _ _ intr_set_level_only, of k ?p]
      calls_then [OF _ _ thread_yield_only, of k "push (Set_level (intr_on k)) ?p"]
    by (auto simp: thread_set_priority_def Let_def intr_get_level_def intr_disable_def split: if_splits)
qed

lemma timer_ticks_eq:
  "timer_ticks k = (if intr_on k \<and> in_external_intr k then None else Some (ticks k, k))"
  by (auto simp: timer_ticks_def intr_set_level_eq intr_get_level_def intr_disable_def Let_def)

lemma timer_sleep_eq:
  "timer_sleep n k = (if in_external_intr k \<or> \<not> intr_on k then None
     else Some (push (Call_to_sleep (int64 (ticks k + n))) k))"
  by (simp add: timer_sleep_def timer_ticks_eq intr_get_level_def)

lemma timer_sleep_calls: "timer_sleep n k = Some k' \<Longrightarrow> calls k k'"
  using calls_push by (auto simp: timer_sleep_eq benign_def split: if_splits)

lemma slept_calls:
  assumes "sched_ok X k"
  shows "calls k (slept w k)"
proof -
  have "cur k \<notin> set (sleeping_list k)"
    using assms by (auto simp: sched_ok_def placed_def states_agree_def parked_def)
  then show ?thesis
    using slept_sorted by (simp add: calls_def conds_ok_def)
qed

lemma thread_to_sleep_calls:
  assumes "sched_ok X k" "thread_to_sleep w k = Some k'"
  shows "calls k k'"
proof -
  have "calls k (push (Set_level (intr_on k)) (slept w k))"
    by (rule calls_trans [OF slept_calls [OF assms(1)] calls_push]) simp_all
  then show ?thesis
    using assms calls_then [OF _ _ thread_block_only] by (simp add: thread_to_sleep_eq)
qed

section \<open>The invariant\<close>

text \<open>\<open>threads_ok\<close> is what does not concern locks.\<close>

definition newborns_ok :: "kernel \<Rightarrow> bool" where
  "newborns_ok k \<longleftrightarrow> (\<forall>p\<in>nascent k. creating (frames k p) = [] \<and> owing (frames k p) = None)"

definition stacks_ok :: "kernel \<Rightarrow> bool" where
  "stacks_ok k \<longleftrightarrow> sleepers_sorted k \<and> \<not> in_external_intr k \<and> creations_ok k \<and> newborns_ok k \<and> conds_ok k \<and> idle_ok k"

definition threads_ok :: "kernel \<Rightarrow> bool" where
  "threads_ok k \<longleftrightarrow> sched_ok (nascent k) k \<and> stacks_ok k"

definition kernel_ok :: "kernel \<Rightarrow> bool" where
  "kernel_ok k \<longleftrightarrow> threads_ok k \<and> locks_ok k"

lemma creating_append [simp]: "creating (fs @ gs) = creating fs @ creating gs"
  by (simp add: creating_def)

lemma creating_Cons [simp]: "creating (f # fs) = created_by f @ creating fs" "creating [] = []"
  by (simp_all add: creating_def)

lemma benign_created [simp]: "benign f \<Longrightarrow> created_by f = []"
  by (cases f) (auto simp: benign_def created_by_def)

lemma benign_creating: "\<forall>g\<in>set gs. benign g \<Longrightarrow> creating gs = []"
  by (simp add: creating_def)

lemma benign_client: "benign f \<Longrightarrow> client_frame f"
  by (cases f) (auto simp: benign_def client_frame_def)

lemma idle_stack_Set_level [simp]: "idle_stack (map Set_level bs @ fs) = idle_stack fs"
  by (induction bs) auto

lemma calls_creating:
  assumes "calls k k'"
  shows "creating (frames k' t) = creating (frames k t)"
proof (cases "t = cur k")
  case True
  then obtain gs where "frames k' t = gs @ frames k t" "\<forall>g\<in>set gs. benign g"
    using assms unfolding calls_def by blast
  then show ?thesis
    by (simp add: benign_creating)
next
  case False
  then obtain bs where "frames k' t = map Set_level bs @ frames k t"
    using assms unfolding calls_def by blast
  then show ?thesis
    using benign_creating [of "map Set_level bs"] by simp
qed

lemma calls_stacks:
  assumes "stacks_ok k" "calls k k'" "cur k \<noteq> idle_thread k" "cur k \<notin> nascent k"
  shows "stacks_ok k' \<and> nascent k' = nascent k"
proof -
  have live: "is_thread k' t = is_thread k t" for t
    using assms(2) by (simp add: calls_def)
  then have n: "nascent k' = nascent k" "creations_ok k' = creations_ok k"
    by (simp_all add: nascent_def creations_ok_def calls_creating [OF assms(2)])
  have "owing (frames k' p) = owing (frames k p)" if "p \<in> nascent k" for p
    using assms(2,4) that unfolding calls_def by (metis owing_Set_level)
  then have "newborns_ok k'"
    using assms(1) n(1) by (simp add: stacks_ok_def newborns_ok_def calls_creating [OF assms(2)])
  moreover note n
  moreover have "\<forall>f\<in>set (frames k' t). client_frame f" if "\<forall>f\<in>set (frames k t). client_frame f" for t
  proof (cases "t = cur k")
    case True
    then show ?thesis
      using assms(2) that benign_client unfolding calls_def by fastforce
  next
    case False
    then obtain bs where "frames k' t = map Set_level bs @ frames k t"
      using assms(2) unfolding calls_def by blast
    then show ?thesis
      using that benign_client by auto
  qed
  moreover have "idle_stack (frames k' (idle_thread k))" "idle_thread k' = idle_thread k"
    using assms(1-3) unfolding calls_def stacks_ok_def idle_ok_def by (metis idle_stack_Set_level)+
  moreover have "\<not> in_external_intr k'" "sleepers_sorted k'" "conds_ok k'"
    using assms(1,2) by (simp_all add: calls_def stacks_ok_def)
  ultimately show ?thesis
    using assms(1) live unfolding stacks_ok_def idle_ok_def by auto
qed

lemma running_not_nascent: "sched_ok X k \<Longrightarrow> cur k \<notin> X"
  by (auto simp: sched_ok_def placed_def states_agree_def)

lemma calls_threads_ok:
  assumes "threads_ok k" "calls k k'" "cur k \<noteq> idle_thread k" "sched_ok (nascent k) k'"
  shows "threads_ok k'"
  using assms calls_stacks [of k k'] running_not_nascent [of _ k] by (simp add: threads_ok_def)

text \<open>Replacing the stack of the running thread.\<close>

lemma restack:
  assumes "stacks_ok k" "cur k \<notin> nascent k" "\<And>t. is_thread k1 t = is_thread k t" "\<And>t. t \<noteq> cur k \<Longrightarrow> frames k1 t = frames k t"
    and "creating (frames k1 (cur k)) = creating (frames k (cur k))"
    and "cur k = idle_thread k \<Longrightarrow> idle_stack (frames k1 (cur k))"
    and "cur k \<noteq> idle_thread k \<Longrightarrow> \<forall>f\<in>set (frames k1 (cur k)). client_frame f"
    and "idle_thread k1 = idle_thread k" "in_external_intr k1 = in_external_intr k"
      "sleepers_sorted k1" "conds_ok k1"
  shows "stacks_ok k1 \<and> nascent k1 = nascent k"
proof -
  have c: "creating (frames k1 t) = creating (frames k t)" for t
    using assms(4,5) by (cases "t = cur k") auto
  then have n: "nascent k1 = nascent k" "creations_ok k1 = creations_ok k"
    using assms(3) by (simp_all add: nascent_def creations_ok_def)
  moreover have "newborns_ok k1"
    using assms(1,2,4) n(1) c unfolding stacks_ok_def newborns_ok_def by metis
  moreover have "idle_ok k1"
    using assms(1,3,6-8) assms(4) unfolding stacks_ok_def idle_ok_def by metis
  ultimately show ?thesis
    using assms by (simp add: stacks_ok_def)
qed

lemma only_sched_stacks:
  assumes "only_sched k k'" "stacks_ok k"
  shows "stacks_ok k' \<and> nascent k' = nascent k"
proof -
  have fr: "creating (frames k' t) = creating (frames k t)" "idle_stack (frames k' t) = idle_stack (frames k t)"
      "owing (frames k' t) = owing (frames k t)" "(\<forall>f\<in>set (frames k' t). client_frame f) = (\<forall>f\<in>set (frames k t). client_frame f)" for t
  proof -
    obtain bs where "frames k' t = map Set_level bs @ frames k t"
      using assms(1) unfolding only_sched_def by blast
    then show "creating (frames k' t) = creating (frames k t)" "idle_stack (frames k' t) = idle_stack (frames k t)"
      "owing (frames k' t) = owing (frames k t)" "(\<forall>f\<in>set (frames k' t). client_frame f) = (\<forall>f\<in>set (frames k t). client_frame f)"
      using benign_creating [of "map Set_level bs"] benign_client by auto
  qed
  have "is_thread k' t = is_thread k t" "idle_thread k' = idle_thread k" "cond_waiters k' = cond_waiters k"
      "in_external_intr k' = in_external_intr k" for t
    using assms(1) by (simp_all add: only_sched_def)
  then show ?thesis
    using assms(2) only_sched_sleepers [OF assms(1)] fr
    by (simp add: stacks_ok_def nascent_def creations_ok_def newborns_ok_def conds_ok_def idle_ok_def)
qed

lemma sleepers_pop: "sleepers_sorted (pop k) = sleepers_sorted k" "conds_ok (pop k) = conds_ok k"
proof -
  have "t_morning_tick (thr (pop k) t) = t_morning_tick (thr k t)" for t
    by (simp add: pop_def upd_def)
  then show "sleepers_sorted (pop k) = sleepers_sorted k" "conds_ok (pop k) = conds_ok k"
    by (simp_all add: sleepers_sorted_def conds_ok_def)
qed

lemma client_stack:
  assumes "stacks_ok k" "is_thread k (cur k)" "cur k \<noteq> idle_thread k" "f \<in> set (frames k (cur k))"
  shows "client_frame f"
  using assms unfolding stacks_ok_def idle_ok_def by blast

lemma pop_stacks:
  assumes "threads_ok k" "frames k (cur k) = f # fs" "created_by f = []" "cur k \<noteq> idle_thread k"
  shows "threads_ok (pop k)"
proof -
  have ok: "sched_ok (nascent k) k" "stacks_ok k"
    using assms(1) by (simp_all add: threads_ok_def)
  have "\<forall>f\<in>set fs. client_frame f"
    using client_stack [OF ok(2) live_cur [OF ok(1)] assms(4)] assms(2) by simp
  then have "stacks_ok (pop k) \<and> nascent (pop k) = nascent k"
    using ok(2) assms(2-4) by (intro restack [OF ok(2) running_not_nascent [OF ok(1)]]) (auto simp: sleepers_pop stacks_ok_def)
  then show ?thesis
    using ok by (simp add: threads_ok_def)
qed

section \<open>Every step keeps the invariant\<close>

lemma kernel_okD:
  assumes "kernel_ok k"
  shows "sched_ok (nascent k) k" "stacks_ok k" "locks_ok k" "threads_ok k" "is_thread k (cur k)" "\<not> in_external_intr k"
  using assms live_cur by (auto simp: kernel_ok_def threads_ok_def stacks_ok_def)

text \<open>Scheduling, whoever calls it.\<close>

lemma only_sched_kernel_ok:
  assumes "stacks_ok k" "lock_sums k (\<lambda>_. 1)" "only_sched k k'" "sched_ok (nascent k) k'"
  shows "kernel_ok k'"
  using only_sched_stacks [OF assms(3,1)] only_sched_lock_sums [OF assms(3)] assms(2,4)
  by (simp add: kernel_ok_def threads_ok_def locks_ok_def)

lemma thread_yield_kernel_ok:
  assumes "kernel_ok k" "thread_yield k = Some k'"
  shows "kernel_ok k'"
  using assms kernel_okD [OF assms(1)] thread_yield_ok [OF _ assms(2)] thread_yield_only [OF assms(2)]
  by (intro only_sched_kernel_ok [of k]) (auto simp: locks_ok_def)

text \<open>Returning from an interrupt or restoring the interrupt level.\<close>

lemma resume_kernel_ok:
  assumes "kernel_ok k" "frames k (cur k) = f # fs" "f = Iret \<or> f = Set_level b"
  shows "kernel_ok (pop k\<lparr>intr_on := c\<rparr>)"
proof -
  note ok = kernel_okD [OF assms(1)]
  have st: "stack_ok fs" and ow: "owing (f # fs) = owing fs" and cr: "created_by f = []"
    using locks_ok_stack [OF ok(1,3)] assms(2,3) by (auto simp: created_by_def)
  have id: "cur k = idle_thread k \<Longrightarrow> idle_stack fs"
    using ok(2) assms(2,3) by (auto simp: stacks_ok_def idle_ok_def)
  have cl: "cur k \<noteq> idle_thread k \<Longrightarrow> \<forall>g\<in>set fs. client_frame g"
    using client_stack [OF ok(2,5)] assms(2) by simp
  have "stacks_ok (pop k) \<and> nascent (pop k) = nascent k"
    using id cl cr ok(2) assms(2) by (intro restack [OF ok(2) running_not_nascent [OF ok(1)]]) (auto simp: sleepers_pop stacks_ok_def)
  moreover have "lock_sums (pop k) (\<lambda>_. 1)"
    by (rule lock_sums_step [OF ok(3) [unfolded locks_ok_def] ok(5)])
      (use assms(2) st ow in \<open>auto simp: held_def\<close>)
  ultimately show ?thesis
    using ok(1) only_sched_kernel_ok [OF _ _ only_sched_simple(2)] by simp
qed

lemma idle_kernel_ok:
  assumes "kernel_ok k" "frames k (cur k) = [f]" "f = Idle_loop \<or> f = Idle_halt" "g = Idle_loop \<or> g = Idle_halt"
    and "cur k = idle_thread k"
  shows "kernel_ok (push g (pop k\<lparr>intr_on := c\<rparr>))"
proof -
  note ok = kernel_okD [OF assms(1)]
  let ?k = "push g (pop k\<lparr>intr_on := c\<rparr>)"
  have "t_morning_tick (thr ?k t) = t_morning_tick (thr k t)" "cond_waiters ?k = cond_waiters k" for t
    by (simp_all add: pop_def thread_defs)
  then have s: "sleepers_sorted ?k" "conds_ok ?k"
    using ok(2) by (auto simp: stacks_ok_def sleepers_sorted_def conds_ok_def)
  have "stacks_ok ?k \<and> nascent ?k = nascent k"
    by (rule restack [OF ok(2) running_not_nascent [OF ok(1)]]) (use assms(2-5) s in \<open>auto simp: push_frames created_by_def\<close>)
  moreover have "lock_sums ?k (\<lambda>_. 1)"
    by (rule lock_sums_step [OF ok(3) [unfolded locks_ok_def] ok(5)])
      (use assms(2-4) in \<open>auto simp: push_frames held_def\<close>)
  ultimately show ?thesis
    using ok(1) by (simp add: kernel_ok_def threads_ok_def locks_ok_def)
qed

lemma idle_loop_kernel_ok:
  assumes "kernel_ok k" "frames k (cur k) = [Idle_loop]" "cur k = idle_thread k" "idle_loop (pop k) = Some k'"
  shows "kernel_ok k'"
proof -
  let ?k = "push Idle_halt (pop k\<lparr>intr_on := False\<rparr>)"
  have ok: "kernel_ok ?k"
    using idle_kernel_ok [OF assms(1,2)] assms(3) by simp
  note d = kernel_okD [OF ok]
  have b: "thread_block ?k = Some k'"
    using assms(4) by (simp add: idle_loop_def intr_disable_def)
  have "sched_off (nascent ?k) (set_status (cur ?k) THREAD_BLOCKED ?k)"
    using leave_status [OF d(1), of THREAD_BLOCKED] assms(3) by simp
  then show ?thesis
    using d thread_block_ok [OF _ b] thread_block_only [OF b] only_sched_kernel_ok by (auto simp: locks_ok_def)
qed

lemma lock_sums_same:
  assumes "\<And>t. frames k' t = frames k t \<and> is_thread k' t = is_thread k t" "holder k' = holder k"
    "\<And>l. sval k' (Lock_sema l) = sval k (Lock_sema l)"
  shows "lock_sums k' f = lock_sums k f"
  using assms by (simp add: lock_sums_def lock_sum_def inside_def held_def)

lemma locks_ok_push:
  assumes "locks_ok k" "is_thread k (cur k)" "owing (frames k (cur k)) = None"
    "stack_ok (g # frames k (cur k))" "owing (g # frames k (cur k)) = None"
  shows "locks_ok (push g k)"
  unfolding locks_ok_def
  by (rule lock_sums_step [OF assms(1) [unfolded locks_ok_def] assms(2)])
    (use assms(3-5) in \<open>auto simp: push_frames held_def\<close>)

lemma sema_up_locks_other:
  assumes "sched_ok X k" "locks_ok k" "sema_lock s = None" "sema_up s k = Some k'"
  shows "locks_ok k'"
proof -
  have "s \<noteq> Lock_sema l" for l
    using assms(3) by (auto simp: sema_lock_def)
  then show ?thesis
    using sema_up_locks [OF assms(1) _ assms(4)] assms(2) by (simp add: locks_ok_def)
qed

lemma sema_down_locks_other:
  assumes "sched_ok X k" "locks_ok k" "owing (frames k (cur k)) = None" "sema_lock s = None" "sema_down s k = Some k'"
  shows "locks_ok k'"
proof -
  have "s \<noteq> Lock_sema l" for l
    using assms(4) by (auto simp: sema_lock_def)
  then show ?thesis
    using sema_down_locks [OF assms(1) _ _ assms(5)] assms(2-4) by (simp add: locks_ok_def)
qed

lemma sema_init_locks:
  assumes "locks_ok k" "sema_lock s = None"
  shows "locks_ok (sema_init s v k)"
proof -
  have "Lock_sema l \<noteq> s" for l
    using assms(2) by (auto simp: sema_lock_def)
  then show ?thesis
    using assms(1) lock_sums_same [of "sema_init s v k" k] by (simp add: locks_ok_def sema_init_def)
qed

lemma cond_wait_locks:
  assumes "sched_ok X k" "locks_ok k" "owing (frames k (cur k)) = None" "sema_lock w = None" "waiters k w = []"
    "cond_wait c l w k = Some k'"
  shows "locks_ok k'"
proof -
  let ?k = "sema_init w 0 k\<lparr>cond_waiters := (cond_waiters k)(c := cond_waiters k c @ [w])\<rparr>"
  let ?p1 = "push (Call_lock_acquire l) ?k"
  let ?p = "push (Call_sema_down w) ?p1"
  have fr: "frames ?k t = frames k t" "is_thread ?k t = is_thread k t" "cur ?k = cur k" for t
    by (simp_all add: sema_init_def)
  have "locks_ok ?k"
    using sema_init_locks [OF assms(2,4), of 0] lock_sums_same [of ?k "sema_init w 0 k"] by (simp add: locks_ok_def)
  then have "locks_ok ?p1"
    using assms(3) locks_ok_stack [OF assms(1,2)] live_cur [OF assms(1)] fr by (intro locks_ok_push) auto
  from locks_ok_push [OF this, of "Call_sema_down w"] have lp: "locks_ok ?p"
    using assms(3,4) locks_ok_stack [OF assms(1,2)] live_cur [OF assms(1)] fr by (simp add: push_frames)
  have ok: "sched_ok X ?p"
    using sema_init_ok [OF assms(1,5)] same_place_sched(1) [OF same_place_holder(2)] by simp
  show ?thesis
    using lock_release_locks [OF ok lp] assms(6) lock_held_ok [OF assms(1)]
    by (auto simp: cond_wait_def Let_def sema_init_def push_frames split: if_splits)
qed

lemma cond_signal_locks:
  assumes "sched_ok X k" "locks_ok k" "conds_ok k" "cond_signal c l k = Some k'"
  shows "locks_ok k'"
proof -
  obtain vs where vs: "sort_cond_waiters k (cond_waiters k c) = Some vs"
    and k': "(case vs of [] \<Rightarrow> Some k | w # ws \<Rightarrow> sema_up w (k\<lparr>cond_waiters := (cond_waiters k)(c := ws)\<rparr>)) = Some k'"
    using assms(4) lock_held_ok [OF assms(1)]
    by (auto simp: cond_signal_def split: if_splits dest!: bind_eq_SomeD)
  show ?thesis
  proof (cases vs)
    case Nil
    then show ?thesis
      using k' assms(2) by simp
  next
    case (Cons w ws)
    let ?k = "k\<lparr>cond_waiters := (cond_waiters k)(c := ws)\<rparr>"
    have "sema_lock w = None"
      using sort_cond_waiters_set [OF vs] assms(3) Cons by (auto simp: conds_ok_def)
    moreover have "sched_ok X ?k" "locks_ok ?k"
      using assms(1,2) same_place_sched(1) [OF same_place_holder(2)] lock_sums_same [of ?k k]
      by (simp_all add: locks_ok_def)
    ultimately show ?thesis
      using k' Cons sema_up_locks_other by simp
  qed
qed

lemma cond_broadcast_locks:
  assumes "sched_ok X k" "locks_ok k" "conds_ok k" "owing (frames k (cur k)) = None" "cond_broadcast c l k = Some k'"
  shows "locks_ok k'"
proof -
  have "locks_ok (push (Call_broadcast c l) k)"
    using assms(2,4) locks_ok_stack [OF assms(1,2)] live_cur [OF assms(1)] by (intro locks_ok_push) auto
  moreover have "conds_ok (push (Call_broadcast c l) k)"
    using assms(3) by (simp add: conds_ok_def push_def)
  ultimately show ?thesis
    using assms cond_signal_locks [of X "push (Call_broadcast c l) k"]
    by (auto simp: cond_broadcast_def split: if_splits)
qed

lemma thread_set_priority_locks:
  assumes "sched_ok X k" "locks_ok k" "thread_set_priority p k = Some k'"
  shows "locks_ok k'"
proof -
  let ?o = "upd (cur k) (\<lambda>c. c\<lparr>t_origin_priority := p\<rparr>) (k\<lparr>intr_on := False\<rparr>)"
  let ?p = "upd (cur k) (\<lambda>c. c\<lparr>t_priority := p, t_origin_priority := p\<rparr>) (k\<lparr>intr_on := False\<rparr>)"
  have "lock_sums ?o (\<lambda>_. 1)" "lock_sums ?p (\<lambda>_. 1)"
    using assms(2) lock_sums_same [of ?o k] lock_sums_same [of ?p k] by (simp_all add: locks_ok_def)
  moreover have "lock_sums (push (Set_level b) ?p) (\<lambda>_. 1) = lock_sums ?p (\<lambda>_. 1)" for b
    using only_sched_lock_sums [OF only_sched_push] .
  ultimately show ?thesis
    using assms(3) thread_current_ok [OF assms(1)] only_sched_lock_sums [OF thread_yield_only]
      only_sched_lock_sums [OF intr_set_level_only]
    by (auto simp: thread_set_priority_def Let_def intr_get_level_def intr_disable_def locks_ok_def split: if_splits)
qed

lemma timer_sleep_locks:
  assumes "sched_ok X k" "locks_ok k" "owing (frames k (cur k)) = None" "timer_sleep n k = Some k'"
  shows "locks_ok k'"
  using assms locks_ok_push [OF assms(2) live_cur [OF assms(1)]] locks_ok_stack [OF assms(1,2)]
  by (auto simp: timer_sleep_eq split: if_splits)

lemma thread_to_sleep_locks:
  assumes "sched_ok X k" "locks_ok k" "thread_to_sleep w k = Some k'"
  shows "locks_ok k'"
proof -
  have "lock_sums (slept w k) (\<lambda>_. 1)"
    using assms(2) lock_sums_same [of "slept w k" k] by (simp add: locks_ok_def)
  then show ?thesis
    using assms only_sched_lock_sums [OF only_sched_push] only_sched_lock_sums [OF thread_block_only]
    by (simp add: thread_to_sleep_eq locks_ok_def)
qed

text \<open>An ordinary thread calls an operation.\<close>

lemma calls_kernel_ok:
  assumes "threads_ok k" "cur k \<noteq> idle_thread k" "calls k k'" "sched_ok (nascent k) k'" "locks_ok k'"
  shows "kernel_ok k'"
  using calls_threads_ok [OF assms(1,3,2,4)] assms(5) by (simp add: kernel_ok_def)

lemma timer_sleep_ok: "sched_ok X k \<Longrightarrow> timer_sleep n k = Some k' \<Longrightarrow> sched_ok X k'"
  by (auto simp: timer_sleep_eq split: if_splits)

lemma lock_acquire_kernel_ok:
  assumes "kernel_ok k" "cur k \<noteq> idle_thread k" "owing (frames k (cur k)) = None" "lock_acquire l k = Some k'"
  shows "kernel_ok k'"
proof -
  note ok = kernel_okD [OF assms(1)]
  show ?thesis
    by (rule calls_kernel_ok [OF ok(4) assms(2)])
      (use lock_acquire_calls [OF ok(1) assms(4)] lock_acquire_ok [OF ok(1) assms(2,4)] lock_acquire_locks [OF ok(1,3) assms(3,4)] in \<open>blast+\<close>)
qed

lemma lock_release_kernel_ok:
  assumes "kernel_ok k" "cur k \<noteq> idle_thread k" "owing (frames k (cur k)) = None" "lock_release l k = Some k'"
  shows "kernel_ok k'"
proof -
  note ok = kernel_okD [OF assms(1)]
  show ?thesis
    by (rule calls_kernel_ok [OF ok(4) assms(2)])
      (use lock_release_calls [OF ok(1) assms(4)] lock_release_ok [OF ok(1) assms(4)] lock_release_locks [OF ok(1,3) assms(3,4)] in \<open>blast+\<close>)
qed

lemma sema_down_kernel_ok:
  assumes "kernel_ok k" "cur k \<noteq> idle_thread k" "owing (frames k (cur k)) = None" "sema_lock s = None" "sema_down s k = Some k'"
  shows "kernel_ok k'"
proof -
  note ok = kernel_okD [OF assms(1)]
  show ?thesis
    by (rule calls_kernel_ok [OF ok(4) assms(2)])
      (use sema_down_calls [OF ok(1) assms(5)] sema_down_ok [OF ok(1) assms(2,5)] sema_down_locks_other [OF ok(1,3) assms(3,4,5)] in \<open>blast+\<close>)
qed

lemma sema_up_kernel_ok:
  assumes "kernel_ok k" "cur k \<noteq> idle_thread k" "sema_lock s = None" "sema_up s k = Some k'"
  shows "kernel_ok k'"
proof -
  note ok = kernel_okD [OF assms(1)]
  show ?thesis
    by (rule calls_kernel_ok [OF ok(4) assms(2)])
      (use sema_up_calls [OF assms(4)] sema_up_ok [OF ok(1) assms(4)] sema_up_locks_other [OF ok(1,3) assms(3,4)] in \<open>blast+\<close>)
qed

lemma cond_wait_kernel_ok:
  assumes "kernel_ok k" "cur k \<noteq> idle_thread k" "owing (frames k (cur k)) = None" "sema_lock w = None" "waiters k w = []" "cond_wait c l w k = Some k'"
  shows "kernel_ok k'"
proof -
  note ok = kernel_okD [OF assms(1)]
  show ?thesis
    by (rule calls_kernel_ok [OF ok(4) assms(2)])
      (use cond_wait_calls [OF ok(1) assms(4-6)] cond_wait_ok [OF ok(1) assms(5,6)] cond_wait_locks [OF ok(1,3) assms(3-6)] in \<open>blast+\<close>)
qed

lemma cond_signal_kernel_ok:
  assumes "kernel_ok k" "cur k \<noteq> idle_thread k" "cond_signal c l k = Some k'"
  shows "kernel_ok k'"
proof -
  note ok = kernel_okD [OF assms(1)]
  have cs: "conds_ok k"
    using ok(2) by (simp add: stacks_ok_def)
  show ?thesis
    by (rule calls_kernel_ok [OF ok(4) assms(2)])
      (use cond_signal_calls [OF ok(1) assms(3)] cond_signal_ok [OF ok(1) assms(3)] cond_signal_locks [OF ok(1,3) cs assms(3)] in \<open>blast+\<close>)
qed

lemma cond_broadcast_kernel_ok:
  assumes "kernel_ok k" "cur k \<noteq> idle_thread k" "owing (frames k (cur k)) = None" "cond_broadcast c l k = Some k'"
  shows "kernel_ok k'"
proof -
  note ok = kernel_okD [OF assms(1)]
  have cs: "conds_ok k"
    using ok(2) by (simp add: stacks_ok_def)
  show ?thesis
    by (rule calls_kernel_ok [OF ok(4) assms(2)])
      (use cond_broadcast_calls [OF ok(1) assms(4)] cond_broadcast_ok [OF ok(1) assms(4)] cond_broadcast_locks [OF ok(1,3) cs assms(3,4)] in \<open>blast+\<close>)
qed

lemma thread_set_priority_kernel_ok:
  assumes "kernel_ok k" "cur k \<noteq> idle_thread k" "thread_set_priority p k = Some k'"
  shows "kernel_ok k'"
proof -
  note ok = kernel_okD [OF assms(1)]
  show ?thesis
    by (rule calls_kernel_ok [OF ok(4) assms(2)])
      (use thread_set_priority_calls [OF ok(1) assms(3)] thread_set_priority_ok [OF ok(1) assms(3)] thread_set_priority_locks [OF ok(1,3) assms(3)] in \<open>blast+\<close>)
qed

lemma timer_sleep_kernel_ok:
  assumes "kernel_ok k" "cur k \<noteq> idle_thread k" "owing (frames k (cur k)) = None" "timer_sleep n k = Some k'"
  shows "kernel_ok k'"
proof -
  note ok = kernel_okD [OF assms(1)]
  show ?thesis
    by (rule calls_kernel_ok [OF ok(4) assms(2)])
      (use timer_sleep_calls [OF assms(4)] timer_sleep_ok [OF ok(1) assms(4)] timer_sleep_locks [OF ok(1,3) assms(3,4)] in \<open>blast+\<close>)
qed

lemma thread_to_sleep_kernel_ok:
  assumes "kernel_ok k" "cur k \<noteq> idle_thread k" "thread_to_sleep w k = Some k'"
  shows "kernel_ok k'"
proof -
  note ok = kernel_okD [OF assms(1)]
  show ?thesis
    by (rule calls_kernel_ok [OF ok(4) assms(2)])
      (use thread_to_sleep_calls [OF ok(1) assms(3)] thread_to_sleep_ok [OF ok(1) assms(2,3)] thread_to_sleep_locks [OF ok(1,3) assms(3)] in \<open>blast+\<close>)
qed

lemma set_eax_kernel_ok:
  assumes "kernel_ok k" "cur k \<noteq> idle_thread k"
  shows "kernel_ok (set_eax v k)"
proof -
  have "calls k (set_eax v k)"
    unfolding set_eax_def by (rule calls_upd) simp
  moreover have "locks_ok (set_eax v k)"
    using kernel_okD(3) [OF assms(1)] lock_sums_same [of "set_eax v k" k]
    by (simp add: locks_ok_def set_eax_def)
  ultimately show ?thesis
    using kernel_okD [OF assms(1)] assms by (intro calls_kernel_ok [of k]) simp_all
qed

lemma sema_init_kernel_ok:
  assumes "kernel_ok k" "cur k \<noteq> idle_thread k" "sema_lock s = None" "waiters k s = []"
  shows "kernel_ok (sema_init s v k)"
proof -
  note ok = kernel_okD [OF assms(1)]
  show ?thesis
    by (rule calls_kernel_ok [OF ok(4) assms(2) sema_init_calls sema_init_ok [OF ok(1) assms(4)] sema_init_locks [OF ok(3) assms(3)]])
qed

lemma calls_not_idle: "calls k k' \<and> cur k' = cur k \<Longrightarrow> cur k \<noteq> idle_thread k \<Longrightarrow> cur k' \<noteq> idle_thread k'"
  by (simp add: calls_def)

lemma sema_try_down_kernel_ok:
  assumes "kernel_ok k" "cur k \<noteq> idle_thread k" "sema_lock s = None" "sema_try_down s k = Some (r, k')"
  shows "kernel_ok k' \<and> cur k' \<noteq> idle_thread k'"
proof -
  note ok = kernel_okD [OF assms(1)]
  have "kernel_ok k'"
    by (rule calls_kernel_ok [OF ok(4) assms(2)])
      (use sema_try_down_calls [OF assms(4)] sema_try_down_ok [OF ok(1) assms(4)] sema_try_down_locks [OF ok(1,3) assms(3,4)]
        in \<open>blast+\<close>)
  then show ?thesis
    using calls_not_idle [OF sema_try_down_calls [OF assms(4)] assms(2)] by blast
qed

lemma lock_try_acquire_kernel_ok:
  assumes "kernel_ok k" "cur k \<noteq> idle_thread k" "lock_try_acquire l k = Some (r, k')"
  shows "kernel_ok k' \<and> cur k' \<noteq> idle_thread k'"
proof -
  note ok = kernel_okD [OF assms(1)]
  have "kernel_ok k'"
    by (rule calls_kernel_ok [OF ok(4) assms(2)])
      (use lock_try_acquire_calls [OF ok(1) assms(3)] lock_try_acquire_ok [OF ok(1) assms(3)]
        lock_try_acquire_locks [OF ok(1,3) assms(3)] in \<open>blast+\<close>)
  then show ?thesis
    using calls_not_idle [OF lock_try_acquire_calls [OF ok(1) assms(3)] assms(2)] by blast
qed

text \<open>The calls of an ordinary thread, thread creation and exit apart.\<close>

definition simple_call :: "call \<Rightarrow> bool" where
  "simple_call c \<longleftrightarrow> (case c of Thread_create _ \<Rightarrow> False | Thread_exit \<Rightarrow> False | _ \<Rightarrow> True)"

lemma simple_call_kernel_ok:
  assumes "kernel_ok k" "cur k \<noteq> idle_thread k" "frames k (cur k) = []" "call_ok c k" "simple_call c" "do_call c k = Some k'"
  shows "kernel_ok k'"
proof -
  note k = assms(1,2)
  have ow: "owing (frames k (cur k)) = None"
    using assms(3) by simp
  note c = assms(4-6) [unfolded call_ok_def simple_call_def do_call_def]
  show ?thesis
    using c thread_yield_kernel_ok [OF k(1)] thread_set_priority_kernel_ok [OF k] sema_init_kernel_ok [OF k]
      sema_down_kernel_ok [OF k ow] sema_up_kernel_ok [OF k] lock_acquire_kernel_ok [OF k ow] lock_release_kernel_ok [OF k ow]
      cond_wait_kernel_ok [OF k ow] cond_signal_kernel_ok [OF k] cond_broadcast_kernel_ok [OF k ow]
      timer_sleep_kernel_ok [OF k ow] sema_try_down_kernel_ok [OF k] lock_try_acquire_kernel_ok [OF k] set_eax_kernel_ok
    by (cases c) auto
qed

text \<open>A thread continues with a frame that is not part of entering or leaving a lock.\<close>

lemma pop_kernel_ok:
  assumes "kernel_ok k" "frames k (cur k) = f # fs" "cur k \<noteq> idle_thread k" "created_by f = []"
    "owing (f # fs) = None" "owing fs = None"
  shows "kernel_ok (pop k)" "cur (pop k) \<noteq> idle_thread (pop k)" "owing (frames (pop k) (cur (pop k))) = None"
proof -
  note ok = kernel_okD [OF assms(1)]
  have "lock_sums (pop k) (\<lambda>_. 1)"
    using pop_sums [OF ok(1,3) assms(2)] assms(5,6) by (auto elim!: lock_sums_cong)
  then show "kernel_ok (pop k)"
    using pop_stacks [OF ok(4) assms(2,4,3)] by (simp add: kernel_ok_def locks_ok_def)
qed (use assms in auto)

lemma lock_frame_kernel_ok:
  assumes "kernel_ok k" "frames k (cur k) = f # fs" "cur k \<noteq> idle_thread k" "exec_frame f (pop k) = Some k'"
    and "f = Sema_retry s b \<or> f = Lock_got l b \<or> f = Release_rest l"
  shows "kernel_ok k'"
proof -
  note ok = kernel_okD [OF assms(1)]
  have "created_by f = []"
    using assms(5) by (auto simp: created_by_def)
  then have p: "threads_ok (pop k)" "cur (pop k) \<noteq> idle_thread (pop k)"
    using pop_stacks [OF ok(4) assms(2) _ assms(3)] assms(3) by simp_all
  then have okp: "sched_ok (nascent (pop k)) (pop k)"
    by (simp add: threads_ok_def)
  have "calls (pop k) k' \<and> sched_ok (nascent (pop k)) k' \<and> locks_ok k'"
    using assms(5)
  proof (elim disjE)
    assume f: "f = Sema_retry s b"
    then have e: "sema_down_loop s b (pop k) = Some k'"
      using assms(4) by (simp add: exec_frame_def)
    show ?thesis
      using sema_down_loop_calls [OF okp e] sema_down_loop_ok [OF okp p(2) e]
        sema_retry_locks [OF ok(1,3) assms(2) [unfolded f] e] by blast
  next
    assume f: "f = Lock_got l b"
    then have e: "lock_acquire_end l b (pop k) = Some k'"
      using assms(4) by (simp add: exec_frame_def)
    show ?thesis
      using lock_acquire_end_calls [OF okp e] lock_acquire_end_ok [OF okp e]
        lock_acquire_end_locks [OF ok(1,3) assms(2) [unfolded f] e] by blast
  next
    assume f: "f = Release_rest l"
    then have e: "lock_release_rest l (pop k) = Some k'"
      using assms(4) by (simp add: exec_frame_def)
    show ?thesis
      using lock_release_rest_calls [OF okp e] lock_release_rest_ok [OF okp e]
        lock_release_rest_locks [OF ok(1,3) assms(2) [unfolded f] e] by blast
  qed
  then show ?thesis
    using calls_kernel_ok [OF p] by blast
qed

section \<open>Thread creation keeps the invariant\<close>

text \<open>A zeroed page becomes a blocked thread in hand.\<close>

definition born :: "tptr \<Rightarrow> tcb \<Rightarrow> kernel \<Rightarrow> kernel" where
  "born p c k = k\<lparr>thr := (thr k)(p := c), semas := (semas k)(Child_sema p := \<lparr>s_value = 0, s_waiters = []\<rparr>)\<rparr>"

definition newborn :: "tcb \<Rightarrow> bool" where
  "newborn c \<longleftrightarrow> t_magic c \<and> t_status c = THREAD_BLOCKED \<and> t_frames c = []"

lemma init_thread_born:
  assumes "init_thread p name prio k = Some k'"
  shows "p \<noteq> NULL \<and> (\<exists>c. newborn c \<and> t_priority c = prio \<and> t_dir c = NULL \<and> k' = born p c k)"
proof -
  have "p \<noteq> NULL" "newborn (thr k' p)" "t_priority (thr k' p) = prio" "t_dir (thr k' p) = NULL" "k' = born p (thr k' p) k"
    using assms by (auto simp: init_thread_def newborn_def born_def split: if_splits)
  then show ?thesis
    by blast
qed

lemma born_sel [simp]:
  "cur (born p c k) = cur k" "ready_list (born p c k) = ready_list k" "sleeping_list (born p c k) = sleeping_list k"
  "idle_thread (born p c k) = idle_thread k" "initial_thread (born p c k) = initial_thread k"
  "holder (born p c k) = holder k" "cond_waiters (born p c k) = cond_waiters k" "tid_lock (born p c k) = tid_lock k"
  "in_external_intr (born p c k) = in_external_intr k" "thr (born p c k) t = (if t = p then c else thr k t)"
  "semas (born p c k) s = (if s = Child_sema p then \<lparr>s_value = 0, s_waiters = []\<rparr> else semas k s)"
  "intr_on (born p c k) = intr_on k"
  by (simp_all add: born_def)

lemma born_is_thread: "newborn c \<Longrightarrow> p \<noteq> NULL \<Longrightarrow> is_thread (born p c k) t \<longleftrightarrow> is_thread k t \<or> t = p"
  by (auto simp: is_thread_def newborn_def)

lemma live_not_new:
  assumes "sched_ok X k" "\<not> is_thread k p"
  shows "p \<notin> X" "p \<noteq> cur k" "\<not> parked k p" "p \<notin> set (ready_list k)"
  using assms by (auto simp: sched_ok_def placed_def states_agree_def)

lemma born_ok:
  assumes ok: "sched_ok X k" and "\<not> is_thread k p" "waiters k (Child_sema p) = []" "newborn c" "p \<noteq> NULL"
    and "p \<noteq> idle_thread k"
  shows "sched_ok (insert p X) (born p c k)"
proof -
  note n = live_not_new [OF ok assms(2)]
  note l = born_is_thread [OF assms(4,5)]
  have w: "waiters (born p c k) s = waiters k s" for s
    using assms(3) by auto
  have pk: "parked (born p c k) t = parked k t" for t
    by (simp add: parked_def w del: born_sel(11))
  have "one_list (born p c k)"
    using ok unfolding sched_ok_def placed_def one_list_def w by simp
  moreover have st: "status (born p c k) t = (if t = p then THREAD_BLOCKED else status k t)" for t
    using assms(4) by (simp add: newborn_def)
  have "states_agree (insert p X) (born p c k)"
    using ok n assms(5,6) unfolding sched_ok_def placed_def states_agree_def pk l st by auto
  moreover have "none_lost (insert p X) (born p c k)"
    using ok n unfolding sched_ok_def placed_def none_lost_def pk l st by auto
  moreover have "\<forall>t. is_thread (born p c k) t \<longrightarrow> (status (born p c k) t = THREAD_RUNNING) = (t = cur k)"
    using ok n unfolding sched_ok_def l st by auto
  ultimately show ?thesis
    using ok l unfolding sched_ok_def placed_def by simp
qed

lemma born_stacks:
  assumes ok: "kernel_ok k" and "\<not> is_thread k p" "newborn c" "p \<noteq> NULL" "p \<noteq> idle_thread k"
    and "created_by f = [p]" "client_frame f" "cur k \<noteq> idle_thread k"
  shows "stacks_ok (push f (born p c k)) \<and> nascent (push f (born p c k)) = insert p (nascent k)"
proof -
  let ?k = "push f (born p c k)"
  note d = kernel_okD [OF ok]
  note n = live_not_new [OF d(1) assms(2)]
  have live: "is_thread ?k t \<longleftrightarrow> is_thread k t \<or> t = p" for t
    using born_is_thread [OF assms(3,4)] by simp
  have fr: "frames ?k t = (if t = p then [] else if t = cur k then f # frames k t else frames k t)" for t
    using n(2) assms(3) by (simp add: push_frames newborn_def)
  have cr: "creating (frames ?k t) = (if t = p then [] else if t = cur k then p # creating (frames k t) else creating (frames k t))" for t
    using assms(6) unfolding fr by simp
  have nas: "nascent ?k = insert p (nascent k)"
  proof (rule set_eqI)
    fix x
    have "x \<in> set (creating (frames ?k t)) \<longleftrightarrow> t = cur k \<and> x = p \<or> x \<in> set (creating (frames k t))" if "is_thread k t" for t
      using that assms(2) unfolding cr by auto
    moreover have "creating (frames ?k p) = []"
      unfolding cr by simp
    ultimately show "x \<in> nascent ?k \<longleftrightarrow> x \<in> insert p (nascent k)"
      using d(5) unfolding nascent_def live by auto
  qed
  have new: "p \<notin> set (creating (frames k t))" if "is_thread k t" for t
    using n(1) that by (auto simp: nascent_def)
  have "creations_ok ?k"
    using d(2) new unfolding stacks_ok_def creations_ok_def cr live by auto
  moreover have "newborns_ok ?k"
    using d(2) running_not_nascent [OF d(1)] unfolding stacks_ok_def newborns_ok_def nas cr fr by auto
  moreover have "idle_ok ?k"
    using d(2) assms(5,7,8) n(2) unfolding stacks_ok_def idle_ok_def live fr by auto
  moreover have "sleepers_sorted ?k"
  proof -
    have "p \<notin> set (sleeping_list k)"
      using n(3) by (simp add: parked_def)
    then have "t_morning_tick (thr ?k t) = t_morning_tick (thr k t)" if "t \<in> set (sleeping_list k)" for t
      using that by (auto simp: thread_defs)
    then show ?thesis
      using d(2) unfolding stacks_ok_def sleepers_sorted_def by (auto elim!: sorted_wrt_mono_rel [rotated])
  qed
  moreover have "conds_ok ?k" "\<not> in_external_intr ?k"
    using d(2) by (auto simp: stacks_ok_def conds_ok_def thread_defs)
  ultimately show ?thesis
    using nas by (simp add: stacks_ok_def)
qed

lemma born_locks:
  assumes ok: "kernel_ok k" and "\<not> is_thread k p" "newborn c" "p \<noteq> NULL"
  shows "locks_ok (born p c k)"
proof -
  note d = kernel_okD [OF ok]
  note live = born_is_thread [OF assms(3,4)]
  have fr: "frames (born p c k) t = (if t = p then [] else frames k t)" for t
    using assms(3) by (simp add: newborn_def)
  have "inside (born p c k) l = inside k l" for l
    using assms(2) unfolding inside_def live fr by auto
  then show ?thesis
    using d(3) unfolding locks_ok_def lock_sums_def lock_sum_def held_def live fr by auto
qed

lemma thread_create_kernel_ok:
  assumes ok: "kernel_ok k" and "cur k \<noteq> idle_thread k" "frames k (cur k) = []" "call_ok (Thread_create a) k"
    and "thread_create a k = Some k'"
  shows "kernel_ok k'"
proof (cases "c_page a = NULL")
  case True
  then show ?thesis
    using assms set_eax_kernel_ok [OF ok assms(2)] by (auto simp: thread_create_def)
next
  case False
  let ?p = "c_page a"
  note d = kernel_okD [OF ok]
  have a: "\<not> is_thread k ?p" "waiters k (Child_sema ?p) = []" "c_function a = Client_fn"
    using assms(4) by (simp_all add: call_ok_def)
  have idle: "?p \<noteq> idle_thread k"
    using a(1) d(1,2) by (auto simp: sched_ok_def placed_def states_agree_def stacks_ok_def idle_ok_def)
  obtain c where c: "newborn c" and k': "lock_acquire (tid_lock k) (push (Create_tid a) (born ?p c k)) = Some k'"
    using assms(5) False init_thread_born by (fastforce simp: thread_create_def dest!: bind_eq_SomeD)
  let ?k = "push (Create_tid a) (born ?p c k)"
  have "stacks_ok ?k \<and> nascent ?k = insert ?p (nascent k)"
    by (rule born_stacks [OF ok a(1) c False idle _ _ assms(2)]) (simp_all add: created_by_def client_frame_def a)
  moreover have "sched_ok (insert ?p (nascent k)) ?k"
    using born_ok [OF d(1) a(1,2) c False idle] by simp
  moreover have "frames (born ?p c k) (cur k) = []"
    using c assms(3) by (simp add: newborn_def)
  then have "locks_ok ?k"
    using born_is_thread [OF c False] d(5) by (intro locks_ok_push [OF born_locks [OF ok a(1) c False]]) auto
  ultimately have "kernel_ok ?k"
    by (simp add: kernel_ok_def threads_ok_def)
  then show ?thesis
    by (rule lock_acquire_kernel_ok [OF _ _ _ k']) (use assms(2) in \<open>auto simp: push_frames\<close>)
qed

lemma sleepers_cong:
  "(\<And>t. t_morning_tick (thr k' t) = t_morning_tick (thr k t)) \<Longrightarrow> sleeping_list k' = sleeping_list k \<Longrightarrow>
    cond_waiters k' = cond_waiters k \<Longrightarrow> sleepers_sorted k' = sleepers_sorted k \<and> conds_ok k' = conds_ok k"
  by (simp add: sleepers_sorted_def conds_ok_def)

lemma swap_create_frame:
  assumes ok: "kernel_ok k" and "frames k (cur k) = Create_tid a # fs" "cur k \<noteq> idle_thread k"
  shows "kernel_ok (push (Create_rest a tid) (pop k\<lparr>next_tid := n\<rparr>))"
proof -
  let ?k = "push (Create_rest a tid) (pop k\<lparr>next_tid := n\<rparr>)"
  note ok = kernel_okD [OF ok]
  have st: "stack_ok fs" "owing fs = None"
    using locks_ok_stack [OF ok(1,3)] assms(2) by auto
  have cl: "\<forall>f\<in>set (Create_tid a # fs). client_frame f"
    using client_stack [OF ok(2,5) assms(3)] assms(2) by simp
  have "sleepers_sorted ?k = sleepers_sorted k \<and> conds_ok ?k = conds_ok k"
    by (rule sleepers_cong) (simp_all add: pop_def thread_defs)
  then have "stacks_ok ?k \<and> nascent ?k = nascent k"
    by (intro restack [OF ok(2) running_not_nascent [OF ok(1)]])
      (use assms(2,3) cl ok(2) in \<open>auto simp: push_frames created_by_def client_frame_def stacks_ok_def\<close>)
  moreover have "lock_sums ?k (\<lambda>_. 1)"
    by (rule lock_sums_step [OF ok(3) [unfolded locks_ok_def] ok(5)])
      (use assms(2) st in \<open>auto simp: push_frames held_def\<close>)
  moreover have "same_place k ?k"
    by (simp add: same_place_def pop_def thread_defs)
  then have "sched_ok (nascent k) ?k"
    using same_place_sched(1) ok(1) by blast
  ultimately show ?thesis
    by (simp add: kernel_ok_def threads_ok_def locks_ok_def)
qed

lemma allocate_tid_kernel_ok:
  assumes "kernel_ok k" "frames k (cur k) = Create_tid a # fs" "cur k \<noteq> idle_thread k" "allocate_tid a (pop k) = Some k'"
  shows "kernel_ok k'"
proof -
  let ?k = "push (Create_rest a (next_tid k)) (pop k\<lparr>next_tid := next_tid k + 1\<rparr>)"
  have "lock_release (tid_lock k) ?k = Some k'"
    using assms(4) by (simp add: allocate_tid_def)
  with lock_release_kernel_ok [OF swap_create_frame [OF assms(1-3)]] assms(3) show ?thesis
    by (simp add: push_frames)
qed

text \<open>\<^verbatim>\<open>thread_create\<close> hands its thread over to the scheduler.\<close>

lemma remove_created:
  assumes "creations_ok k" "is_thread k c" "frames k c = f # fs" "created_by f = [p]"
    and live: "\<And>t. is_thread k1 t = is_thread k t"
    and cr: "\<And>t. t \<noteq> c \<Longrightarrow> creating (frames k1 t) = creating (frames k t)" "creating (frames k1 c) = creating fs"
  shows "creations_ok k1 \<and> nascent k = insert p (nascent k1) \<and> p \<notin> nascent k1"
proof -
  have c: "creating (frames k c) = p # creating fs"
    using assms(3,4) by simp
  have sub: "set (creating (frames k1 t)) \<subseteq> set (creating (frames k t))"
    and dis: "distinct (creating (frames k t)) \<Longrightarrow> distinct (creating (frames k1 t))" for t
    using cr c by (cases "t = c"; auto)+
  have "creations_ok k1"
    using assms(1) sub dis unfolding creations_ok_def live by blast
  moreover have "p \<notin> set (creating (frames k1 t))" if "is_thread k t" for t
  proof (cases "t = c")
    case True
    then show ?thesis
      using assms(1,2) c cr(2) by (auto simp: creations_ok_def)
  next
    case False
    then show ?thesis
      using assms(1,2) c cr(1) that unfolding creations_ok_def
      by (metis disjoint_iff list.set_intros(1))
  qed
  moreover have "x \<in> set (creating (frames k t)) \<longleftrightarrow> t = c \<and> x = p \<or> x \<in> set (creating (frames k1 t))" for x t
    using cr c by (cases "t = c") auto
  ultimately show ?thesis
    using assms(2) unfolding nascent_def live by auto
qed

text \<open>States that differ in nothing that the invariant is about.\<close>

definition same_core :: "kernel \<Rightarrow> kernel \<Rightarrow> bool" where
  "same_core k k1 \<longleftrightarrow> same_place k k1 \<and> holder k1 = holder k \<and> cond_waiters k1 = cond_waiters k \<and> semas k1 = semas k \<and>
     in_external_intr k1 = in_external_intr k \<and>
     (\<forall>t. is_thread k1 t = is_thread k t \<and> frames k1 t = frames k t \<and> priority k1 t = priority k t \<and>
       t_morning_tick (thr k1 t) = t_morning_tick (thr k t))"

lemma same_core_refl: "same_core k k"
  by (simp add: same_core_def same_place_def)

lemma same_core_upd:
  "same_core k0 k \<Longrightarrow> (\<And>c. t_frames (f c) = t_frames c \<and> t_magic (f c) = t_magic c \<and> t_status (f c) = t_status c \<and>
      t_priority (f c) = t_priority c \<and> t_morning_tick (f c) = t_morning_tick c) \<Longrightarrow>
    same_core k0 (upd t f k)"
  by (auto simp: same_core_def same_place_def upd_def is_thread_def)

lemma same_core_alloc: "same_core k0 k \<Longrightarrow> alloc_frame t sz k = Some k' \<Longrightarrow> same_core k0 k'"
  unfolding alloc_frame_def by (auto split: if_splits intro: same_core_upd)

lemma create_rest_cases:
  assumes "create_rest a tid k = Some k'"
  shows "\<exists>K. same_core k K \<and> thread_unblock (c_page a) (push (Create_check a tid)
    (upd (c_page a) (\<lambda>c. c\<lparr>t_frames := [Kernel_thread (c_function a)]\<rparr>) K)) = Some k'"
proof -
  let ?k = "upd (c_page a) (\<lambda>c. c\<lparr>t_tid := tid\<rparr>) k"
  obtain child k1 k2 k3 where
    k: "alloc_frame (c_page a) 12 (upd (cur ?k) (\<lambda>c. c\<lparr>t_child_list := t_child_list c @ [child]\<rparr>) ?k) = Some k1"
      "alloc_frame (c_page a) 4 k1 = Some k2" "alloc_frame (c_page a) 28 k2 = Some k3"
      "thread_unblock (c_page a) (push (Create_check a tid)
        (upd (c_page a) (\<lambda>c. c\<lparr>t_frames := [Kernel_thread (c_function a)]\<rparr>) k3)) = Some k'"
    using assms by (auto simp: create_rest_def Let_def running_thread_def split: if_splits dest!: bind_eq_SomeD)
  have "same_core k (upd (cur ?k) (\<lambda>c. c\<lparr>t_child_list := t_child_list c @ [child]\<rparr>) ?k)"
    by (intro same_core_upd same_core_refl) simp_all
  then have "same_core k k3"
    using same_core_alloc k(1-3) by blast
  with k(4) show ?thesis
    by blast
qed

lemma handed_stacks:
  assumes ok: "kernel_ok k" and fr: "frames k (cur k) = Create_rest a tid # fs" and idle: "cur k \<noteq> idle_thread k"
    and core: "same_core (pop k) K"
    and U: "U = push (Create_check a tid) (upd (c_page a) (\<lambda>c. c\<lparr>t_frames := [Kernel_thread (c_function a)]\<rparr>) K)"
  shows "stacks_ok U \<and> nascent k = insert (c_page a) (nascent U) \<and> c_page a \<notin> nascent U"
proof -
  let ?p = "c_page a"
  note d = kernel_okD [OF ok]
  have nas: "?p \<in> nascent k"
    using d(5) fr by (auto simp: nascent_def created_by_def)
  then have p: "is_thread k ?p" "?p \<noteq> cur k" "?p \<noteq> idle_thread k" "creating (frames k ?p) = []"
    using d(1,2) by (auto simp: sched_ok_def placed_def states_agree_def stacks_ok_def newborns_ok_def)
  have c: "cur K = cur k" "idle_thread K = idle_thread k" "sleeping_list K = sleeping_list k" "cond_waiters K = cond_waiters k"
      "in_external_intr K = in_external_intr k" "is_thread K t = is_thread k t"
      "frames K t = (if t = cur k then fs else frames k t)" for t
    using core fr by (auto simp: same_core_def same_place_def)
  have fU: "frames U t = (if t = ?p then [Kernel_thread (c_function a)] else if t = cur k then Create_check a tid # fs
      else frames k t)" for t
    using p(2) c by (auto simp: U push_frames upd_def)
  have live: "is_thread U t = is_thread k t" for t
    using c(6) by (simp add: U)
  have rem: "creations_ok U \<and> nascent k = insert ?p (nascent U) \<and> ?p \<notin> nascent U"
    by (rule remove_created [OF _ d(5) fr])
      (use d(2) p live in \<open>auto simp: fU created_by_def stacks_ok_def\<close>)
  have "newborns_ok U"
  proof -
    have "creating (frames U q) = [] \<and> owing (frames U q) = None" if "q \<in> nascent U" for q
      using that rem d(2) running_not_nascent [OF d(1)]
      by (auto simp: fU stacks_ok_def newborns_ok_def)
    then show ?thesis
      by (simp add: newborns_ok_def)
  qed
  moreover have "idle_ok U"
  proof -
    have cl: "\<forall>f\<in>set (Create_rest a tid # fs). client_frame f"
      using client_stack [OF d(2,5) idle] fr by simp
    then show ?thesis
      using d(2) p(2,3) idle c(2) unfolding stacks_ok_def idle_ok_def live fU
      by (auto simp: U client_frame_def benign_def)
  qed
  moreover have "t_morning_tick (thr U t) = t_morning_tick (thr k t)" for t
    using core by (auto simp: U same_core_def thread_defs pop_def)
  then have "sleepers_sorted U = sleepers_sorted k \<and> conds_ok U = conds_ok k"
    using c by (intro sleepers_cong) (simp_all add: U push_def)
  ultimately show ?thesis
    using rem d(2) c(5) by (simp add: stacks_ok_def U)
qed

lemma handed_locks:
  assumes ok: "kernel_ok k" and fr: "frames k (cur k) = Create_rest a tid # fs" and core: "same_core (pop k) K"
  shows "locks_ok (push (Create_check a tid) (upd (c_page a) (\<lambda>c. c\<lparr>t_frames := [Kernel_thread (c_function a)]\<rparr>) K))"
    (is "locks_ok (push _ ?h)")
proof -
  let ?p = "c_page a"
  note d = kernel_okD [OF ok]
  have nas: "?p \<in> nascent k"
    using d(5) fr by (auto simp: nascent_def created_by_def)
  then have p: "is_thread k ?p" "?p \<noteq> cur k" "owing (frames k ?p) = None"
    using d(1,2) by (auto simp: sched_ok_def placed_def states_agree_def stacks_ok_def newborns_ok_def)
  have st: "stack_ok fs" "owing fs = None"
    using locks_ok_stack [OF d(1,3)] fr by auto
  have c: "cur K = cur k" "is_thread K t = is_thread k t" "frames K t = (if t = cur k then fs else frames k t)"
      "holder K = holder (pop k)" "semas K = semas (pop k)" for t
    using core fr by (auto simp: same_core_def same_place_def)
  have "lock_sums (pop k) (\<lambda>_. 1)"
    using pop_sums [OF d(1,3) fr] st by (auto elim!: lock_sums_cong)
  then have K: "lock_sums K (\<lambda>_. 1)"
    using lock_sums_same [of K "pop k"] core by (simp add: same_core_def)
  have "lock_sums ?h (\<lambda>_. 1)"
    by (rule lock_sums_step [OF K, of ?p]) (use p c in \<open>auto simp: held_def upd_def is_thread_def\<close>)
  then show ?thesis
    using st p c d(5) by (intro locks_ok_push) (auto simp: locks_ok_def upd_def is_thread_def)
qed

lemma create_rest_kernel_ok:
  assumes ok: "kernel_ok k" and fr: "frames k (cur k) = Create_rest a tid # fs" and idle: "cur k \<noteq> idle_thread k"
    and "create_rest a tid (pop k) = Some k'"
  shows "kernel_ok k'"
proof -
  note d = kernel_okD [OF ok]
  obtain K where core: "same_core (pop k) K" and k': "thread_unblock (c_page a) (push (Create_check a tid)
      (upd (c_page a) (\<lambda>c. c\<lparr>t_frames := [Kernel_thread (c_function a)]\<rparr>) K)) = Some k'" (is "thread_unblock _ ?U = _")
    using create_rest_cases [OF assms(4)] by blast
  note st = handed_stacks [OF ok fr idle core refl]
  have "same_place k ?U"
    using core pop_place [of k] by (intro same_place_trans [OF _ same_place_upds(2)] same_place_trans [OF _ same_place_upd])
      (auto simp: same_core_def intro: same_place_trans)
  then have "sched_ok (insert (c_page a) (nascent ?U)) ?U"
    using d(1) st same_place_sched(1) by metis
  then have "sched_ok (nascent ?U) k'"
    using st thread_unblock_ok [OF _ _ k'] by blast
  then show ?thesis
    using st handed_locks [OF ok fr core] thread_unblock_only [OF k']
    by (intro only_sched_kernel_ok [of ?U]) (simp_all add: locks_ok_def)
qed

lemma create_check_kernel_ok:
  assumes "kernel_ok k" "cur k \<noteq> idle_thread k" "owing (frames k (cur k)) = None" "create_check a tid k = Some k'"
  shows "kernel_ok k'"
proof -
  note d = kernel_okD [OF assms(1)]
  let ?k = "push (Create_dir a tid) k"
  have "calls k ?k"
    by (rule calls_push) (simp add: benign_def)
  moreover have "locks_ok ?k"
    using assms(3) locks_ok_stack [OF d(1,3)] d(3,5) by (intro locks_ok_push) auto
  ultimately have ok: "kernel_ok ?k"
    using d(1) by (intro calls_kernel_ok [OF d(4) assms(2)]) simp_all
  then show ?thesis
    using assms(4) thread_yield_kernel_ok [OF ok] thread_current_ok [OF d(1)]
    by (auto simp: create_check_def Let_def split: if_splits)
qed

lemma create_dir_kernel_ok:
  assumes "kernel_ok k" "cur k \<noteq> idle_thread k" "create_dir a tid k = Some k'"
  shows "kernel_ok k'"
proof -
  note d = kernel_okD [OF assms(1)]
  let ?k = "upd (c_page a) (\<lambda>c. c\<lparr>t_dir := c_newdir a\<rparr>) k"
  have "calls k ?k" "same_place k ?k"
    by (rule calls_upd, simp) (rule same_place_upd, simp)
  moreover have "locks_ok ?k"
    using d(3) lock_sums_same [of ?k k] by (simp add: locks_ok_def)
  ultimately have ok: "kernel_ok ?k"
    using d(1) same_place_sched(1) by (intro calls_kernel_ok [OF d(4) assms(2)]) auto
  have "k' = set_eax tid k \<or> k' = set_eax tid ?k"
    using assms(3) thread_current_ok [OF d(1)] by (auto simp: create_dir_def split: if_splits)
  then show ?thesis
    using set_eax_kernel_ok [OF assms(1,2)] set_eax_kernel_ok [OF ok] assms(2) by auto
qed

lemma kernel_thread_kernel_ok:
  assumes "kernel_ok k" "kernel_thread Client_fn k = Some k'"
  shows "kernel_ok k'"
  using kernel_okD [OF assms(1)] assms(2) only_sched_kernel_ok [OF _ _ only_sched_simple(2)]
  by (auto simp: kernel_thread_def intr_enable_def locks_ok_def split: if_splits)

text \<open>A thread that ends has an empty stack; its page is freed by the thread that runs next.\<close>

lemma thread_exit_eq:
  assumes "sched_ok X k" "thread_exit_tail k = Some k'"
  shows "k' = dispatch (set_status (cur k) THREAD_DYING (upd (cur k) (\<lambda>c. c\<lparr>t_child_list := []\<rparr>) k\<lparr>intr_on := False\<rparr>))"
proof -
  have "sched_ok X (upd (cur k) (\<lambda>c. c\<lparr>t_child_list := []\<rparr>) k\<lparr>intr_on := False\<rparr>)"
    using assms(1) by simp
  then show ?thesis
    using assms thread_current_ok by (auto simp: thread_exit_tail_def Let_def intr_disable_def schedule_eq split: if_splits)
qed

lemma thread_exit_kernel_ok:
  assumes ok: "kernel_ok k" and idle: "cur k \<noteq> idle_thread k" and fr: "frames k (cur k) = []"
    and k': "thread_exit_tail k = Some k'"
  shows "kernel_ok k'"
proof -
  note d = kernel_okD [OF ok]
  have f: "frames k' t = frames k t" "t_morning_tick (thr k' t) = t_morning_tick (thr k t)" "sleeping_list k' = sleeping_list k"
    "holder k' = holder k" "semas k' = semas k" "cond_waiters k' = cond_waiters k" "idle_thread k' = idle_thread k"
    "in_external_intr k' = in_external_intr k" for t
    unfolding thread_exit_eq [OF d(1) k'] by (simp_all add: set_status_def upd_def)
  have live: "is_thread k' t \<Longrightarrow> is_thread k t" "is_thread k t \<Longrightarrow> t \<noteq> cur k \<Longrightarrow> is_thread k' t" for t
    unfolding thread_exit_eq [OF d(1) k'] by (auto simp: freed_def)
  have eq: "is_thread k' t \<and> P (frames k t) \<longleftrightarrow> is_thread k t \<and> P (frames k t)" if "\<not> P []" for P t
    using live fr that by metis
  have nas: "nascent k' = nascent k"
    unfolding nascent_def f(1) using eq [of "\<lambda>fs. _ \<in> set (creating fs)"] by auto
  have "inside k' l = inside k l" for l
    unfolding inside_def f(1) using eq [of "\<lambda>fs. owing fs = Some l"] by auto
  then have "locks_ok k'"
    using d(3) live(1) unfolding locks_ok_def lock_sums_def lock_sum_def held_def f(1,4,5) by simp
  moreover have "creations_ok k'" "newborns_ok k'" "idle_ok k'"
    using d(2) live(1) unfolding stacks_ok_def creations_ok_def newborns_ok_def idle_ok_def nas f(1,7) by blast+
  moreover have "sleepers_sorted k'" "conds_ok k'" "\<not> in_external_intr k'"
    using d(2) unfolding stacks_ok_def sleepers_sorted_def conds_ok_def f(2,3,6,8) by blast+
  moreover have "sched_ok (nascent k') k'"
    using thread_exit_tail_ok [OF d(1) idle k'] nas by simp
  ultimately show ?thesis
    by (simp add: kernel_ok_def threads_ok_def stacks_ok_def)
qed

section \<open>Reachable states\<close>

lemma client_exec_kernel_ok:
  assumes ok: "kernel_ok k" and fr: "frames k (cur k) = f # fs" and client: "cur k \<noteq> idle_thread k" and "client_frame f"
    and "stack_ok (f # fs)" "\<not> (f = Iret \<or> (\<exists>b. f = Set_level b))" and e: "exec_frame f (pop k) = Some k'"
  shows "kernel_ok k'"
proof (cases "owing (f # fs) = None \<and> owing fs = None \<and> created_by f = []")
  case True
  then have p: "kernel_ok (pop k)" "cur (pop k) \<noteq> idle_thread (pop k)" "owing (frames (pop k) (cur (pop k))) = None"
    using pop_kernel_ok [OF ok fr client] by auto
  have retry: ?thesis if "f = Sema_retry s b" for s b
    using lock_frame_kernel_ok [OF ok fr client e] that by blast
  show ?thesis
    using assms(4-6) e True retry sema_down_kernel_ok [OF p] lock_acquire_kernel_ok [OF p] cond_broadcast_kernel_ok [OF p]
      thread_to_sleep_kernel_ok [OF p(1,2)] create_check_kernel_ok [OF p] create_dir_kernel_ok [OF p(1,2)]
      kernel_thread_kernel_ok [OF p(1)]
    by (cases f) (auto simp: exec_frame_def client_frame_def benign_def created_by_def)
next
  case False
  have lock: ?thesis if "f = Sema_retry s b \<or> f = Lock_got l b \<or> f = Release_rest l" for s b l
    using lock_frame_kernel_ok [OF ok fr client e that] .
  show ?thesis
    using assms(5,6) False lock e allocate_tid_kernel_ok [OF ok _ client] create_rest_kernel_ok [OF ok _ client] fr
    by (cases f) (auto simp: exec_frame_def created_by_def)
qed

lemma exec_kernel_ok:
  assumes ok: "kernel_ok k" and "exec k = Some k'"
  shows "kernel_ok k'"
proof -
  obtain f fs where fr: "frames k (cur k) = f # fs" and e: "exec_frame f (pop k) = Some k'"
    using assms(2) by (auto simp: exec_def split: list.splits)
  note d = kernel_okD [OF ok]
  have st: "stack_ok (f # fs)"
    using locks_ok_stack [OF d(1,3)] fr by simp
  show ?thesis
  proof (cases "f = Iret \<or> (\<exists>b. f = Set_level b)")
    case True
    then have "\<exists>c. k' = pop k\<lparr>intr_on := c\<rparr>"
      using e by (auto simp: exec_frame_def intr_set_level_eq split: if_splits)
    then show ?thesis
      using resume_kernel_ok [OF ok fr] True by blast
  next
    case plain: False
    show ?thesis
    proof (cases "cur k = idle_thread k")
      case True
      then have "fs = [] \<and> (f = Idle_loop \<or> f = Idle_halt)"
        using d(2) fr plain by (cases f) (auto simp: stacks_ok_def idle_ok_def)
      then show ?thesis
        using e fr True ok idle_loop_kernel_ok [OF ok] idle_kernel_ok [OF ok, of f Idle_loop True]
        by (auto simp: exec_frame_def idle_halt_def)
    next
      case client: False
      have cf: "client_frame f"
        using client_stack [OF d(2,5) client] fr by simp
      show ?thesis
        using client_exec_kernel_ok [OF ok fr client cf st plain e] .
    qed
  qed
qed

lemma irq_stacks:
  assumes ok: "kernel_ok k"
  shows "stacks_ok (irq_entry k\<lparr>in_external_intr := False\<rparr>) \<and> nascent (irq_entry k\<lparr>in_external_intr := False\<rparr>) = nascent k"
proof -
  let ?e = "irq_entry k\<lparr>in_external_intr := False\<rparr>"
  note d = kernel_okD [OF ok]
  have cl: "cur k \<noteq> idle_thread k \<Longrightarrow> \<forall>f\<in>set (frames k (cur k)). client_frame f"
    using client_stack [OF d(2,5)] by simp
  have "sleepers_sorted ?e = sleepers_sorted k \<and> conds_ok ?e = conds_ok k"
    by (rule sleepers_cong) simp_all
  then show ?thesis
    by (intro restack [OF d(2) running_not_nascent [OF d(1)]])
      (use d(2,6) cl in \<open>auto simp: stacks_ok_def idle_ok_def created_by_def client_frame_def benign_def\<close>)
qed

lemma woken_stacks:
  assumes "stacks_ok e" "only_sched e1 k1" "woken X now k1 k2" "e = e1\<lparr>in_external_intr := False\<rparr>"
  shows "stacks_ok (k2\<lparr>in_external_intr := False\<rparr>) \<and> nascent (k2\<lparr>in_external_intr := False\<rparr>) = nascent e"
proof -
  let ?e = "e\<lparr>sleeping_list := sleeping_list k2\<rparr>" and ?k = "k2\<lparr>in_external_intr := False\<rparr>"
  have "only_sched (e1\<lparr>sleeping_list := sleeping_list k2\<rparr>) (k1\<lparr>sleeping_list := sleeping_list k2\<rparr>)"
    using assms(2) by (simp add: only_sched_def)
  then have o: "only_sched (e1\<lparr>sleeping_list := sleeping_list k2\<rparr>) k2"
    using assms(3) only_sched_trans by (auto simp: woken_def)
  then have os: "only_sched ?e ?k"
    by (simp add: only_sched_def assms(4))
  have "sleepers_sorted ?k"
    using woken_ok [OF assms(3)] by (simp add: sleepers_sorted_def)
  then have "sleepers_sorted ?e"
    using only_sched_sleepers [OF os] by simp
  then have "stacks_ok ?e" "nascent ?e = nascent e"
    using assms(1) by (simp_all add: stacks_ok_def creations_ok_def newborns_ok_def conds_ok_def idle_ok_def nascent_def)
  then show ?thesis
    using only_sched_stacks [OF os] by simp
qed

lemma timer_irq_kernel_ok:
  assumes ok: "kernel_ok k" and k': "timer_irq k = Some k'"
  shows "kernel_ok k'"
proof -
  note d = kernel_okD [OF ok]
  have sl: "sleepers_sorted k"
    using d(2) by (simp add: stacks_ok_def)
  note t = timer_irq_ok [OF d(1) sl d(6,3) k']
  from d(1) sl d(6) show ?thesis
  proof (cases rule: timer_irq_cases)
    case panic
    then show ?thesis
      using k' by simp
  next
    case (tick k1 k2)
    let ?k = "k2\<lparr>in_external_intr := False\<rparr>"
    note s = woken_stacks [OF conjunct1 [OF irq_stacks [OF ok]] tick(3,1) refl]
    have "stacks_ok k' \<and> nascent k' = nascent k"
    proof (cases "yield_on_return k2")
      case True
      then have "thread_yield ?k = Some k'"
        using tick(6) k' by simp
      then show ?thesis
        using only_sched_stacks [OF thread_yield_only] s irq_stacks [OF ok] by simp
    next
      case False
      then show ?thesis
        using tick(6) k' s irq_stacks [OF ok] by simp
    qed
    then show ?thesis
      using t by (simp add: kernel_ok_def threads_ok_def)
  qed
qed

theorem kstep_kernel_ok:
  assumes "kstep k k'" "kernel_ok k"
  shows "kernel_ok k'"
  using assms
proof (induction rule: kstep.induct)
  case (continue k k')
  then show ?case
    using exec_kernel_ok by blast
next
  case (call k c k')
  have client: "cur k \<noteq> idle_thread k"
    using call(1,4) by (auto simp: kernel_ok_def threads_ok_def stacks_ok_def idle_ok_def)
  show ?case
  proof (cases "simple_call c")
    case True
    then show ?thesis
      using simple_call_kernel_ok [OF call(4) client call(1,2) _ call(3)] by blast
  next
    case False
    then show ?thesis
      using thread_create_kernel_ok [OF call(4) client call(1)] thread_exit_kernel_ok [OF call(4) client call(1)] call(2,3)
      by (cases c) (auto simp: simple_call_def do_call_def)
  qed
next
  case (tick k k')
  then show ?case
    using timer_irq_kernel_ok by blast
qed

text \<open>A booted kernel: the main thread runs, the idle thread waits for the ready list to be empty,
  and nothing else has happened.\<close>

definition booted :: "kernel \<Rightarrow> bool" where
  "booted k \<longleftrightarrow> cur k \<noteq> NULL \<and> idle_thread k \<noteq> NULL \<and> cur k \<noteq> idle_thread k \<and>
     (\<forall>t. t_magic (thr k t) \<longleftrightarrow> t = cur k \<or> t = idle_thread k) \<and>
     status k (cur k) = THREAD_RUNNING \<and> frames k (cur k) = [] \<and>
     status k (idle_thread k) = THREAD_BLOCKED \<and> frames k (idle_thread k) = [Idle_halt] \<and>
     ready_list k = [] \<and> sleeping_list k = [] \<and> (\<forall>s. waiters k s = []) \<and> (\<forall>c. cond_waiters k c = []) \<and>
     (\<forall>l. sval k (Lock_sema l) = 1 \<and> holder k l = NULL) \<and> \<not> in_external_intr k"

inductive reachable :: "kernel \<Rightarrow> bool" where
  boot: "booted k \<Longrightarrow> reachable k"
| step: "reachable k \<Longrightarrow> kstep k k' \<Longrightarrow> reachable k'"

lemma booted_kernel_ok:
  assumes "booted k"
  shows "kernel_ok k"
proof -
  have live: "is_thread k t \<longleftrightarrow> t = cur k \<or> t = idle_thread k" for t
    using assms by (auto simp: booted_def is_thread_def)
  have np: "\<not> parked k t" for t
    using assms by (simp add: booted_def parked_def)
  have fr: "frames k (cur k) = []" "frames k (idle_thread k) = [Idle_halt]" "cur k \<noteq> idle_thread k"
    using assms by (auto simp: booted_def)
  then have cr: "nascent k = {}" "creations_ok k" "\<And>l. inside k l = {}"
    by (auto simp: nascent_def creations_ok_def inside_def live created_by_def)
  moreover have "placed {} k"
    using assms np unfolding placed_def one_list_def states_agree_def none_lost_def live booted_def by auto
  then have "sched_ok {} k"
    using assms unfolding sched_ok_def live booted_def by auto
  moreover have "sleepers_sorted k" "conds_ok k" "newborns_ok k" "idle_ok k"
    using assms cr fr by (auto simp: sleepers_sorted_def conds_ok_def newborns_ok_def idle_ok_def booted_def live)
  moreover have "locks_ok k"
    using assms cr(3) fr unfolding locks_ok_def lock_sums_def lock_sum_def held_def live booted_def by auto
  ultimately show ?thesis
    using assms by (simp add: kernel_ok_def threads_ok_def stacks_ok_def booted_def)
qed

lemma reachable_kernel_ok: "reachable k \<Longrightarrow> kernel_ok k"
  by (induction rule: reachable.induct) (auto intro: booted_kernel_ok kstep_kernel_ok)

end
