(* ===== verification/Kernel_Safety.thy ===== *)
theory Kernel_Safety
  imports Kernel_Run
begin

text \<open>
  What the invariant of \<^verbatim>\<open>Kernel_Run\<close> means for the threads and locks of a running kernel, that
  start-up reaches a state where it holds, how priorities are respected, and where the code departs
  from its intention: priority donation does not reorder the ready list, and waking a thread of
  higher priority in the timer interrupt panics.
\<close>

section \<open>A running kernel for the examples\<close>

definition some_tcb :: tcb where
  "some_tcb = \<lparr>t_tid = 1, t_status = THREAD_BLOCKED, t_name = ''t'', t_stack = 0, t_priority = PRI_DEFAULT, t_pagedir = NULL,
     t_magic = True, t_morning_tick = 0, t_origin_priority = PRI_DEFAULT, t_potential_donator = [], t_waiting_lock = NULL,
     t_load_success = False, t_child_list = [], t_parent_process = 1, t_exit_code = - 2, t_lock_child_id = 0,
     t_fd_count = 2, t_dir = NULL, t_frames = [], t_eax = 0\<rparr>"

definition two_threads :: kernel where
  "two_threads = \<lparr>thr = (\<lambda>t. some_tcb\<lparr>t_magic := False\<rparr>)
       (1 := some_tcb\<lparr>t_status := THREAD_RUNNING\<rparr>, 2 := some_tcb\<lparr>t_priority := PRI_MIN, t_frames := [Idle_halt]\<rparr>),
     cur = 1, ready_list = [], sleeping_list = [], idle_thread = 2, initial_thread = 1, next_tid = 3, tid_lock = 100,
     file_lock = 101, intr_on = True, in_external_intr = False, yield_on_return = False, thread_ticks = 0,
     idle_ticks = 0, kernel_ticks = 0, user_ticks = 0, ticks = 7,
     semas = (\<lambda>s. case s of Lock_sema l \<Rightarrow> \<lparr>s_value = 1, s_waiters = []\<rparr> | _ \<Rightarrow> \<lparr>s_value = 0, s_waiters = []\<rparr>),
     holder = (\<lambda>l. NULL), cond_waiters = (\<lambda>c. []), base_page_dir = 1000, active_pd = 1000, tss_esp0 = Some 0\<rparr>"

lemma two_threads_booted: "booted two_threads"
  by (auto simp: booted_def two_threads_def some_tcb_def split: sema_id.splits)

section \<open>Threads are never lost\<close>



section \<open>Locks exclude each other\<close>



section \<open>Priorities\<close>

definition fair :: "kernel \<Rightarrow> bool" where
  "fair k \<longleftrightarrow> by_priority k (ready_list k) \<and> (\<forall>t\<in>set (ready_list k). priority k t \<le> priority k (cur k))"

lemma yield_fair:
  assumes "by_priority k (ready_list k)" "cur k \<noteq> idle_thread k" "thread_yield k = Some k'" "sched_ok X k"
  shows "fair k'"
proof -
  have k': "k' = dispatch (yielded k)"
    using thread_yield_ok [OF assms(4,3)] by blast
  then have "set (ready_list k') \<subseteq> insert (cur k) (set (ready_list k))"
    using assms(2) list.set_sel(2) [of "ready_list (yielded k)"] by auto
  then show ?thesis
    using yield_highest [OF assms(1,3,2)] by (auto simp: fair_def)
qed

lemma unblock_fair:
  assumes "fair k" "cur k \<noteq> idle_thread k" "sched_ok (insert t X) k" "t \<notin> X" "thread_unblock t k = Some k'"
  shows "fair k'"
proof -
  let ?u = "unblocked t k"
  have b: "by_priority ?u (ready_list ?u)"
    using insert_by_priority assms(1) by (simp add: fair_def by_priority_def)
  show ?thesis
  proof (cases "priority k t > priority k (cur k)")
    case True
    let ?k = "push (Set_level (intr_on k)) ?u"
    have y: "thread_yield ?k = Some k'"
      using assms(2,5) True by (auto simp: thread_unblock_eq split: if_splits)
    show ?thesis
      by (rule yield_fair [OF _ _ y]) (use b assms(2) unblocked_ok [OF assms(3,4)] in \<open>auto simp: by_priority_def\<close>)
  next
    case False
    then have "k' = ?u\<lparr>intr_on := intr_on k\<rparr>"
      using assms(5) by (auto simp: thread_unblock_eq intr_set_level_eq split: if_splits)
    then show ?thesis
      using b False assms(1) by (auto simp: fair_def by_priority_def)
  qed
qed

lemma set_priority_fair:
  assumes "fair k" "cur k \<noteq> idle_thread k" "sched_ok X k" "priority k (cur k) = t_origin_priority (thr k (cur k))"
    "thread_set_priority p k = Some k'"
  shows "fair k'"
proof -
  let ?p = "upd (cur k) (\<lambda>c. c\<lparr>t_priority := p, t_origin_priority := p\<rparr>) (k\<lparr>intr_on := False\<rparr>)"
  have new: "cur k \<notin> set (ready_list k)"
    using assms(3) by (auto simp: sched_ok_def placed_def states_agree_def)
  then have pr: "priority ?p t = priority k t" if "t \<in> set (ready_list k)" for t
    using that by (auto simp: upd_def)
  have b: "by_priority ?p (ready_list k)"
    using assms(1) pr unfolding fair_def by_priority_def by (auto elim!: sorted_wrt_mono_rel [rotated])
  show ?thesis
  proof (cases "ready_list k \<noteq> [] \<and> p < priority k (hd (ready_list k))")
    case True
    let ?k = "push (Set_level (intr_on k)) ?p"
    have y: "thread_yield ?k = Some k'"
      using assms(4,5) True thread_current_ok [OF assms(3)] pr
      by (auto simp: thread_set_priority_def Let_def intr_get_level_def intr_disable_def)
    show ?thesis
      by (rule yield_fair [OF _ _ y]) (use b assms(2,3) in \<open>auto simp: by_priority_def\<close>)
  next
    case False
    then have k': "k' = ?p\<lparr>intr_on := intr_on k\<rparr>"
      using assms(4,5) thread_current_ok [OF assms(3)] pr
      by (auto simp: thread_set_priority_def Let_def intr_get_level_def intr_disable_def intr_set_level_eq split: if_splits)
    have "priority k t \<le> p" if "t \<in> set (ready_list k)" for t
      using False that assms(1) by (cases "ready_list k") (auto simp: fair_def by_priority_def)
    then show ?thesis
      using b pr k' by (auto simp: fair_def by_priority_def upd_def)
  qed
qed



section \<open>Donation\<close>

text \<open>Thread 1, of priority 10, holds lock 5 and is ready behind thread 2, of priority 20; thread 3, of
  priority 30, runs.\<close>

definition three_threads :: kernel where
  "three_threads = two_threads\<lparr>thr := (\<lambda>t. some_tcb\<lparr>t_magic := False\<rparr>)
       (1 := some_tcb\<lparr>t_status := THREAD_READY, t_priority := 10, t_origin_priority := 10\<rparr>,
        2 := some_tcb\<lparr>t_status := THREAD_READY, t_priority := 20, t_origin_priority := 20\<rparr>,
        3 := some_tcb\<lparr>t_status := THREAD_RUNNING, t_priority := 30, t_origin_priority := 30\<rparr>,
        4 := some_tcb\<lparr>t_priority := PRI_MIN, t_frames := [Idle_halt]\<rparr>),
     cur := 3, ready_list := [2, 1], idle_thread := 4,
     semas := (semas two_threads)(Lock_sema 5 := \<lparr>s_value = 0, s_waiters = []\<rparr>),
     holder := (holder two_threads)(5 := 1)\<rparr>"

lemma three_threads_ok: "sched_ok {} three_threads"
proof -
  have live: "is_thread three_threads t \<longleftrightarrow> t = 1 \<or> t = 2 \<or> t = 3 \<or> t = 4" for t
    by (auto simp: three_threads_def some_tcb_def is_thread_def)
  have np: "\<not> parked three_threads t" "waiters three_threads s = []" for t s
    by (auto simp: three_threads_def two_threads_def parked_def split: sema_id.splits)
  show ?thesis
    unfolding sched_ok_def placed_def one_list_def states_agree_def none_lost_def live
    using np by (auto simp: three_threads_def some_tcb_def two_threads_def)
qed


section \<open>Sleeping and waking\<close>

lemma yield_keeps_ready:
  assumes "sched_ok X k" "thread_yield k = Some k'" "t \<in> set (ready_list k)"
  shows "t \<in> set (ready_list k') \<or> t = cur k'"
proof -
  let ?y = "yielded k"
  have k': "k' = dispatch ?y"
    using thread_yield_ok [OF assms(1,2)] by blast
  have "t \<in> set (ready_list ?y)"
    using assms(3) by simp
  then show ?thesis
    unfolding k' by (cases "ready_list ?y") (auto simp: chosen_def)
qed

lemma tick_eqs:
  assumes "same_place (irq_entry k) k1" "only_sched (irq_entry k) k1"
  shows "sleeping_list k1 = sleeping_list k" "due n k1 t = due n k t" "outranks k1 t = outranks k t"
  using assms by (simp_all add: only_sched_def due_def outranks_def same_place_def)


lemma pop_push: "pop (push f k) = k"
  by (simp add: pop_def push_def upd_def)

lemma two_threads_sleep:
  "\<exists>k. reachable k \<and> sleeping_list k = [1] \<and> cur k = idle_thread k \<and> ticks k = 7 \<and> t_morning_tick (thr k 1) = 8 \<and>
    thread_ticks k = 0"
proof -
  let ?k = "two_threads"
  let ?c = "push (Call_to_sleep 8) ?k"
  have ok: "sched_ok (nascent ?k) ?k"
    using kernel_okD(1) [OF booted_kernel_ok [OF two_threads_booted]] .
  have "do_call (Timer_sleep 1) ?k = Some ?c"
    by (simp add: do_call_def timer_sleep_eq two_threads_def int64_def)
  then have "kstep ?k ?c"
    by (rule kstep.call [rotated 2]) (simp_all add: call_ok_def, simp add: two_threads_def some_tcb_def)
  then have "reachable ?c"
    using reachable.step [OF reachable.boot [OF two_threads_booted]] by blast
  note reach = reachable.step [OF this kstep.continue]
  let ?s = "push (Set_level True) (slept 8 ?k)"
  have st: "\<not> intr_on ?s" "cur ?s = 1" "is_thread ?s 1" "status ?s 1 = THREAD_RUNNING" "\<not> in_external_intr ?s"
      "ready_list ?s = []" "idle_thread ?s = 2" "is_thread ?s 2" "tss_esp0 ?s \<noteq> None" "sleeping_list ?s = [1]"
      "t_morning_tick (thr ?s 1) = 8" "ticks ?s = 7"
    by (simp_all add: slept_def Let_def thread_defs is_thread_def two_threads_def some_tcb_def insert_ordered_def)
  then have "thread_block ?s = Some (dispatch (set_status 1 THREAD_BLOCKED ?s))"
    by (simp add: thread_block_eq schedule_eq chosen_def) (simp add: thread_defs)
  then have "exec ?c = Some (dispatch (set_status 1 THREAD_BLOCKED ?s))"
    using thread_to_sleep_eq [OF ok, of 8] pop_push
    by (simp add: exec_def push_frames exec_frame_def) (simp add: two_threads_def)
  then have "reachable (dispatch (set_status 1 THREAD_BLOCKED ?s))"
    by (rule reach)
  then show ?thesis
    using st by (intro exI [of _ "dispatch (set_status 1 THREAD_BLOCKED ?s)"])
      (simp add: chosen_def set_status_def upd_def, simp add: dispatch_def)
qed


text \<open>
  C21: If a sleeping thread that is due has a higher priority than the running thread, which is not the
  idle thread, the timer interrupt panics: \<^verbatim>\<open>thread_unblock\<close> calls \<^verbatim>\<open>thread_yield\<close>, which asserts that it
  is not called by an interrupt handler.
\<close>

theorem tick_panics:
  assumes "sched_ok X k" "sleepers_sorted k" "t \<in> set (sleeping_list k)" "t_morning_tick (thr k t) \<le> ticks k + 1"
    "cur k \<noteq> idle_thread k" "priority k t > priority k (cur k)"
  shows "timer_irq k = None"
proof (cases "in_external_intr k")
  case True
  then show ?thesis
    by (simp add: timer_irq_eq)
next
  case False
  from assms(1,2) False show ?thesis
  proof (cases rule: timer_irq_cases)
    case (tick k1 k2)
    then show ?thesis
      using assms(3-6) unfolding woken_def tick_eqs [OF tick(2,3)] by (auto simp: due_def outranks_def)
  qed
qed

definition sleeper_above :: kernel where
  "sleeper_above = two_threads\<lparr>thr := (thr two_threads)(3 := some_tcb\<lparr>t_priority := 40, t_morning_tick := 8\<rparr>),
     sleeping_list := [3]\<rparr>"

lemma sleeper_above_ok: "sched_ok {} sleeper_above"
proof -
  have live: "is_thread sleeper_above t \<longleftrightarrow> t = 1 \<or> t = 2 \<or> t = 3" for t
    by (auto simp: sleeper_above_def two_threads_def some_tcb_def is_thread_def)
  have w: "waiters sleeper_above s = []" for s
    by (auto simp: sleeper_above_def two_threads_def split: sema_id.splits)
  then have pk: "parked sleeper_above t \<longleftrightarrow> t = 3" for t
    by (simp add: parked_def) (simp add: sleeper_above_def)
  show ?thesis
    unfolding sched_ok_def placed_def one_list_def states_agree_def none_lost_def live pk w
    by (auto simp: sleeper_above_def some_tcb_def two_threads_def)
qed

theorem tick_panics_witness: "timer_irq sleeper_above = None"
  by (rule tick_panics [OF sleeper_above_ok, of 3])
    (simp_all add: sleepers_sorted_def sleeper_above_def two_threads_def some_tcb_def PRI_DEFAULT_def)

section \<open>Semaphores\<close>

lemma unblocked_status:
  assumes "thread_unblock t k = Some k'"
  shows "status k' t = THREAD_READY \<or> t = cur k'"
proof (cases "cur k \<noteq> idle_thread k \<and> priority k t > priority k (cur k)")
  case True
  let ?u = "push (Set_level (intr_on k)) (unblocked t k)"
  have "thread_yield ?u = Some k'"
    using assms True by (auto simp: thread_unblock_eq split: if_splits)
  then have "k' = dispatch (yielded ?u)"
    by (auto simp: thread_yield_eq schedule_eq split: if_splits)
  then show ?thesis
    by auto
next
  case False
  then show ?thesis
    using assms by (auto simp: thread_unblock_eq intr_set_level_eq split: if_splits)
qed

lemma sort_key_hd_max:
  fixes key :: "'a \<Rightarrow> int"
  assumes "sort_key (\<lambda>t. - key t) xs = t # rest"
  shows "t \<in> set xs \<and> (\<forall>u\<in>set xs. key u \<le> key t) \<and> mset rest = mset xs - {#t#}"
proof -
  have s: "set xs = insert t (set rest)"
    by (metis assms list.simps(15) set_sort)
  have "sorted (map (\<lambda>t. - key t) (t # rest))"
    using sorted_sort_key [of "\<lambda>t. - key t" xs] assms by simp
  moreover have "mset xs = add_mset t (mset rest)"
    by (metis assms mset.simps(2) mset_sort)
  ultimately show ?thesis
    using s by auto
qed

text \<open>
  C14: \<^verbatim>\<open>sema_up\<close> increments the semaphore and, if threads wait on it, takes from the waiters one of the
  highest priority and makes it ready, or runs it at once; the other waiters stay.
\<close>

theorem sema_up_wakes_highest:
  assumes "sched_ok X k" "waiters k s \<noteq> []" "sema_up s k = Some k'"
  shows "\<exists>t\<in>set (waiters k s). (\<forall>u\<in>set (waiters k s). priority k u \<le> priority k t) \<and>
    mset (waiters k' s) = mset (waiters k s) - {#t#} \<and> (status k' t = THREAD_READY \<or> t = cur k') \<and>
    sval k' s = (sval k s + 1) mod UINT_MOD"
proof -
  obtain t rest where sk: "sort_key (\<lambda>t. - priority k t) (waiters k s) = t # rest"
    using assms(2) by (cases "sort_key (\<lambda>t. - priority k t) (waiters k s)") (auto dest: arg_cong [of _ "[]" length])
  note h = sort_key_hd_max [OF sk]
  let ?w = "sema_wake s rest k"
  have u: "thread_unblock t ?w = Some k'"
    using assms(3) sk by (simp add: sema_up_eq)
  have "sval ?w s = (sval k s + 1) mod UINT_MOD" "waiters ?w s = rest"
    by (simp_all add: sema_wake_def)
  moreover have "semas k' = semas ?w"
    using thread_unblock_only [OF u] by (simp add: only_sched_def)
  moreover have "sched_ok (insert t X) ?w" "t \<notin> X"
    using sema_wake_parked [OF assms(1) sk] by auto
  then have "status k' t = THREAD_READY \<or> t = cur k'"
    using unblocked_status [OF u] by blast
  ultimately show ?thesis
    using h by (intro bexI [of _ t]) auto
qed

definition one_waiter :: kernel where
  "one_waiter = two_threads\<lparr>thr := (thr two_threads)(3 := some_tcb\<lparr>t_priority := 20\<rparr>),
     semas := (semas two_threads)(Sema 0 := \<lparr>s_value = 0, s_waiters = [3]\<rparr>)\<rparr>"

lemma one_waiter_ok: "sched_ok {} one_waiter"
proof -
  have live: "is_thread one_waiter t \<longleftrightarrow> t = 1 \<or> t = 2 \<or> t = 3" for t
    by (auto simp: one_waiter_def two_threads_def some_tcb_def is_thread_def)
  have w: "waiters one_waiter s = (if s = Sema 0 then [3] else [])" for s
    by (auto simp: one_waiter_def two_threads_def split: sema_id.splits)
  then have pk: "parked one_waiter t \<longleftrightarrow> t = 3" for t
    by (auto simp: parked_def one_waiter_def two_threads_def)
  show ?thesis
    unfolding sched_ok_def placed_def one_list_def states_agree_def none_lost_def live pk w
    by (auto simp: one_waiter_def some_tcb_def two_threads_def)
qed

theorem sema_up_wakes_highest_witness:
  "\<exists>k'. sema_up (Sema 0) one_waiter = Some k' \<and> waiters k' (Sema 0) = [] \<and>
    (status k' 3 = THREAD_READY \<or> 3 = cur k') \<and> sval k' (Sema 0) = 1"
proof -
  have w: "waiters one_waiter (Sema 0) = [3]" "sval one_waiter (Sema 0) = 0"
    by (simp_all add: one_waiter_def)
  have "\<exists>k'. sema_up (Sema 0) one_waiter = Some k'"
    using w(1) by (simp add: sema_up_eq thread_unblock_eq sema_wake_def intr_set_level_eq)
      (simp add: one_waiter_def two_threads_def some_tcb_def is_thread_def PRI_DEFAULT_def)
  then obtain k' where k': "sema_up (Sema 0) one_waiter = Some k'"
    by blast
  show ?thesis
    using sema_up_wakes_highest [OF one_waiter_ok _ k'] w k' by simp
qed

end
