(* ===== verification/Palloc.thy ===== *)
theory Palloc
  imports Vaddr Bitmap Kstring "HOL-Library.Signed_Division"
begin

text \<open>
  The page allocator of \<^verbatim>\<open>threads/palloc.c\<close>. Two pools of pages, each with a bitmap of the pages
  in use; the bitmap of a pool lies in front of its pages. A pool's lock makes the search in its bitmap
  one step, which is how it is taken here. Addresses are 32-bit words, memory is a map from addresses
  to bytes, and a kernel panic is \<^term>\<open>None\<close>.
\<close>

section \<open>Definitions\<close>

record pool =
  used_map :: bitmap
  pool_base :: u32

record memory =
  kernel_pool :: pool
  user_pool :: pool
  ram :: mem

definition PAL_ASSERT :: u32 where "PAL_ASSERT = 1"
definition PAL_ZERO :: u32 where "PAL_ZERO = 2"
definition PAL_USER :: u32 where "PAL_USER = 4"

text \<open>A 32-bit word in memory, low byte first.\<close>

definition load32 :: "mem \<Rightarrow> addr \<Rightarrow> u32" where
  "load32 m a = ucast (m a) OR push_bit 8 (ucast (m (a + 1))) OR push_bit 16 (ucast (m (a + 2))) OR
     push_bit 24 (ucast (m (a + 3)))"

text \<open>The bitmap starts as whatever is in memory behind its header of eight bytes.\<close>

definition init_pool :: "u32 \<Rightarrow> nat \<Rightarrow> mem \<Rightarrow> pool option" where
  "init_pool base page_cnt m = do {
     let bm_pages = DIV_ROUND_UP (bitmap_buf_size page_cnt) PGSIZE;
     ASSERT (bm_pages \<le> page_cnt);
     let page_cnt = page_cnt - bm_pages;
     let block = map (\<lambda>i. load32 m (unat base + 8 + 4 * i)) [0..<elem_cnt page_cnt];
     b \<leftarrow> bitmap_create_in_buf page_cnt block (bm_pages * PGSIZE mod SIZE_MOD);
     Some \<lparr>used_map = b, pool_base = base + of_nat (bm_pages * PGSIZE)\<rparr> }"

text \<open>\<open>image_end\<close> is the address of the linker's symbol \<^verbatim>\<open>_end\<close>.\<close>

definition palloc_init :: "u32 \<Rightarrow> nat \<Rightarrow> nat \<Rightarrow> mem \<Rightarrow> memory option" where
  "palloc_init image_end ram_pages user_page_limit m = do {
     let free_start = pg_round_up image_end;
     free_end \<leftarrow> ptov (of_nat (ram_pages * PGSIZE));
     let free_pages = unat (word_of_int (sint (free_end - free_start) sdiv int PGSIZE) :: u32);
     let user_pages = free_pages div 2;
     let user_pages = (if user_pages > user_page_limit then user_page_limit else user_pages);
     let kernel_pages = free_pages - user_pages;
     kp \<leftarrow> init_pool free_start kernel_pages m;
     up \<leftarrow> init_pool (free_start + of_nat (kernel_pages * PGSIZE)) user_pages m;
     Some \<lparr>kernel_pool = kp, user_pool = up, ram = m\<rparr> }"

definition pool_for :: "u32 \<Rightarrow> memory \<Rightarrow> pool" where
  "pool_for flags s = (if flags AND PAL_USER \<noteq> 0 then user_pool s else kernel_pool s)"

definition set_pool_for :: "u32 \<Rightarrow> pool \<Rightarrow> memory \<Rightarrow> memory" where
  "set_pool_for flags p s = (if flags AND PAL_USER \<noteq> 0 then s\<lparr>user_pool := p\<rparr> else s\<lparr>kernel_pool := p\<rparr>)"

definition palloc_get_multiple :: "u32 \<Rightarrow> nat \<Rightarrow> memory \<Rightarrow> (u32 \<times> memory) option" where
  "palloc_get_multiple flags page_cnt s =
     (if page_cnt = 0 then Some (0, s)
      else do {
        let p = pool_for flags s;
        (page_idx, b) \<leftarrow> bitmap_scan_and_flip (used_map p) 0 page_cnt False;
        let s = set_pool_for flags (p\<lparr>used_map := b\<rparr>) s;
        let pages = (if page_idx \<noteq> BITMAP_ERROR then pool_base p + of_nat (PGSIZE * page_idx) else 0);
        if pages \<noteq> 0 then
          if flags AND PAL_ZERO \<noteq> 0 then do {
            (_, m) \<leftarrow> memset (ram s) (unat pages) 0 (PGSIZE * page_cnt mod SIZE_MOD);
            Some (pages, s\<lparr>ram := m\<rparr>) }
          else Some (pages, s)
        else if flags AND PAL_ASSERT \<noteq> 0 then None
        else Some (0, s) })"

definition palloc_get_page :: "u32 \<Rightarrow> memory \<Rightarrow> (u32 \<times> memory) option" where
  "palloc_get_page flags s = palloc_get_multiple flags 1 s"

definition page_from_pool :: "pool \<Rightarrow> u32 \<Rightarrow> bool" where
  "page_from_pool p page \<longleftrightarrow>
     (let page_no = unat (pg_no page);
          start_page = unat (pg_no (pool_base p));
          end_page = size_add start_page (bitmap_size (used_map p))
      in page_no \<ge> start_page \<and> page_no < end_page)"

definition palloc_free_multiple :: "u32 \<Rightarrow> nat \<Rightarrow> memory \<Rightarrow> memory option" where
  "palloc_free_multiple pages page_cnt s = do {
     ASSERT (pg_ofs pages = 0);
     if pages = 0 \<or> page_cnt = 0 then Some s
     else do {
       flags \<leftarrow> (if page_from_pool (kernel_pool s) pages then Some 0
                 else if page_from_pool (user_pool s) pages then Some PAL_USER
                 else None);
       let p = pool_for flags s;
       let page_idx = unat (pg_no pages - pg_no (pool_base p));
       (_, m) \<leftarrow> memset (ram s) (unat pages) 0xcc (PGSIZE * page_cnt mod SIZE_MOD);
       a \<leftarrow> bitmap_all (used_map p) page_idx page_cnt;
       ASSERT a;
       b \<leftarrow> bitmap_set_multiple (used_map p) page_idx page_cnt False;
       Some ((set_pool_for flags (p\<lparr>used_map := b\<rparr>) s)\<lparr>ram := m\<rparr>) } }"

definition palloc_free_page :: "u32 \<Rightarrow> memory \<Rightarrow> memory option" where
  "palloc_free_page page s = palloc_free_multiple page 1 s"

section \<open>The pages of a pool\<close>

definition pool_start :: "pool \<Rightarrow> nat" where
  "pool_start p = unat (pool_base p) div PGSIZE"

definition pool_size :: "pool \<Rightarrow> nat" where
  "pool_size p = bit_cnt (used_map p)"

definition pool_used :: "pool \<Rightarrow> nat set" where
  "pool_used p = (+) (pool_start p) ` used_bits (used_map p)"

text \<open>A pool is well formed when its bitmap is, its pages are page-aligned kernel addresses, and the
  last one ends within the address space.\<close>

definition pool_ok :: "pool \<Rightarrow> bool" where
  "pool_ok p \<longleftrightarrow> bitmap_ok (used_map p) \<and> pg_ofs (pool_base p) = 0 \<and> is_kernel_vaddr (pool_base p) \<and>
     (pool_start p + pool_size p) * PGSIZE \<le> 2 ^ 32"

definition memory_ok :: "memory \<Rightarrow> bool" where
  "memory_ok s \<longleftrightarrow> pool_ok (kernel_pool s) \<and> pool_ok (user_pool s) \<and>
     pool_start (kernel_pool s) + pool_size (kernel_pool s) \<le> pool_start (user_pool s)"

definition used_pages :: "memory \<Rightarrow> nat set" where
  "used_pages s = pool_used (kernel_pool s) \<union> pool_used (user_pool s)"

definition pool_range :: "pool \<Rightarrow> nat set" where
  "pool_range p = {pool_start p..<pool_start p + pool_size p}"

abbreviation page_no :: "u32 \<Rightarrow> nat" where
  "page_no va \<equiv> unat (pg_no va)"

lemma PGSIZE_eq: "PGSIZE = 4096"
  by (simp add: PGSIZE_def PGBITS_def)

lemma aligned_unat: "pg_ofs va = 0 \<Longrightarrow> unat va = page_no va * PGSIZE"
  using unat_pg_ofs [of va] by (simp add: unat_pg_no div_mult_mod_eq mod_0_imp_dvd)

lemma aligned_intro: "unat va = n * PGSIZE \<Longrightarrow> pg_ofs va = 0 \<and> page_no va = n"
  using unat_pg_ofs [of va] unat_pg_no [of va] by (simp add: PGSIZE_eq unat_eq_zero)

lemma pool_page:
  assumes "pool_ok p" "i < pool_size p"
  shows "unat (pool_base p + of_nat (PGSIZE * i)) = (pool_start p + i) * PGSIZE"
    "pg_ofs (pool_base p + of_nat (PGSIZE * i)) = 0" "page_no (pool_base p + of_nat (PGSIZE * i)) = pool_start p + i"
    "is_kernel_vaddr (pool_base p + of_nat (PGSIZE * i))" "pool_base p + of_nat (PGSIZE * i) \<noteq> 0"
proof -
  have b: "unat (pool_base p) = pool_start p * PGSIZE"
    using assms(1) aligned_unat [of "pool_base p"] by (simp add: pool_ok_def pool_start_def unat_pg_no)
  have "(pool_start p + i) * PGSIZE < (pool_start p + pool_size p) * PGSIZE"
    using assms(2) by (simp add: PGSIZE_eq)
  then have l: "(pool_start p + i) * PGSIZE < 2 ^ 32"
    using assms(1) unfolding pool_ok_def by linarith
  have "of_nat (unat (pool_base p)) = pool_base p"
    by simp
  then have "pool_base p = of_nat (pool_start p * PGSIZE)"
    unfolding b by (rule sym)
  then have w: "pool_base p + of_nat (PGSIZE * i) = of_nat ((pool_start p + i) * PGSIZE)"
    by (simp add: algebra_simps)
  show u: "unat (pool_base p + of_nat (PGSIZE * i)) = (pool_start p + i) * PGSIZE"
    unfolding w by (rule u32_of_nat) (use l in simp)
  from aligned_intro [OF u] show "pg_ofs (pool_base p + of_nat (PGSIZE * i)) = 0"
      "page_no (pool_base p + of_nat (PGSIZE * i)) = pool_start p + i"
    by simp_all
  have "unat PHYS_BASE \<le> unat (pool_base p)"
    using assms(1) by (simp add: pool_ok_def is_kernel_vaddr_def word_le_nat_alt)
  then have k: "unat PHYS_BASE \<le> unat (pool_base p + of_nat (PGSIZE * i))"
    unfolding u b by (simp add: algebra_simps)
  then show "is_kernel_vaddr (pool_base p + of_nat (PGSIZE * i))"
    by (simp only: is_kernel_vaddr_def word_le_nat_alt)
  from k show "pool_base p + of_nat (PGSIZE * i) \<noteq> 0"
    by (auto simp: PHYS_BASE_def)
qed

lemma pool_used_range: "pool_used p \<subseteq> pool_range p"
  by (auto simp: pool_used_def pool_range_def pool_size_def used_bits_def)

lemma pool_used_shift: "pool_start p + i \<in> pool_used p \<longleftrightarrow> i \<in> used_bits (used_map p)"
  by (auto simp: pool_used_def)

lemma image_add_range: "(+) (s :: nat) ` {i..<i + n} = {s + i..<s + i + n}"
  by (simp add: ac_simps)

lemma image_add_Int: "(+) (s :: nat) ` A \<inter> (+) s ` B = (+) s ` (A \<inter> B)"
  by auto

lemma pool_used_add:
  "used_bits b = used_bits (used_map p) \<union> {i..<i + n} \<Longrightarrow>
    pool_used (p\<lparr>used_map := b\<rparr>) = pool_used p \<union> {pool_start p + i..<pool_start p + i + n}"
  by (simp add: pool_used_def pool_start_def image_Un ac_simps)

lemma pool_used_remove:
  "used_bits b = used_bits (used_map p) - {i..<i + n} \<Longrightarrow>
    pool_used (p\<lparr>used_map := b\<rparr>) = pool_used p - {pool_start p + i..<pool_start p + i + n}"
  by (simp add: pool_used_def pool_start_def image_set_diff ac_simps)

lemma pool_ok_used_map:
  "pool_ok p \<Longrightarrow> bitmap_ok b \<Longrightarrow> bit_cnt b = bit_cnt (used_map p) \<Longrightarrow> pool_ok (p\<lparr>used_map := b\<rparr>)"
  by (simp add: pool_ok_def pool_start_def pool_size_def)

lemma memory_ok_pool_for: "memory_ok s \<Longrightarrow> pool_ok (pool_for flags s)"
  by (simp add: memory_ok_def pool_for_def)

lemma memory_ok_set_pool:
  assumes "memory_ok s" "bitmap_ok b" "bit_cnt b = bit_cnt (used_map (pool_for flags s))"
  shows "memory_ok (set_pool_for flags ((pool_for flags s)\<lparr>used_map := b\<rparr>) s)"
  using assms pool_ok_used_map [OF _ assms(2)]
  by (auto simp: memory_ok_def set_pool_for_def pool_for_def pool_size_def pool_start_def)

lemma pools_disjoint: "memory_ok s \<Longrightarrow> pool_range (kernel_pool s) \<inter> pool_range (user_pool s) = {}"
  by (auto simp: memory_ok_def pool_range_def)

lemma memory_ok_ram [simp]: "memory_ok (s\<lparr>ram := m\<rparr>) = memory_ok s" "used_pages (s\<lparr>ram := m\<rparr>) = used_pages s"
  by (simp_all add: memory_ok_def used_pages_def)

lemma set_pool_for_ram [simp]: "ram (set_pool_for flags p s) = ram s"
  by (simp add: set_pool_for_def)

text \<open>The pages used after a change to one pool.\<close>

lemma used_pages_set_pool:
  assumes "memory_ok s" "R \<subseteq> pool_range (pool_for flags s)"
  shows "pool_used p = pool_used (pool_for flags s) \<union> R \<Longrightarrow> used_pages (set_pool_for flags p s) = used_pages s \<union> R"
    "pool_used p = pool_used (pool_for flags s) - R \<Longrightarrow> used_pages (set_pool_for flags p s) = used_pages s - R"
    "R \<inter> pool_used (pool_for flags s) = {} \<Longrightarrow> R \<inter> used_pages s = {}"
    "R \<subseteq> used_pages s \<Longrightarrow> R \<subseteq> pool_used (pool_for flags s)"
  using assms(2) pools_disjoint [OF assms(1)] pool_used_range [of "user_pool s"] pool_used_range [of "kernel_pool s"]
  by (cases "flags AND PAL_USER = 0"; simp add: used_pages_def set_pool_for_def pool_for_def; blast)+

text \<open>The bytes of a range of pages, and memory that is the same outside them.\<close>

definition pages_bytes :: "nat \<Rightarrow> nat \<Rightarrow> nat set" where
  "pages_bytes p n = {p * PGSIZE..<(p + n) * PGSIZE}"

definition filled :: "nat set \<Rightarrow> u8 \<Rightarrow> mem \<Rightarrow> mem" where
  "filled A v m = (\<lambda>a. if a \<in> A then v else m a)"

lemma memset_pages:
  assumes "unat pages = p * PGSIZE" "0 < n" "(p + n) * PGSIZE \<le> 2 ^ 32" "pages \<noteq> 0"
  shows "\<exists>d. memset m (unat pages) v (PGSIZE * n mod SIZE_MOD) = Some (d, filled (pages_bytes p n) v m)"
proof -
  have "0 < p"
    using assms(1,4) by (cases p) (auto simp: unat_eq_zero)
  then have "PGSIZE * n < SIZE_MOD"
    using assms(3) by (simp add: PGSIZE_eq)
  then have "memset_loop m (p * PGSIZE) v (PGSIZE * n mod SIZE_MOD) = filled (pages_bytes p n) v m"
    by (auto simp: filled_def pages_bytes_def memset_loop_eq algebra_simps)
  then show ?thesis
    using assms(1) \<open>0 < p\<close> by (simp add: memset_def PGSIZE_eq)
qed

text \<open>The outcome of a request: no room, or a range of pages that was free.\<close>

lemma bitmap_flip_free:
  assumes "bitmap_ok b"
  shows "(\<exists>i b'. bitmap_scan_and_flip b 0 n False = Some (i, b') \<and> i < BITMAP_ERROR \<and> bitmap_ok b' \<and>
      bit_cnt b' = bit_cnt b \<and> i + n \<le> bit_cnt b \<and> {i..<i + n} \<inter> used_bits b = {} \<and>
      used_bits b' = used_bits b \<union> {i..<i + n}) \<or>
    bitmap_scan_and_flip b 0 n False = Some (BITMAP_ERROR, b) \<and>
      (\<forall>i. i + n \<le> bit_cnt b \<longrightarrow> {i..<i + n} \<inter> used_bits b \<noteq> {})"
proof -
  obtain r b' where *: "bitmap_scan_and_flip b 0 n False = Some (r, b')" "bitmap_ok b'" "bit_cnt b' = bit_cnt b"
    "r = BITMAP_ERROR \<and> b' = b \<and> (\<forall>j. \<not> run_at (bits_of b) False n j) \<or>
     r < BITMAP_ERROR \<and> run_at (bits_of b) False n r \<and> bits_of b' = set_range (bits_of b) r n True"
    using bitmap_scan_and_flip_ok [OF assms, of 0 n False] by auto
  show ?thesis
  proof (cases "r = BITMAP_ERROR")
    case True
    with * show ?thesis
      by (auto simp: simp flip: run_at_free)
  next
    case False
    with * have "r + n \<le> bit_cnt b"
      by (simp add: run_at_def)
    with False * used_bits_set_range [of b' b r n True] show ?thesis
      by (simp add: run_at_free)
  qed
qed

lemma set_pool_for_range:
  assumes "bit_cnt b = bit_cnt (used_map (pool_for flags s))"
  shows "pool_range (pool_for f (set_pool_for flags ((pool_for flags s)\<lparr>used_map := b\<rparr>) s)) = pool_range (pool_for f s)"
  using assms by (simp add: pool_range_def pool_for_def set_pool_for_def pool_start_def pool_size_def)

lemma page_run_index:
  assumes "{p..<p + n} \<subseteq> pool_range P" "0 < n"
  shows "\<exists>i. p = pool_start P + i \<and> i + n \<le> pool_size P"
proof -
  have "p \<in> {p..<p + n}" "p + n - 1 \<in> {p..<p + n}"
    using assms(2) by auto
  then have "p \<in> pool_range P" "p + n - 1 \<in> pool_range P"
    using assms(1) by blast+
  then show ?thesis
    by (intro exI [of _ "p - pool_start P"]) (auto simp: pool_range_def)
qed

lemma palloc_get_multiple_ok:
  assumes "memory_ok s" "0 < n"
  shows "(\<exists>pages s'. palloc_get_multiple flags n s = Some (pages, s') \<and> memory_ok s' \<and> pages \<noteq> 0 \<and>
      unat pages = page_no pages * PGSIZE \<and> is_kernel_vaddr pages \<and>
      {page_no pages..<page_no pages + n} \<subseteq> pool_range (pool_for flags s) - used_pages s \<and>
      used_pages s' = used_pages s \<union> {page_no pages..<page_no pages + n} \<and>
      pool_range (pool_for 0 s') = pool_range (pool_for 0 s) \<and> pool_range (pool_for PAL_USER s') = pool_range (pool_for PAL_USER s) \<and>
      ram s' = (if flags AND PAL_ZERO \<noteq> 0 then filled (pages_bytes (page_no pages) n) 0 (ram s) else ram s)) \<or>
    palloc_get_multiple flags n s = (if flags AND PAL_ASSERT \<noteq> 0 then None else Some (0, s)) \<and>
      (\<forall>p. {p..<p + n} \<subseteq> pool_range (pool_for flags s) \<longrightarrow> {p..<p + n} \<inter> used_pages s \<noteq> {})"
proof -
  let ?p = "pool_for flags s"
  note P = memory_ok_pool_for [OF assms(1), of flags]
  consider i b' where "bitmap_scan_and_flip (used_map ?p) 0 n False = Some (i, b')" "i < BITMAP_ERROR" "bitmap_ok b'"
      "bit_cnt b' = bit_cnt (used_map ?p)" "i + n \<le> pool_size ?p" "{i..<i + n} \<inter> used_bits (used_map ?p) = {}"
      "used_bits b' = used_bits (used_map ?p) \<union> {i..<i + n}"
    | "bitmap_scan_and_flip (used_map ?p) 0 n False = Some (BITMAP_ERROR, used_map ?p)"
      "\<forall>i. i + n \<le> pool_size ?p \<longrightarrow> {i..<i + n} \<inter> used_bits (used_map ?p) \<noteq> {}"
    using bitmap_flip_free [of "used_map ?p" n] P by (auto simp: pool_ok_def pool_size_def)
  then show ?thesis
  proof cases
    case 1
    define pages where "pages = pool_base ?p + of_nat (PGSIZE * i)"
    define s' where "s' = set_pool_for flags (?p\<lparr>used_map := b'\<rparr>) s"
    have "i < pool_size ?p"
      using 1(5) assms(2) by simp
    note pg = pool_page [OF P this, folded pages_def]
    let ?R = "{page_no pages..<page_no pages + n}"
    have R: "?R \<subseteq> pool_range ?p"
      using 1(5) by (auto simp: pg(3) pool_range_def)
    have "?R \<inter> pool_used ?p = {}"
      using 1(6) unfolding pg(3) pool_used_def image_add_range [symmetric] image_add_Int by simp
    then have free: "?R \<inter> used_pages s = {}"
      by (rule used_pages_set_pool(3) [OF assms(1) R])
    have use: "used_pages s' = used_pages s \<union> ?R"
      unfolding s'_def using pool_used_add [OF 1(7)] pg(3) by (intro used_pages_set_pool(1) [OF assms(1) R]) simp
    have ok: "memory_ok s'"
      unfolding s'_def by (rule memory_ok_set_pool [OF assms(1) 1(3,4)])
    have "(page_no pages + n) * PGSIZE \<le> (pool_start ?p + pool_size ?p) * PGSIZE"
      using 1(5) by (simp add: pg(3) PGSIZE_eq)
    then have "(page_no pages + n) * PGSIZE \<le> 2 ^ 32"
      using P unfolding pool_ok_def by linarith
    then obtain d where d: "memset (ram s) (unat pages) 0 (PGSIZE * n mod SIZE_MOD) =
        Some (d, filled (pages_bytes (page_no pages) n) 0 (ram s))"
      using memset_pages [OF _ assms(2) _ pg(5), of "page_no pages"] pg(1,3) by auto
    define s2 where "s2 = (if flags AND PAL_ZERO \<noteq> 0
        then s'\<lparr>ram := filled (pages_bytes (page_no pages) n) 0 (ram s)\<rparr> else s')"
    have get: "palloc_get_multiple flags n s = Some (pages, s2)"
      using 1(1,2) assms(2) pg(5) d by (simp add: palloc_get_multiple_def s2_def s'_def pages_def Let_def)
    have pf: "pool_for f s2 = pool_for f s'" for f
      by (simp add: pool_for_def s2_def)
    have rg: "pool_range (pool_for f s2) = pool_range (pool_for f s)" for f
      unfolding pf s'_def by (rule set_pool_for_range [OF 1(4)])
    have "memory_ok s2" "used_pages s2 = used_pages s \<union> ?R"
        "ram s2 = (if flags AND PAL_ZERO \<noteq> 0 then filled (pages_bytes (page_no pages) n) 0 (ram s) else ram s)"
      using ok use by (simp_all add: s2_def) (simp_all add: s'_def)
    moreover have "?R \<subseteq> pool_range ?p - used_pages s" "unat pages = page_no pages * PGSIZE"
      using R free pg(1,3) by auto
    ultimately show ?thesis
      using get rg pg(4,5) by blast
  next
    case 2
    have "set_pool_for flags (?p\<lparr>used_map := used_map ?p\<rparr>) s = s"
      by (simp add: set_pool_for_def pool_for_def)
    then have "palloc_get_multiple flags n s = (if flags AND PAL_ASSERT \<noteq> 0 then None else Some (0, s))"
      using 2(1) assms(2) by (simp add: palloc_get_multiple_def)
    moreover have "{q..<q + n} \<inter> used_pages s \<noteq> {}" if sub: "{q..<q + n} \<subseteq> pool_range ?p" for q
    proof -
      obtain i where i: "q = pool_start ?p + i" "i + n \<le> pool_size ?p"
        using page_run_index [OF sub assms(2)] by blast
      then have "{q..<q + n} \<inter> pool_used ?p = (+) (pool_start ?p) ` ({i..<i + n} \<inter> used_bits (used_map ?p))"
        unfolding pool_used_def i(1) image_add_range [symmetric] image_add_Int by simp
      moreover have "pool_used ?p \<subseteq> used_pages s"
        by (auto simp: used_pages_def pool_for_def)
      ultimately show ?thesis
        using 2(2) i(2) by blast
    qed
    ultimately show ?thesis
      by blast
  qed
qed

text \<open>What a call to free must satisfy, and what it does.\<close>

lemma page_from_pool_iff:
  assumes "pool_ok p"
  shows "page_from_pool p page \<longleftrightarrow> page_no page \<in> pool_range p"
proof -
  have "pool_start p + pool_size p < SIZE_MOD"
    using assms by (simp add: pool_ok_def PGSIZE_eq)
  then show ?thesis
    by (simp add: page_from_pool_def pool_range_def pool_start_def pool_size_def unat_pg_no size_add_def bitmap_size_def Let_def)
qed

lemma free_page_idx:
  assumes "pool_ok p" "page_no pages = pool_start p + i"
  shows "unat (pg_no pages - pg_no (pool_base p)) = i"
proof -
  have "pg_no (pool_base p) \<le> pg_no pages"
    using assms(2) by (simp add: word_le_nat_alt unat_pg_no pool_start_def)
  then show ?thesis
    using assms(2) by (simp add: unat_sub unat_pg_no pool_start_def)
qed

lemma bitmap_all_ok:
  assumes "bitmap_ok b" "i + n \<le> bit_cnt b"
  shows "bitmap_all b i n = Some ({i..<i + n} \<subseteq> used_bits b)"
proof -
  have "False \<in> set (take n (drop i (bits_of b))) \<longleftrightarrow> (\<exists>j<n. \<not> bits_of b ! (i + j))"
    using assms(2) by (auto simp: in_set_conv_nth)
  also have "\<dots> \<longleftrightarrow> \<not> {i..<i + n} \<subseteq> used_bits b"
  proof -
    have "{i..<i + n} = (+) i ` {0..<n}"
      by (simp add: add.commute)
    then show ?thesis
      unfolding \<open>{i..<i + n} = _\<close> image_subset_iff using assms(2) by (auto simp: used_bits_def)
  qed
  finally show ?thesis
    using bitmap_contains_ok [OF assms, of False] by (simp add: bitmap_all_def)
qed

lemma palloc_free_multiple_ok:
  assumes "memory_ok s" "0 < n" "pg_ofs pages = 0"
    "{page_no pages..<page_no pages + n} \<subseteq> pool_range (pool_for flags s) \<inter> used_pages s" "flags \<in> {0, PAL_USER}"
  shows "\<exists>s'. palloc_free_multiple pages n s = Some s' \<and> memory_ok s' \<and>
    used_pages s' = used_pages s - {page_no pages..<page_no pages + n} \<and>
    (\<forall>f. pool_range (pool_for f s') = pool_range (pool_for f s)) \<and>
    ram s' = filled (pages_bytes (page_no pages) n) 0xcc (ram s)"
proof -
  let ?p = "pool_for flags s" let ?R = "{page_no pages..<page_no pages + n}"
  note P = memory_ok_pool_for [OF assms(1), of flags]
  obtain i where i: "page_no pages = pool_start ?p + i" "i + n \<le> pool_size ?p"
    using page_run_index [of "page_no pages" n ?p] assms(2,4) by blast
  have "?R \<subseteq> pool_used ?p"
    using used_pages_set_pool(4) [OF assms(1), of ?R flags] assms(4) by blast
  then have all: "{i..<i + n} \<subseteq> used_bits (used_map ?p)"
    unfolding i(1) pool_used_def image_add_range [symmetric] by (simp only: inj_image_subset_iff [OF inj_on_add])
  have b: "bitmap_ok (used_map ?p)" "i + n \<le> bit_cnt (used_map ?p)"
    using P i(2) by (simp_all add: pool_ok_def pool_size_def)
  have ba: "bitmap_all (used_map ?p) i n = Some True"
    using bitmap_all_ok [OF b] all by simp
  obtain b' where b': "bitmap_set_multiple (used_map ?p) i n False = Some b'" "bitmap_ok b'"
      "bit_cnt b' = bit_cnt (used_map ?p)" "used_bits b' = used_bits (used_map ?p) - {i..<i + n}"
    using bitmap_allocator.release_spec [OF b] by blast
  have "page_no pages \<in> pool_range ?p"
    using assms(2,4) by auto
  moreover have "page_no pages \<notin> pool_range (kernel_pool s)" if "flags = PAL_USER"
    using pools_disjoint [OF assms(1)] calculation that by (auto simp: pool_for_def PAL_USER_def)
  ultimately have fl: "(if page_from_pool (kernel_pool s) pages then Some 0
      else if page_from_pool (user_pool s) pages then Some PAL_USER else None) = Some flags"
    using assms(1,5) by (auto simp: page_from_pool_iff memory_ok_def pool_for_def PAL_USER_def)
  have "(page_no pages + n) * PGSIZE \<le> (pool_start ?p + pool_size ?p) * PGSIZE"
    using i by (simp add: PGSIZE_eq)
  then have "(page_no pages + n) * PGSIZE \<le> 2 ^ 32"
    using P unfolding pool_ok_def by linarith
  moreover have nz: "pages \<noteq> 0"
    using pool_page(5) [OF P, of i] i assms(2) aligned_unat [OF assms(3)] pool_page(1) [OF P, of i] by (auto simp: unat_eq_zero)
  ultimately obtain d where d: "memset (ram s) (unat pages) 0xcc (PGSIZE * n mod SIZE_MOD) =
      Some (d, filled (pages_bytes (page_no pages) n) 0xcc (ram s))"
    using memset_pages [OF aligned_unat [OF assms(3)] assms(2)] by blast
  let ?s = "(set_pool_for flags (?p\<lparr>used_map := b'\<rparr>) s)\<lparr>ram := filled (pages_bytes (page_no pages) n) 0xcc (ram s)\<rparr>"
  have "palloc_free_multiple pages n s = Some ?s"
    using assms(2,3) nz d ba b'(1) fl free_page_idx [OF P i(1)] by (simp add: palloc_free_multiple_def Let_def)
  moreover have "memory_ok ?s"
    using memory_ok_set_pool [OF assms(1) b'(2,3)] by simp
  moreover have "used_pages ?s = used_pages s - ?R"
    using used_pages_set_pool(2) [OF assms(1), of ?R flags "?p\<lparr>used_map := b'\<rparr>"] pool_used_remove [OF b'(4)] assms(4) i(1)
    by simp
  moreover have "pool_range (pool_for f ?s) = pool_range (pool_for f s)" for f
    unfolding set_pool_for_range [OF b'(3), of f, symmetric] by (simp add: pool_for_def [of f])
  ultimately show ?thesis
    by simp
qed

section \<open>Sources of pages\<close>

text \<open>
  What the clients of the allocator rely on: \<open>used s\<close> are the page numbers in use, \<open>zone s\<close> the ones
  the source serves from; \<open>get n s\<close> hands out \<open>n\<close> consecutive free pages or the null pointer, \<open>give a n s\<close> takes
  them back.
\<close>

locale page_source =
  fixes inv :: "'s \<Rightarrow> bool"
    and used zone :: "'s \<Rightarrow> nat set"
    and get :: "nat \<Rightarrow> 's \<Rightarrow> (u32 \<times> 's) option"
    and give :: "u32 \<Rightarrow> nat \<Rightarrow> 's \<Rightarrow> 's option"
  assumes get_spec: "inv s \<Longrightarrow> 0 < n \<Longrightarrow> \<exists>a s'. get n s = Some (a, s') \<and> inv s' \<and> zone s' = zone s \<and>
      (if a = 0 then s' = s \<and> (\<forall>p. {p..<p + n} \<subseteq> zone s \<longrightarrow> {p..<p + n} \<inter> used s \<noteq> {})
       else unat a = page_no a * PGSIZE \<and> {page_no a..<page_no a + n} \<subseteq> zone s - used s \<and>
         used s' = used s \<union> {page_no a..<page_no a + n})"
    and give_spec: "inv s \<Longrightarrow> 0 < n \<Longrightarrow> pg_ofs a = 0 \<Longrightarrow> {page_no a..<page_no a + n} \<subseteq> zone s \<inter> used s \<Longrightarrow>
      \<exists>s'. give a n s = Some s' \<and> inv s' \<and> zone s' = zone s \<and> used s' = used s - {page_no a..<page_no a + n}"
begin

lemma get_give:
  assumes "inv s" "0 < n" "get n s = Some (a, s1)" "a \<noteq> 0"
  shows "\<exists>s2. give a n s1 = Some s2 \<and> inv s2 \<and> used s2 = used s"
proof -
  have *: "inv s1" "zone s1 = zone s" "unat a = page_no a * PGSIZE" "{page_no a..<page_no a + n} \<subseteq> zone s - used s"
      "used s1 = used s \<union> {page_no a..<page_no a + n}"
    using get_spec [OF assms(1,2)] assms(3,4) by auto
  have "pg_ofs a = 0"
    using aligned_intro [OF *(3)] by simp
  moreover have "{page_no a..<page_no a + n} \<subseteq> zone s1 \<inter> used s1"
    using * by auto
  moreover have "used s1 - {page_no a..<page_no a + n} = used s"
    using *(4,5) by blast
  ultimately show ?thesis
    using give_spec [OF *(1) assms(2)] by metis
qed

end

text \<open>Single pages asked for one after the other, until the source is exhausted.\<close>

fun get_pages :: "(nat \<Rightarrow> 's \<Rightarrow> (u32 \<times> 's) option) \<Rightarrow> nat \<Rightarrow> 's \<Rightarrow> (u32 list \<times> 's) option" where
  "get_pages get 0 s = Some ([], s)"
| "get_pages get (Suc k) s = do {
     (a, s) \<leftarrow> get 1 s;
     if a = 0 then Some ([], s)
     else do { (as, s) \<leftarrow> get_pages get k s; Some (a # as, s) } }"

context page_source
begin

lemma get_pages_distinct:
  assumes "inv s"
  shows "\<exists>as s'. get_pages get k s = Some (as, s') \<and> inv s' \<and> distinct (map page_no as) \<and>
    page_no ` set as \<subseteq> zone s - used s \<and> used s' = used s \<union> page_no ` set as \<and> zone s' = zone s \<and>
    (length as = k \<or> zone s \<subseteq> used s')"
  using assms
proof (induction k arbitrary: s)
  case (Suc k)
  obtain a s1 where a: "get 1 s = Some (a, s1)" "inv s1" "zone s1 = zone s"
      "if a = 0 then s1 = s \<and> (\<forall>p. {p..<p + 1} \<subseteq> zone s \<longrightarrow> {p..<p + 1} \<inter> used s \<noteq> {})
       else unat a = page_no a * PGSIZE \<and> {page_no a..<page_no a + 1} \<subseteq> zone s - used s \<and>
         used s1 = used s \<union> {page_no a..<page_no a + 1}"
    using get_spec [OF Suc.prems zero_less_one] by blast
  show ?case
  proof (cases "a = 0")
    case True
    then have "zone s \<subseteq> used s"
      using a(4) by auto
    with True a(1,2,4) show ?thesis
      by simp
  next
    case False
    have sg: "page_no a \<in> zone s - used s" "used s1 = insert (page_no a) (used s)"
      using False a(4) by auto
    obtain as s2 where r: "get_pages get k s1 = Some (as, s2)" "inv s2" "distinct (map page_no as)"
        "page_no ` set as \<subseteq> zone s1 - used s1" "used s2 = used s1 \<union> page_no ` set as" "zone s2 = zone s1"
        "length as = k \<or> zone s1 \<subseteq> used s2"
      using Suc.IH [OF a(2)] by blast
    have "get_pages get (Suc k) s = Some (a # as, s2)"
      using False a(1) r(1) by simp
    moreover have "distinct (map page_no (a # as))"
      using r(3,4) sg(2) by auto
    moreover have "page_no ` set (a # as) \<subseteq> zone s - used s" "used s2 = used s \<union> page_no ` set (a # as)"
      using r(4,5) a(3) sg by auto
    moreover have "length (a # as) = Suc k \<or> zone s \<subseteq> used s2"
      using r(7) a(3) by auto
    ultimately show ?thesis
      using r(2,6) a(3) by blast
  qed
qed simp

end

lemma no_assert_flags: "0 AND PAL_ASSERT = 0" "PAL_USER AND PAL_ASSERT = 0" "PAL_ZERO AND PAL_ASSERT = 0"
    "0 AND PAL_USER = 0" "PAL_USER AND PAL_USER \<noteq> 0"
  by (simp_all add: PAL_ASSERT_def PAL_USER_def PAL_ZERO_def)

lemma palloc_source:
  assumes "flags \<in> {0, PAL_USER}"
  shows "page_source memory_ok used_pages (\<lambda>s. pool_range (pool_for flags s)) (palloc_get_multiple flags) palloc_free_multiple"
proof
  have na: "flags AND PAL_ASSERT = 0"
    using assms no_assert_flags by auto
  have fl: "flags = 0 \<or> flags = PAL_USER"
    using assms by auto
  show "\<exists>a s'. palloc_get_multiple flags n s = Some (a, s') \<and> memory_ok s' \<and>
      pool_range (pool_for flags s') = pool_range (pool_for flags s) \<and>
      (if a = 0 then s' = s \<and> (\<forall>p. {p..<p + n} \<subseteq> pool_range (pool_for flags s) \<longrightarrow> {p..<p + n} \<inter> used_pages s \<noteq> {})
       else unat a = page_no a * PGSIZE \<and> {page_no a..<page_no a + n} \<subseteq> pool_range (pool_for flags s) - used_pages s \<and>
         used_pages s' = used_pages s \<union> {page_no a..<page_no a + n})"
    if "memory_ok s" "0 < n" for s n
    using palloc_get_multiple_ok [OF that, of flags]
  proof (elim disjE)
    assume "palloc_get_multiple flags n s = (if flags AND PAL_ASSERT \<noteq> 0 then None else Some (0, s)) \<and>
      (\<forall>p. {p..<p + n} \<subseteq> pool_range (pool_for flags s) \<longrightarrow> {p..<p + n} \<inter> used_pages s \<noteq> {})"
    then show ?thesis
      using na that(1) by simp
  qed (use fl in metis)
  show "\<exists>s'. palloc_free_multiple a n s = Some s' \<and> memory_ok s' \<and>
      pool_range (pool_for flags s') = pool_range (pool_for flags s) \<and>
      used_pages s' = used_pages s - {page_no a..<page_no a + n}"
    if "memory_ok s" "0 < n" "pg_ofs a = 0" "{page_no a..<page_no a + n} \<subseteq> pool_range (pool_for flags s) \<inter> used_pages s" for s n a
    using palloc_free_multiple_ok [OF that assms] by blast
qed

interpretation kernel_pages: page_source memory_ok used_pages "\<lambda>s. pool_range (pool_for 0 s)"
  "palloc_get_multiple 0" palloc_free_multiple
  by (rule palloc_source) simp

interpretation user_pages: page_source memory_ok used_pages "\<lambda>s. pool_range (pool_for PAL_USER s)"
  "palloc_get_multiple PAL_USER" palloc_free_multiple
  by (rule palloc_source) simp

section \<open>Start-up\<close>

lemma buf_size_eq:
  assumes "n \<le> 1048576"
  shows "bitmap_buf_size n = 8 + 4 * DIV_ROUND_UP n 32"
proof -
  have "n + 31 < SIZE_MOD"
    using assms by simp
  moreover have "DIV_ROUND_UP n 32 \<le> 32768"
    using assms by (simp add: DIV_ROUND_UP_le_iff)
  ultimately show ?thesis
    by (simp add: bitmap_buf_size_def byte_cnt_def elem_cnt_nowrap size_add_def)
qed

lemma bitmap_pages_fit:
  assumes "0 < n" "n \<le> 1048576"
  shows "DIV_ROUND_UP (bitmap_buf_size n) PGSIZE \<le> n"
proof -
  have "DIV_ROUND_UP n 32 \<le> n"
    using assms(1) by (simp add: DIV_ROUND_UP_le_iff)
  then have "bitmap_buf_size n \<le> n * PGSIZE"
    unfolding buf_size_eq [OF assms(2)] PGSIZE_eq using assms(1) by linarith
  then show ?thesis
    by (simp add: DIV_ROUND_UP_le_iff PGSIZE_eq)
qed

lemma bitmap_create_in_buf_ok:
  assumes "length es = elem_cnt n" "n + 31 < SIZE_MOD" "bitmap_buf_size n \<le> sz"
  shows "\<exists>b. bitmap_create_in_buf n es sz = Some b \<and> bitmap_ok b \<and> bit_cnt b = n \<and> used_bits b = {}"
proof -
  let ?b = "\<lparr>bit_cnt = n, bits = es\<rparr>"
  have "bitmap_ok ?b"
    using assms by (simp add: bitmap_ok_def)
  then obtain b where b: "bitmap_set_multiple ?b 0 n False = Some b" "bitmap_ok b" "bit_cnt b = bit_cnt ?b"
      "used_bits b = used_bits ?b - {0..<0 + n}"
    using bitmap_allocator.release_spec [of ?b 0 n] by force
  have "used_bits ?b \<subseteq> {0..<0 + n}"
    by (auto simp: used_bits_def)
  then have "used_bits b = {}"
    using b(4) by blast
  moreover have "bitmap_create_in_buf n es sz = Some b"
    using assms(3) b(1) by (simp add: bitmap_create_in_buf_def bitmap_set_all_def bitmap_size_def)
  ultimately show ?thesis
    using b(2,3) by simp
qed

lemma init_pool_ok:
  assumes "pg_ofs base = 0" "is_kernel_vaddr base" "0 < n" "unat base + n * PGSIZE < 2 ^ 32"
  shows "\<exists>p. init_pool base n m = Some p \<and> pool_ok p \<and> pool_used p = {} \<and> page_no base < pool_start p \<and>
    pool_start p + pool_size p = page_no base + n"
proof -
  have n: "n \<le> 1048576"
    using assms(4) by (simp add: PGSIZE_eq)
  define k where "k = DIV_ROUND_UP (bitmap_buf_size n) PGSIZE"
  have k: "k \<le> n" "0 < k"
    using bitmap_pages_fit [OF assms(3) n] by (simp_all add: k_def less_DIV_ROUND_UP_iff PGSIZE_eq buf_size_eq [OF n])
  have nk: "n - k + 31 < SIZE_MOD"
    using n by simp
  have "DIV_ROUND_UP (n - k) 32 \<le> DIV_ROUND_UP n 32"
    by (simp add: DIV_ROUND_UP_def div_le_mono)
  then have "bitmap_buf_size (n - k) \<le> bitmap_buf_size n"
    using n by (simp add: buf_size_eq)
  also have "\<dots> \<le> k * PGSIZE"
    using DIV_ROUND_UP_le_iff [of PGSIZE "bitmap_buf_size n" k] by (simp add: k_def PGSIZE_eq)
  finally have "bitmap_buf_size (n - k) \<le> k * PGSIZE" .
  have bs: "bitmap_buf_size (n - k) \<le> k * PGSIZE mod SIZE_MOD"
  proof -
    have "k * PGSIZE < SIZE_MOD"
      using k(1) assms(4) by (simp add: PGSIZE_eq)
    then show ?thesis
      using \<open>bitmap_buf_size (n - k) \<le> k * PGSIZE\<close> by simp
  qed
  obtain b where b: "bitmap_create_in_buf (n - k) (map (\<lambda>i. load32 m (unat base + 8 + 4 * i)) [0..<elem_cnt (n - k)])
      (k * PGSIZE mod SIZE_MOD) = Some b" "bitmap_ok b" "bit_cnt b = n - k" "used_bits b = {}"
    using bitmap_create_in_buf_ok [OF _ _ bs, of "map (\<lambda>i. load32 m (unat base + 8 + 4 * i)) [0..<elem_cnt (n - k)]"] n
    by (metis (no_types, lifting) length_map length_upt minus_nat.diff_0 nk)
  define p where "p = \<lparr>used_map = b, pool_base = base + of_nat (k * PGSIZE)\<rparr>"
  have ini: "init_pool base n m = Some p"
    using b(1) k by (simp add: init_pool_def p_def k_def [symmetric] Let_def)
  have le: "unat base + k * PGSIZE < 2 ^ 32"
    using assms(4) k(1) by (simp add: PGSIZE_eq)
  have "base + of_nat (k * PGSIZE) = of_nat (unat base + k * PGSIZE)"
    by simp
  then have ub: "unat (pool_base p) = unat base + k * PGSIZE"
    using le u32_of_nat [of "unat base + k * PGSIZE"] by (simp add: p_def)
  then have ub2: "unat (pool_base p) = (page_no base + k) * PGSIZE"
    using aligned_unat [OF assms(1)] by (simp add: algebra_simps)
  have st: "pool_start p = page_no base + k"
    unfolding pool_start_def ub2 by (simp add: PGSIZE_eq)
  have "is_kernel_vaddr (pool_base p)"
    using assms(2) ub by (simp add: is_kernel_vaddr_def word_le_nat_alt)
  moreover have "(page_no base + n) * PGSIZE \<le> 2 ^ 32"
    using assms(4) aligned_unat [OF assms(1)] by (simp add: algebra_simps)
  ultimately have "pool_ok p"
    using b k st aligned_intro [OF ub2] by (simp add: pool_ok_def pool_size_def p_def)
  then show ?thesis
    using ini st b k by (simp add: pool_used_def pool_size_def p_def)
qed

lemma sdiv_pages:
  assumes "F * PGSIZE < 2 ^ 32" "E \<le> F" "unat (e :: u32) = E * PGSIZE" "unat (f :: u32) = F * PGSIZE" "(F - E) * PGSIZE < 2 ^ 31"
  shows "unat (word_of_int (sint (f - e) sdiv int PGSIZE) :: u32) = F - E"
proof -
  have "e \<le> f"
    using assms(2-4) by (simp add: word_le_nat_alt)
  then have u: "unat (f - e) = (F - E) * PGSIZE"
    using assms(3,4) by (simp add: unat_sub diff_mult_distrib)
  then have "sint (f - e) = int ((F - E) * PGSIZE)"
  proof -
    have "uint (f - e) < 2 ^ 31"
      using assms(5) u by (metis of_nat_less_iff of_nat_numeral of_nat_power of_nat_unat unsigned_of_nat semiring_1_class.of_nat_power)
    moreover have "- (2 ^ 31) \<le> uint (f - e)"
      by (rule order_trans [OF _ uint_ge_0]) simp
    ultimately have "sint (f - e) = uint (f - e)"
      using signed_take_bit_int_eq_self [of 31 "uint (f - e)"] by (simp add: sint_uint)
    then show ?thesis
      using u by (metis of_nat_unat)
  qed
  then have "sint (f - e) sdiv int PGSIZE = int (F - E)"
    by (cases "F - E") (simp_all add: signed_divide_int_def PGSIZE_eq sgn_mult)
  then show ?thesis
    using assms(5) u32_of_nat [of "F - E"] by (simp add: PGSIZE_eq)
qed

text \<open>The free memory that start-up finds.\<close>

lemma free_memory:
  assumes "is_kernel_vaddr image_end" "ram_pages < 2 ^ 18" "first = DIV_ROUND_UP (unat image_end) PGSIZE"
    "end_page = unat PHYS_BASE div PGSIZE + ram_pages" "first + 2 \<le> end_page"
  shows "end_page * PGSIZE < 2 ^ 32" "unat (pg_round_up image_end) = first * PGSIZE"
    "is_kernel_vaddr (pg_round_up image_end)"
    "palloc_init image_end ram_pages limit m = (let user_pages = min ((end_page - first) div 2) limit in do {
       kp \<leftarrow> init_pool (pg_round_up image_end) (end_page - first - user_pages) m;
       up \<leftarrow> init_pool (pg_round_up image_end + of_nat ((end_page - first - user_pages) * PGSIZE)) user_pages m;
       Some \<lparr>kernel_pool = kp, user_pool = up, ram = m\<rparr> })"
proof -
  show E: "end_page * PGSIZE < 2 ^ 32"
    using assms(2,4,5) by (simp add: PHYS_BASE_def PGSIZE_eq)
  have "unat image_end \<le> first * PGSIZE"
    using DIV_ROUND_UP_le_iff [of PGSIZE "unat image_end" first] assms(3) by (simp add: PGSIZE_eq)
  moreover have "unat PHYS_BASE \<le> unat image_end"
    using assms(1) by (simp only: is_kernel_vaddr_def word_le_nat_alt)
  ultimately have phys: "unat PHYS_BASE \<le> first * PGSIZE" "unat image_end \<le> first * PGSIZE"
    by linarith+
  have "unat image_end + PGSIZE \<le> 2 ^ 32"
    using E phys(2) assms(5) by (simp add: PGSIZE_eq)
  then show st: "unat (pg_round_up image_end) = first * PGSIZE"
    by (simp add: unat_pg_round_up ROUND_UP_def assms(3) DIV_ROUND_UP_def)
  then show "is_kernel_vaddr (pg_round_up image_end)"
    using phys(1) by (simp only: is_kernel_vaddr_def word_le_nat_alt)
  have "(of_nat (ram_pages * PGSIZE) :: u32) < PHYS_BASE"
    using assms(2) u32_of_nat [of "ram_pages * 4096"] by (simp add: word_less_nat_alt PHYS_BASE_def PGSIZE_eq)
  then have fe: "ptov (of_nat (ram_pages * PGSIZE)) = Some (of_nat (end_page * PGSIZE))"
    by (simp add: ptov_def PHYS_BASE_def assms(4) PGSIZE_eq)
  have ue: "unat (of_nat (end_page * PGSIZE) :: u32) = end_page * PGSIZE"
    by (rule u32_of_nat) (use E in simp)
  have "unat (word_of_int (sint (of_nat (end_page * PGSIZE) - pg_round_up image_end) sdiv int PGSIZE) :: u32) = end_page - first"
    using E phys assms(5) by (intro sdiv_pages [OF _ _ st ue]) (auto simp: PHYS_BASE_def PGSIZE_eq)
  then show "palloc_init image_end ram_pages limit m = (let user_pages = min ((end_page - first) div 2) limit in do {
       kp \<leftarrow> init_pool (pg_round_up image_end) (end_page - first - user_pages) m;
       up \<leftarrow> init_pool (pg_round_up image_end + of_nat ((end_page - first - user_pages) * PGSIZE)) user_pages m;
       Some \<lparr>kernel_pool = kp, user_pool = up, ram = m\<rparr> })"
    using fe by (simp add: palloc_init_def Let_def min_def not_le)
qed

lemma init_pool_0: "init_pool base 0 m = None"
  by (simp add: init_pool_def buf_size_eq DIV_ROUND_UP_def PGSIZE_eq)



text \<open>
  C13: Pages that the allocator hands out were free before, are in use afterwards, and are zero when that was
  asked for; the rest of memory is as before; and giving them back makes exactly them free again.
\<close>

theorem palloc_get_free:
  assumes "memory_ok s" "0 < n" "palloc_get_multiple flags n s = Some (pages, s1)" "pages \<noteq> 0"
  shows "pg_ofs pages = 0 \<and> {page_no pages..<page_no pages + n} \<subseteq> pool_range (pool_for flags s) - used_pages s \<and>
    memory_ok s1 \<and> used_pages s1 = used_pages s \<union> {page_no pages..<page_no pages + n} \<and>
    (flags AND PAL_ZERO \<noteq> 0 \<longrightarrow> (\<forall>a\<in>pages_bytes (page_no pages) n. ram s1 a = 0)) \<and>
    (\<forall>a. a \<notin> pages_bytes (page_no pages) n \<longrightarrow> ram s1 a = ram s a) \<and>
    (\<exists>s2. palloc_free_multiple pages n s1 = Some s2 \<and> memory_ok s2 \<and> used_pages s2 = used_pages s)"
proof -
  let ?R = "{page_no pages..<page_no pages + n}"
  have *: "memory_ok s1" "unat pages = page_no pages * PGSIZE" "?R \<subseteq> pool_range (pool_for flags s) - used_pages s"
      "used_pages s1 = used_pages s \<union> ?R" "pool_range (pool_for 0 s1) = pool_range (pool_for 0 s)"
      "pool_range (pool_for PAL_USER s1) = pool_range (pool_for PAL_USER s)"
      "ram s1 = (if flags AND PAL_ZERO \<noteq> 0 then filled (pages_bytes (page_no pages) n) 0 (ram s) else ram s)"
    using palloc_get_multiple_ok [OF assms(1,2), of flags] assms(3,4) by (auto split: if_splits)
  define f where "f = (if flags AND PAL_USER \<noteq> 0 then PAL_USER else 0)"
  have pf: "pool_for flags s = pool_for f s" "f \<in> {0, PAL_USER}"
    by (auto simp: pool_for_def f_def PAL_USER_def)
  then have "?R \<subseteq> pool_range (pool_for f s1) \<inter> used_pages s1"
    using *(3-6) by auto
  moreover have al: "pg_ofs pages = 0"
    using aligned_intro [OF *(2)] by simp
  ultimately obtain s2 where "palloc_free_multiple pages n s1 = Some s2" "memory_ok s2" "used_pages s2 = used_pages s1 - ?R"
    using palloc_free_multiple_ok [OF *(1) assms(2) _ _ pf(2)] by blast
  moreover have "used_pages s1 - ?R = used_pages s"
    using *(3,4) by blast
  ultimately show ?thesis
    using * al by (auto simp: filled_def)
qed

definition sample_memory :: memory where
  "sample_memory = \<lparr>kernel_pool = \<lparr>used_map = \<lparr>bit_cnt = 3, bits = [1]\<rparr>, pool_base = 0xc0101000\<rparr>,
     user_pool = \<lparr>used_map = \<lparr>bit_cnt = 2, bits = [0]\<rparr>, pool_base = 0xc0105000\<rparr>, ram = (\<lambda>_. 7)\<rparr>"

lemma sample_memory_ok: "memory_ok sample_memory"
  by (simp add: sample_memory_def memory_ok_def pool_ok_def pool_start_def pool_size_def bitmap_ok_def elem_cnt_def
      PGSIZE_eq is_kernel_vaddr_def PHYS_BASE_def pg_ofs_take_bit take_bit_eq_mod)

lemma sample_memory_used: "used_pages sample_memory = {0xc0101}" "pool_range (pool_for flags sample_memory) =
    (if flags AND PAL_USER \<noteq> 0 then {0xc0105, 0xc0106} else {0xc0101, 0xc0102, 0xc0103})"
proof -
  have "used_bits \<lparr>bit_cnt = 3, bits = [1]\<rparr> = {0}"
    by (auto simp: used_bits_def nth_bits_of bit_1_iff)
  moreover have "used_bits \<lparr>bit_cnt = 2, bits = [0]\<rparr> = {}"
    by (auto simp: used_bits_def nth_bits_of)
  ultimately show "used_pages sample_memory = {0xc0101}"
    by (simp add: used_pages_def pool_used_def pool_start_def sample_memory_def PGSIZE_eq)
  show "pool_range (pool_for flags sample_memory) =
      (if flags AND PAL_USER \<noteq> 0 then {0xc0105, 0xc0106} else {0xc0101, 0xc0102, 0xc0103})"
    by (auto simp: pool_range_def pool_for_def pool_start_def pool_size_def sample_memory_def PGSIZE_eq)
qed

theorem palloc_get_free_witness:
  "\<exists>pages s1 s2. palloc_get_multiple PAL_ZERO 1 sample_memory = Some (pages, s1) \<and> pages \<noteq> 0 \<and>
     ram s1 (unat pages) = 0 \<and> palloc_free_multiple pages 1 s1 = Some s2 \<and> used_pages s2 = used_pages sample_memory"
proof -
  have "{0xc0102..<0xc0102 + 1} \<subseteq> pool_range (pool_for PAL_ZERO sample_memory)"
      "{0xc0102..<0xc0102 + 1} \<inter> used_pages sample_memory = {}"
    by (auto simp: sample_memory_used PAL_ZERO_def PAL_USER_def)
  then obtain pages s1 where g: "palloc_get_multiple PAL_ZERO 1 sample_memory = Some (pages, s1)" "pages \<noteq> 0"
      "unat pages = page_no pages * PGSIZE"
    using palloc_get_multiple_ok [OF sample_memory_ok zero_less_one, of PAL_ZERO] by blast
  note * = palloc_get_free [OF sample_memory_ok zero_less_one g(1,2)]
  have "unat pages \<in> pages_bytes (page_no pages) 1"
    using g(3) by (simp add: pages_bytes_def PGSIZE_eq)
  moreover have "PAL_ZERO AND PAL_ZERO \<noteq> 0"
    by (simp add: PAL_ZERO_def)
  ultimately have "ram s1 (unat pages) = 0"
    using * by blast
  then show ?thesis
    using g * by blast
qed

lemma palloc_free_page_unused:
  assumes "memory_ok s" "pg_ofs page = 0" "page \<noteq> 0" "page_no page \<notin> used_pages s"
  shows "palloc_free_page page s = None"
proof (cases "page_no page \<in> pool_range (kernel_pool s) \<or> page_no page \<in> pool_range (user_pool s)")
  case False
  then show ?thesis
    using assms(1,3) by (simp add: palloc_free_page_def palloc_free_multiple_def memory_ok_def page_from_pool_iff)
next
  case True
  define f where "f = (if page_no page \<in> pool_range (kernel_pool s) then 0 else PAL_USER)"
  have sel: "(if page_from_pool (kernel_pool s) page then Some 0
      else if page_from_pool (user_pool s) page then Some PAL_USER else None) = Some f"
    using True assms(1) page_from_pool_iff [of "kernel_pool s"] page_from_pool_iff [of "user_pool s"]
    by (auto simp: f_def memory_ok_def)
  have r: "page_no page \<in> pool_range (pool_for f s)"
    using True by (auto simp: f_def pool_for_def PAL_USER_def)
  note P = memory_ok_pool_for [OF assms(1), of f]
  obtain i where i: "page_no page = pool_start (pool_for f s) + i" "i + 1 \<le> pool_size (pool_for f s)"
    using page_run_index [of "page_no page" 1 "pool_for f s"] r by auto
  have "page_no page \<notin> pool_used (pool_for f s)"
    using assms(4) by (auto simp: used_pages_def pool_for_def split: if_splits)
  then have "bitmap_all (used_map (pool_for f s)) i 1 = Some False"
    using P i bitmap_all_ok [of "used_map (pool_for f s)" i 1] pool_used_shift [of "pool_for f s" i]
    by (simp add: pool_ok_def pool_size_def)
  then show ?thesis
    using assms(2,3) sel free_page_idx [OF P i(1)]
    by (simp add: palloc_free_page_def palloc_free_multiple_def Let_def split: bind_split)
qed

lemma palloc_free_page_ok:
  assumes "memory_ok s" "pg_ofs page = 0" "page_no page \<in> used_pages s"
  shows "\<exists>s'. palloc_free_page page s = Some s' \<and> memory_ok s' \<and> used_pages s' = used_pages s - {page_no page} \<and>
    (\<forall>f. pool_range (pool_for f s') = pool_range (pool_for f s)) \<and>
    ram s' = filled (pages_bytes (page_no page) 1) 0xcc (ram s)"
proof -
  have "page_no page \<in> pool_range (pool_for 0 s) \<or> page_no page \<in> pool_range (pool_for PAL_USER s)"
    using assms(3) pool_used_range [of "kernel_pool s"] pool_used_range [of "user_pool s"]
    by (auto simp: used_pages_def pool_for_def PAL_USER_def)
  then obtain f where "{page_no page..<page_no page + 1} \<subseteq> pool_range (pool_for f s) \<inter> used_pages s" "f \<in> {0, PAL_USER}"
    using assms(3) by auto
  then obtain s' where "palloc_free_multiple page 1 s = Some s'" "memory_ok s'"
      "used_pages s' = used_pages s - {page_no page..<page_no page + 1}"
      "\<forall>f. pool_range (pool_for f s') = pool_range (pool_for f s)"
      "ram s' = filled (pages_bytes (page_no page) 1) 0xcc (ram s)"
    using palloc_free_multiple_ok [OF assms(1) zero_less_one assms(2)] by blast
  then show ?thesis
    by (simp add: palloc_free_page_def)
qed

text \<open>
  C29: Freeing a page succeeds exactly when the page is in use: a second free of a page, and a free of an
  address outside both pools, fail an assertion.
\<close>

theorem palloc_free_page_iff:
  assumes "memory_ok s" "pg_ofs page = 0" "page \<noteq> 0"
  shows "palloc_free_page page s \<noteq> None \<longleftrightarrow> page_no page \<in> used_pages s"
proof
  show "palloc_free_page page s \<noteq> None" if "page_no page \<in> used_pages s"
    using palloc_free_page_ok [OF assms(1,2) that] by auto
next
  show "page_no page \<in> used_pages s" if "palloc_free_page page s \<noteq> None"
    by (rule ccontr) (use that palloc_free_page_unused [OF assms] in contradiction)
qed

theorem palloc_free_page_iff_witness:
  "palloc_free_page 0xc0101000 sample_memory \<noteq> None \<and> palloc_free_page 0xc0102000 sample_memory = None"
proof -
  have "pg_ofs 0xc0101000 = 0 \<and> page_no 0xc0101000 = 0xc0101" "pg_ofs 0xc0102000 = 0 \<and> page_no 0xc0102000 = 0xc0102"
    by (rule aligned_intro; simp add: PGSIZE_eq)+
  then show ?thesis
    using palloc_free_page_iff [OF sample_memory_ok, of "0xc0101000"] palloc_free_page_iff [OF sample_memory_ok, of "0xc0102000"]
    by (simp add: sample_memory_used)
qed

end
