(* ===== verification/Disk.thy ===== *)
theory Disk
  imports Kstring Vaddr
begin

text \<open>
  The ATA disk driver, \<^verbatim>\<open>devices/disk.c\<close>. A channel has its command block registers, and the media of its
  two drives as the driver can see them: what a drive does with a command is decided by the registers, as
  the ATA standard has it: the device register selects the drive and, with the three LBA registers, gives
  the sector. The driver is shown to encode every sector number below \<open>2 ^ 28\<close> into the registers so that the
  drive decodes it, from which reading back what was written follows.

  A transfer is one step: the channel lock excludes other transfers, and the completion semaphore is raised
  by the interrupt that the drive sends. The interrupt level at the call and the answer of
  \<^verbatim>\<open>wait_while_busy\<close>, that the drive has data or wants data, are arguments: without either the transfer panics.
\<close>

section \<open>Definitions\<close>

record disk =
  is_ata :: bool
  capacity :: u32
  read_cnt :: int
  write_cnt :: int

record channel =
  reg_nsect :: u8
  reg_lbal :: u8
  reg_lbam :: u8
  reg_lbah :: u8
  reg_device :: u8
  irq :: nat
  expecting_interrupt :: bool
  devices :: "nat \<Rightarrow> disk"
  media :: "nat \<Rightarrow> nat \<Rightarrow> nat \<Rightarrow> u8"

type_synonym disks = "nat \<Rightarrow> channel"

text \<open>A disk is named by its channel and its device number.\<close>

type_synonym diskp = "nat \<times> nat"

definition DISK_SECTOR_SIZE :: nat where "DISK_SECTOR_SIZE = 512"
definition CHANNEL_CNT :: nat where "CHANNEL_CNT = 2"
definition STA_BSY :: u8 where "STA_BSY = 0x80"
definition STA_DRDY :: u8 where "STA_DRDY = 0x40"
definition DEV_MBS :: u8 where "DEV_MBS = 0xa0"
definition DEV_LBA :: u8 where "DEV_LBA = 0x40"
definition DEV_DEV :: u8 where "DEV_DEV = 0x10"

text \<open>The drive's side: which drive is selected and which sector the registers name.\<close>

definition selected :: "channel \<Rightarrow> nat" where
  "selected c = (if reg_device c AND DEV_DEV \<noteq> 0 then 1 else 0)"

definition lba :: "channel \<Rightarrow> u32" where
  "lba c = ucast (reg_lbal c) OR push_bit 8 (ucast (reg_lbam c)) OR push_bit 16 (ucast (reg_lbah c)) OR
     push_bit 24 (ucast (reg_device c AND 0x0f))"

definition disk_get :: "nat \<Rightarrow> nat \<Rightarrow> disks \<Rightarrow> diskp option option" where
  "disk_get chan_no dev_no cs = do {
     ASSERT (dev_no = 0 \<or> dev_no = 1);
     Some (if chan_no < CHANNEL_CNT \<and> is_ata (devices (cs chan_no) dev_no) then Some (chan_no, dev_no) else None) }"

definition disk_size :: "diskp \<Rightarrow> disks \<Rightarrow> u32" where
  "disk_size d cs = capacity (devices (cs (fst d)) (snd d))"

definition select_device :: "nat \<Rightarrow> channel \<Rightarrow> channel" where
  "select_device dev_no c = c\<lparr>reg_device := (if dev_no = 1 then DEV_MBS OR DEV_DEV else DEV_MBS)\<rparr>"

definition select_sector :: "nat \<Rightarrow> u32 \<Rightarrow> channel \<Rightarrow> channel option" where
  "select_sector dev_no sec_no c = do {
     ASSERT (sec_no < capacity (devices c dev_no));
     ASSERT (sec_no < 0x10000000);
     let c = select_device dev_no c;
     Some (c\<lparr>reg_nsect := 1, reg_lbal := ucast sec_no, reg_lbam := ucast (drop_bit 8 sec_no),
       reg_lbah := ucast (drop_bit 16 sec_no),
       reg_device := DEV_MBS OR DEV_LBA OR (if dev_no = 1 then DEV_DEV else 0) OR ucast (drop_bit 24 sec_no)\<rparr>) }"

definition issue_pio_command :: "bool \<Rightarrow> channel \<Rightarrow> channel option" where
  "issue_pio_command intr_on c = do { ASSERT intr_on; Some (c\<lparr>expecting_interrupt := True\<rparr>) }"

definition put_sector :: "(nat \<Rightarrow> u8) \<Rightarrow> mem \<Rightarrow> addr \<Rightarrow> mem" where
  "put_sector b m buffer = (\<lambda>a. if buffer \<le> a \<and> a < buffer + DISK_SECTOR_SIZE then b (a - buffer) else m a)"

definition input_sector :: "channel \<Rightarrow> mem \<Rightarrow> addr \<Rightarrow> mem" where
  "input_sector c m buffer = put_sector (media c (selected c) (unat (lba c))) m buffer"

definition sector_at :: "mem \<Rightarrow> addr \<Rightarrow> nat \<Rightarrow> u8" where
  "sector_at m buffer = (\<lambda>i. if i < DISK_SECTOR_SIZE then m (buffer + i) else 0)"

definition output_sector :: "mem \<Rightarrow> addr \<Rightarrow> channel \<Rightarrow> channel" where
  "output_sector m buffer c =
     c\<lparr>media := (media c)(selected c := (media c (selected c))(unat (lba c) := sector_at m buffer))\<rparr>"

definition disk_read :: "bool \<Rightarrow> bool \<Rightarrow> diskp \<Rightarrow> u32 \<Rightarrow> addr \<Rightarrow> mem \<Rightarrow> disks \<Rightarrow> (mem \<times> disks) option" where
  "disk_read intr_on drq d sec_no buffer m cs = do {
     ASSERT (buffer \<noteq> NULL);
     c \<leftarrow> select_sector (snd d) sec_no (cs (fst d));
     c \<leftarrow> issue_pio_command intr_on c;
     ASSERT drq;
     let m = input_sector c m buffer;
     let dev = devices c (snd d);
     let c = c\<lparr>devices := (devices c)(snd d := dev\<lparr>read_cnt := read_cnt dev + 1\<rparr>)\<rparr>;
     Some (m, cs(fst d := c)) }"

definition disk_write :: "bool \<Rightarrow> bool \<Rightarrow> diskp \<Rightarrow> u32 \<Rightarrow> addr \<Rightarrow> mem \<Rightarrow> disks \<Rightarrow> disks option" where
  "disk_write intr_on drq d sec_no buffer m cs = do {
     ASSERT (buffer \<noteq> NULL);
     c \<leftarrow> select_sector (snd d) sec_no (cs (fst d));
     c \<leftarrow> issue_pio_command intr_on c;
     ASSERT drq;
     let c = output_sector m buffer c;
     let dev = devices c (snd d);
     let c = c\<lparr>devices := (devices c)(snd d := dev\<lparr>write_cnt := write_cnt dev + 1\<rparr>)\<rparr>;
     Some (cs(fst d := c)) }"

text \<open>Detection of a drive from its registers, and its capacity from the words of its identification.\<close>

definition check_device_type :: "nat \<Rightarrow> u8 \<Rightarrow> u8 \<Rightarrow> u8 \<Rightarrow> u8 \<Rightarrow> channel \<Rightarrow> bool \<times> channel" where
  "check_device_type dev_no error lbam lbah status c =
     (let c = select_device dev_no c;
          set_ata = (\<lambda>b. c\<lparr>devices := (devices c)(dev_no := (devices c dev_no)\<lparr>is_ata := b\<rparr>)\<rparr>)
      in if (error \<noteq> 1 \<and> (error \<noteq> 0x81 \<or> dev_no = 1)) \<or> status AND STA_DRDY = 0 \<or> status AND STA_BSY \<noteq> 0
         then (error \<noteq> 0x81, set_ata False)
         else (True, set_ata (lbam = 0 \<and> lbah = 0 \<or> lbam = 0x3c \<and> lbah = 0xc3)))"

definition identify_ata_device :: "bool \<Rightarrow> bool \<Rightarrow> (nat \<Rightarrow> u16) \<Rightarrow> nat \<Rightarrow> channel \<Rightarrow> channel option" where
  "identify_ata_device intr_on drq ident dev_no c = do {
     ASSERT (is_ata (devices c dev_no));
     let c = select_device dev_no c;
     c \<leftarrow> issue_pio_command intr_on c;
     let dev = devices c dev_no;
     let dev = (if drq then dev\<lparr>capacity := ucast (ident 60) OR push_bit 16 (ucast (ident 61))\<rparr> else dev\<lparr>is_ata := False\<rparr>);
     Some (c\<lparr>devices := (devices c)(dev_no := dev)\<rparr>) }"

text \<open>The interrupt handler: the channel whose completion semaphore is raised, or none when the channel of the
  vector expects no interrupt; another vector is a panic.\<close>

fun interrupt_loop :: "nat \<Rightarrow> disks \<Rightarrow> nat list \<Rightarrow> nat option option" where
  "interrupt_loop vec_no cs [] = None"
| "interrupt_loop vec_no cs (i # rest) =
     (if vec_no = irq (cs i) then Some (if expecting_interrupt (cs i) then Some i else None)
      else interrupt_loop vec_no cs rest)"

definition interrupt_handler :: "nat \<Rightarrow> disks \<Rightarrow> nat option option" where
  "interrupt_handler vec_no cs = interrupt_loop vec_no cs [0..<CHANNEL_CNT]"

section \<open>Sector selection\<close>

text \<open>What the drives hold, sector by sector.\<close>

definition stored :: "disks \<Rightarrow> diskp \<Rightarrow> nat \<Rightarrow> nat \<Rightarrow> u8" where
  "stored cs d sec = media (cs (fst d)) (snd d) sec"

definition disk_ok :: "diskp \<Rightarrow> disks \<Rightarrow> bool" where
  "disk_ok d cs \<longleftrightarrow> fst d < CHANNEL_CNT \<and> (snd d = 0 \<or> snd d = 1) \<and> is_ata (devices (cs (fst d)) (snd d)) \<and> capacity (devices (cs (fst d)) (snd d)) \<le> 0x10000000"

lemma select_sector_decodes:
  assumes "select_sector dev_no sec_no c = Some c'" "dev_no = 0 \<or> dev_no = 1"
  shows "selected c' = dev_no" "lba c' = sec_no" "media c' = media c" "devices c' = devices c" "irq c' = irq c"
proof -
  have sec: "sec_no < 0x10000000"
    and c': "reg_device c' = DEV_MBS OR DEV_LBA OR (if dev_no = 1 then DEV_DEV else 0) OR ucast (drop_bit 24 sec_no)"
      "reg_lbal c' = ucast sec_no" "reg_lbam c' = ucast (drop_bit 8 sec_no)" "reg_lbah c' = ucast (drop_bit 16 sec_no)"
    using assms(1) by (auto simp: select_sector_def select_device_def Let_def split: if_splits)
  have "take_bit 28 sec_no = sec_no"
    using sec by (simp add: word_unat_eq_iff take_bit_eq_mod unat_mod word_less_nat_alt)
  then have hi: "\<not> bit sec_no n" if "28 \<le> n" for n
    using that by (metis bit_take_bit_iff not_le)
  let ?u = "ucast (drop_bit 24 sec_no) :: u8"
  have u4: "\<not> bit ?u 4"
    using hi [of 28] by (simp add: bit_simps)
  have "?u AND 2 ^ 4 = 0"
    by (rule bit_word_eqI) (use u4 in \<open>auto simp: bit_and_iff bit_exp_iff bit_0_eq simp del: bit_ucast_iff power_numeral\<close>)
  then have "?u AND 0x10 = 0"
    by simp
  then have sel: "reg_device c' AND 0x10 = (if dev_no = 1 then 0x10 else 0)"
    unfolding c'(1) by (simp add: DEV_MBS_def DEV_LBA_def DEV_DEV_def bit.conj_disj_distrib2)
  have "reg_device c' AND 0x0f = ?u AND 0x0f"
    unfolding c'(1) by (simp add: DEV_MBS_def DEV_LBA_def DEV_DEV_def bit.conj_disj_distrib2)
  moreover have "(0x0f :: u8) = mask 4"
    by (simp add: mask_eq_exp_minus_1)
  ultimately have dev: "reg_device c' AND 0x0f = take_bit 4 ?u"
    by (simp add: take_bit_eq_mask)
  show "lba c' = sec_no"
  proof (rule bit_word_eqI)
    fix n
    assume "n < LENGTH(32)"
    then consider "n < 8" | "8 \<le> n" "n < 16" | "16 \<le> n" "n < 24" | "24 \<le> n" "n < 28" | "28 \<le> n" "n < 32"
      by fastforce
    then show "bit (lba c') n \<longleftrightarrow> bit sec_no n"
      unfolding lba_def c'(2-4) dev using hi by cases (auto simp: bit_simps)
  qed
  show "selected c' = dev_no"
    using sel assms(2) by (auto simp: selected_def DEV_DEV_def)
  show "media c' = media c" "devices c' = devices c" "irq c' = irq c"
    using assms(1) by (auto simp: select_sector_def select_device_def Let_def split: if_splits)
qed

section \<open>Transfers\<close>

text \<open>Two states with the same drives and, but for counters and registers, the same channels.\<close>

definition same_drives :: "disks \<Rightarrow> disks \<Rightarrow> bool" where
  "same_drives cs cs' \<longleftrightarrow> (\<forall>d. disk_ok d cs' = disk_ok d cs \<and> disk_size d cs' = disk_size d cs)"

lemma same_drivesD:
  "same_drives cs cs' \<Longrightarrow> disk_ok d cs' = disk_ok d cs" "same_drives cs cs' \<Longrightarrow> disk_size d cs' = disk_size d cs"
  unfolding same_drives_def by blast+

lemma disk_write_ok:
  assumes "disk_ok d cs" "sec_no < disk_size d cs" "buffer \<noteq> NULL"
  shows "\<exists>cs'. disk_write True True d sec_no buffer m cs = Some cs' \<and> same_drives cs cs' \<and>
    (\<forall>d' k. stored cs' d' k = (if d' = d \<and> k = unat sec_no then sector_at m buffer else stored cs d' k))"
proof -
  obtain ch dv where d: "d = (ch, dv)"
    by (cases d)
  have "sec_no < 0x10000000"
    using assms(1,2) by (auto simp: disk_ok_def disk_size_def)
  then obtain c where c: "select_sector dv sec_no (cs ch) = Some c"
    using assms(2) by (simp add: select_sector_def disk_size_def d Let_def)
  note S = select_sector_decodes [OF c]
  have "dv = 0 \<or> dv = 1"
    using assms(1) by (simp add: disk_ok_def d)
  note S = S [OF this]
  define c1 where "c1 = output_sector m buffer (c\<lparr>expecting_interrupt := True\<rparr>)"
  define c2 where "c2 = c1\<lparr>devices := (devices c1)(dv := (devices c1 dv)\<lparr>write_cnt := write_cnt (devices c1 dv) + 1\<rparr>)\<rparr>"
  have "disk_write True True d sec_no buffer m cs = Some (cs(ch := c2))"
    using c assms(3) by (simp add: disk_write_def d issue_pio_command_def c1_def c2_def Let_def)
  moreover have md: "media c2 = (media (cs ch))(dv := (media (cs ch) dv)(unat sec_no := sector_at m buffer))"
    using S by (simp add: c2_def c1_def output_sector_def selected_def lba_def)
  moreover have "same_drives cs (cs(ch := c2))"
    using S(4) by (auto simp: same_drives_def disk_ok_def disk_size_def c2_def c1_def output_sector_def)
  ultimately show ?thesis
    by (auto simp: stored_def d)
qed

lemma disk_read_ok:
  assumes "disk_ok d cs" "sec_no < disk_size d cs" "buffer \<noteq> NULL"
  shows "\<exists>cs'. disk_read True True d sec_no buffer m cs = Some (put_sector (stored cs d (unat sec_no)) m buffer, cs') \<and>
    same_drives cs cs' \<and> stored cs' = stored cs"
proof -
  obtain ch dv where d: "d = (ch, dv)"
    by (cases d)
  have "sec_no < 0x10000000"
    using assms(1,2) by (auto simp: disk_ok_def disk_size_def)
  then obtain c where c: "select_sector dv sec_no (cs ch) = Some c"
    using assms(2) by (simp add: select_sector_def disk_size_def d Let_def)
  note S = select_sector_decodes [OF c]
  have "dv = 0 \<or> dv = 1"
    using assms(1) by (simp add: disk_ok_def d)
  note S = S [OF this]
  define c1 where "c1 = c\<lparr>expecting_interrupt := True\<rparr>"
  define c2 where "c2 = c1\<lparr>devices := (devices c1)(dv := (devices c1 dv)\<lparr>read_cnt := read_cnt (devices c1 dv) + 1\<rparr>)\<rparr>"
  have "disk_read True True d sec_no buffer m cs = Some (input_sector c1 m buffer, cs(ch := c2))"
    using c assms(3) by (simp add: disk_read_def d issue_pio_command_def c1_def c2_def Let_def)
  moreover have "input_sector c1 m buffer = put_sector (stored cs d (unat sec_no)) m buffer"
    using S by (simp add: input_sector_def c1_def stored_def d selected_def lba_def)
  moreover have "same_drives cs (cs(ch := c2))" "stored (cs(ch := c2)) = stored cs"
    using S(3,4) by (auto simp: same_drives_def disk_ok_def disk_size_def c2_def c1_def stored_def fun_eq_iff)
  ultimately show ?thesis
    by auto
qed

lemma disk_bounds:
  assumes "\<not> (sec_no < disk_size d cs)"
  shows "disk_read intr_on drq d sec_no buffer m cs = None" "disk_write intr_on drq d sec_no buffer m cs = None"
  using assms by (simp_all add: disk_read_def disk_write_def select_sector_def disk_size_def)

section \<open>Block devices\<close>

text \<open>
  What the users of a disk rely on, and transfers of several sectors in a row between the device and
  consecutive memory, as the swap code and the file system make them.
\<close>

locale block_device =
  fixes ok :: "'s \<Rightarrow> bool"
    and sectors :: "'s \<Rightarrow> nat"
    and data :: "'s \<Rightarrow> nat \<Rightarrow> nat \<Rightarrow> u8"
    and rd :: "nat \<Rightarrow> addr \<Rightarrow> mem \<Rightarrow> 's \<Rightarrow> (mem \<times> 's) option"
    and wr :: "nat \<Rightarrow> addr \<Rightarrow> mem \<Rightarrow> 's \<Rightarrow> 's option"
  assumes rd: "ok s \<Longrightarrow> n < sectors s \<Longrightarrow> a \<noteq> NULL \<Longrightarrow>
      \<exists>s'. rd n a m s = Some (put_sector (data s n) m a, s') \<and> ok s' \<and> sectors s' = sectors s \<and> data s' = data s"
    and wr: "ok s \<Longrightarrow> n < sectors s \<Longrightarrow> a \<noteq> NULL \<Longrightarrow>
      \<exists>s'. wr n a m s = Some s' \<and> ok s' \<and> sectors s' = sectors s \<and> data s' = (data s)(n := sector_at m a)"

fun read_run :: "(nat \<Rightarrow> addr \<Rightarrow> mem \<Rightarrow> 's \<Rightarrow> (mem \<times> 's) option) \<Rightarrow> nat \<Rightarrow> nat \<Rightarrow> addr \<Rightarrow> mem \<Rightarrow> 's \<Rightarrow> (mem \<times> 's) option" where
  "read_run rd 0 n a m s = Some (m, s)"
| "read_run rd (Suc k) n a m s = do {
     (m, s) \<leftarrow> rd n a m s;
     read_run rd k (n + 1) (a + DISK_SECTOR_SIZE) m s }"

fun write_run :: "(nat \<Rightarrow> addr \<Rightarrow> mem \<Rightarrow> 's \<Rightarrow> 's option) \<Rightarrow> nat \<Rightarrow> nat \<Rightarrow> addr \<Rightarrow> mem \<Rightarrow> 's \<Rightarrow> 's option" where
  "write_run wr 0 n a m s = Some s"
| "write_run wr (Suc k) n a m s = do {
     s \<leftarrow> wr n a m s;
     write_run wr k (n + 1) (a + DISK_SECTOR_SIZE) m s }"

lemma DISK_SECTOR_SIZE_pos: "0 < DISK_SECTOR_SIZE"
  by (simp add: DISK_SECTOR_SIZE_def)

context block_device
begin

lemma write_run_ok:
  assumes "ok s" "n + k \<le> sectors s" "a \<noteq> NULL"
  shows "\<exists>s'. write_run wr k n a m s = Some s' \<and> ok s' \<and> sectors s' = sectors s \<and>
    data s' = (\<lambda>j. if n \<le> j \<and> j < n + k then sector_at m (a + (j - n) * DISK_SECTOR_SIZE) else data s j)"
  using assms
proof (induction k arbitrary: n a s)
  case (Suc k)
  obtain s1 where s1: "wr n a m s = Some s1" "ok s1" "sectors s1 = sectors s" "data s1 = (data s)(n := sector_at m a)"
    using wr [OF Suc.prems(1) _ Suc.prems(3), of n m] Suc.prems(2) by auto
  obtain s2 where s2: "write_run wr k (n + 1) (a + DISK_SECTOR_SIZE) m s1 = Some s2" "ok s2" "sectors s2 = sectors s1"
      "data s2 = (\<lambda>j. if n + 1 \<le> j \<and> j < n + 1 + k
         then sector_at m (a + DISK_SECTOR_SIZE + (j - (n + 1)) * DISK_SECTOR_SIZE) else data s1 j)"
    using Suc.IH [OF s1(2), of "n + 1" "a + DISK_SECTOR_SIZE"] Suc.prems(2,3) s1(3) by auto
  have "data s2 j = (if n \<le> j \<and> j < n + Suc k then sector_at m (a + (j - n) * DISK_SECTOR_SIZE) else data s j)" for j
  proof (cases "n < j")
    case True
    then have "DISK_SECTOR_SIZE + (j - Suc n) * DISK_SECTOR_SIZE = (j - n) * DISK_SECTOR_SIZE"
      by (metis Suc_diff_Suc mult_Suc)
    then show ?thesis
      using True by (simp add: s2(4) s1(4) add.assoc)
  qed (auto simp: s2(4) s1(4))
  then show ?case
    using s1 s2 by (simp add: fun_eq_iff)
qed (auto simp: fun_eq_iff)

lemma read_run_ok:
  assumes "ok s" "n + k \<le> sectors s" "a \<noteq> NULL"
  shows "\<exists>s'. read_run rd k n a m s = Some ((\<lambda>x. if a \<le> x \<and> x < a + k * DISK_SECTOR_SIZE
      then data s (n + (x - a) div DISK_SECTOR_SIZE) ((x - a) mod DISK_SECTOR_SIZE) else m x), s') \<and>
    ok s' \<and> sectors s' = sectors s \<and> data s' = data s"
  using assms
proof (induction k arbitrary: n a m s)
  case (Suc k)
  let ?Z = DISK_SECTOR_SIZE
  obtain s1 where s1: "rd n a m s = Some (put_sector (data s n) m a, s1)" "ok s1" "sectors s1 = sectors s" "data s1 = data s"
    using rd [OF Suc.prems(1) _ Suc.prems(3), of n m] Suc.prems(2) by auto
  obtain s2 where s2: "read_run rd k (n + 1) (a + ?Z) (put_sector (data s n) m a) s1 =
      Some ((\<lambda>x. if a + ?Z \<le> x \<and> x < a + ?Z + k * ?Z then data s1 (n + 1 + (x - (a + ?Z)) div ?Z) ((x - (a + ?Z)) mod ?Z)
        else put_sector (data s n) m a x), s2)" "ok s2" "sectors s2 = sectors s1" "data s2 = data s1"
    using Suc.IH [OF s1(2), of "n + 1" "a + ?Z" "put_sector (data s n) m a"] Suc.prems(2,3) s1(3) by auto
  have "(if a + ?Z \<le> x \<and> x < a + ?Z + k * ?Z then data s1 (n + 1 + (x - (a + ?Z)) div ?Z) ((x - (a + ?Z)) mod ?Z)
      else put_sector (data s n) m a x) =
    (if a \<le> x \<and> x < a + Suc k * ?Z then data s (n + (x - a) div ?Z) ((x - a) mod ?Z) else m x)" for x
  proof (cases "a + ?Z \<le> x")
    case True
    then have "(x - a) div ?Z = Suc ((x - (a + ?Z)) div ?Z)" "(x - a) mod ?Z = (x - (a + ?Z)) mod ?Z"
      using DISK_SECTOR_SIZE_pos by (simp_all add: le_div_geq [of ?Z "x - a"] le_mod_geq [of ?Z "x - a"])
    then show ?thesis
      using True s1(4) by (auto simp: put_sector_def)
  qed (auto simp: put_sector_def)
  then show ?case
    using s1 s2 by simp
qed (auto simp: fun_eq_iff)

text \<open>A run written and read back is the memory it was written from.\<close>

lemma write_read_run:
  assumes "ok s" "n + k \<le> sectors s" "a \<noteq> NULL" "b \<noteq> NULL" "write_run wr k n a m s = Some s1"
  shows "\<exists>m' s2. read_run rd k n b m1 s1 = Some (m', s2) \<and> (\<forall>i<k * DISK_SECTOR_SIZE. m' (b + i) = m (a + i)) \<and>
    (\<forall>x. x < b \<or> b + k * DISK_SECTOR_SIZE \<le> x \<longrightarrow> m' x = m1 x)"
proof -
  let ?Z = DISK_SECTOR_SIZE
  have s1: "ok s1" "sectors s1 = sectors s"
      "data s1 = (\<lambda>j. if n \<le> j \<and> j < n + k then sector_at m (a + (j - n) * ?Z) else data s j)"
    using write_run_ok [OF assms(1-3), of m] assms(5) by auto
  obtain s2 where "read_run rd k n b m1 s1 = Some ((\<lambda>x. if b \<le> x \<and> x < b + k * ?Z
      then data s1 (n + (x - b) div ?Z) ((x - b) mod ?Z) else m1 x), s2)"
    using read_run_ok [OF s1(1) _ assms(4), of n k m1] assms(2) s1(2) by auto
  moreover have "data s1 (n + i div ?Z) (i mod ?Z) = m (a + i)" if "i < k * ?Z" for i
  proof -
    have "i div ?Z < k" "i mod ?Z < ?Z"
      using that DISK_SECTOR_SIZE_pos by (simp_all add: div_less_iff_less_mult)
    then show ?thesis
      by (simp add: s1(3) sector_at_def add.assoc)
  qed
  ultimately show ?thesis
    by simp
qed

end

interpretation disk_device: block_device "disk_ok d" "\<lambda>cs. unat (disk_size d cs)" "\<lambda>cs. stored cs d"
  "\<lambda>n. disk_read True True d (of_nat n)" "\<lambda>n. disk_write True True d (of_nat n)" for d
proof
  fix cs :: disks and n a m
  assume a: "disk_ok d cs" "n < unat (disk_size d cs)" "a \<noteq> NULL"
  have "n < 2 ^ 32"
    using a(2) u32_less [of "disk_size d cs"] by simp
  then have n: "unat (of_nat n :: u32) = n"
    by (simp add: unat_of_nat)
  then have l: "(of_nat n :: u32) < disk_size d cs"
    using a(2) by (simp add: word_less_nat_alt)
  show "\<exists>cs'. disk_read True True d (of_nat n) a m cs = Some (put_sector (stored cs d n) m a, cs') \<and> disk_ok d cs' \<and>
      unat (disk_size d cs') = unat (disk_size d cs) \<and> stored cs' d = stored cs d"
    using disk_read_ok [OF a(1) l a(3), of m] n a(1) unfolding same_drives_def by metis
  show "\<exists>cs'. disk_write True True d (of_nat n) a m cs = Some cs' \<and> disk_ok d cs' \<and>
      unat (disk_size d cs') = unat (disk_size d cs) \<and> stored cs' d = (stored cs d)(n := sector_at m a)"
  proof -
    obtain cs' where w: "disk_write True True d (of_nat n) a m cs = Some cs'" "same_drives cs cs'"
        "\<forall>d' k. stored cs' d' k = (if d' = d \<and> k = n then sector_at m a else stored cs d' k)"
      using disk_write_ok [OF a(1) l a(3), of m] unfolding n by blast
    have "stored cs' d = (stored cs d)(n := sector_at m a)"
      by (rule ext) (use w(3) [rule_format, of d] in simp)
    then show ?thesis
      using w(1) same_drivesD [OF w(2), of d] a(1) by simp
  qed
qed

section \<open>Properties\<close>


definition sample_disks :: disks where
  "sample_disks = (\<lambda>_. \<lparr>reg_nsect = 0, reg_lbal = 0, reg_lbam = 0, reg_lbah = 0, reg_device = 0, irq = 46, expecting_interrupt = False,
     devices = (\<lambda>_. \<lparr>is_ata = True, capacity = 100000, read_cnt = 0, write_cnt = 0\<rparr>), media = (\<lambda>_ _ _. 0)\<rparr>)"


end
