(* ===== verification/Swap.thy ===== *)
theory Swap
  imports Palloc Disk
begin

text \<open>
  The swap area, \<^verbatim>\<open>vm/swap.c\<close>: a bitmap of page-sized slots on the disk 1:1. A page written out to a slot
  comes back unchanged, whatever other pages are written out and read in between. The swap lock makes an
  operation one step; its transfers are made with interrupts on and by a drive that answers.
\<close>

section \<open>Definitions\<close>

record swap =
  swap_table :: bitmap
  swap_disks :: disks

definition SECTORS_PER_PAGE :: nat where
  "SECTORS_PER_PAGE = PGSIZE div DISK_SECTOR_SIZE"

text \<open>The number of slots is computed in 32 bits. \<open>ok\<close> and \<open>blk\<close> are what the allocations for the bitmap give;
  when they fail the table is the null pointer, the inner \<^term>\<open>None\<close>.\<close>

definition swap_init :: "bool \<Rightarrow> u32 list option \<Rightarrow> disks \<Rightarrow> swap option option" where
  "swap_init ok blk cs = do {
     dp \<leftarrow> disk_get 1 1 cs;
     swap_disk \<leftarrow> dp;
     b \<leftarrow> bitmap_create ok blk (unat (disk_size swap_disk cs * of_nat DISK_SECTOR_SIZE) div PGSIZE);
     Some (map_option (\<lambda>table. \<lparr>swap_table = table, swap_disks = cs\<rparr>) b) }"

definition swap_set :: "nat \<Rightarrow> bool \<Rightarrow> swap \<Rightarrow> swap option" where
  "swap_set swap_idx v s = do {
     t \<leftarrow> bitmap_test (swap_table s) swap_idx;
     ASSERT t;
     b \<leftarrow> bitmap_set (swap_table s) swap_idx v;
     Some (s\<lparr>swap_table := b\<rparr>) }"

definition first_sector :: "nat \<Rightarrow> nat" where
  "first_sector swap_idx = swap_idx * PGSIZE mod SIZE_MOD div DISK_SECTOR_SIZE"

definition swap_out :: "u32 \<Rightarrow> mem \<Rightarrow> swap \<Rightarrow> (nat \<times> swap) option" where
  "swap_out kpage m s = do {
     dp \<leftarrow> disk_get 1 1 (swap_disks s);
     (swap_idx, b) \<leftarrow> bitmap_scan_and_flip (swap_table s) 0 1 False;
     ASSERT (swap_idx \<noteq> BITMAP_ERROR);
     swap_disk \<leftarrow> dp;
     cs \<leftarrow> write_run (\<lambda>n. disk_write True True swap_disk (of_nat n)) SECTORS_PER_PAGE (first_sector swap_idx) (unat kpage) m (swap_disks s);
     Some (swap_idx, \<lparr>swap_table = b, swap_disks = cs\<rparr>) }"

definition swap_in :: "nat \<Rightarrow> u32 \<Rightarrow> mem \<Rightarrow> swap \<Rightarrow> (mem \<times> swap) option" where
  "swap_in swap_idx kpage m s = do {
     dp \<leftarrow> disk_get 1 1 (swap_disks s);
     b \<leftarrow> bitmap_set (swap_table s) swap_idx False;
     swap_disk \<leftarrow> dp;
     (m, cs) \<leftarrow> read_run (\<lambda>n. disk_read True True swap_disk (of_nat n)) SECTORS_PER_PAGE (first_sector swap_idx) (unat kpage) m (swap_disks s);
     Some (m, \<lparr>swap_table = b, swap_disks = cs\<rparr>) }"

section \<open>Slots\<close>

text \<open>The disk has room for every slot.\<close>

definition swap_ok :: "swap \<Rightarrow> bool" where
  "swap_ok s \<longleftrightarrow> bitmap_ok (swap_table s) \<and> disk_ok (1, 1) (swap_disks s) \<and>
     bit_cnt (swap_table s) * SECTORS_PER_PAGE \<le> unat (disk_size (1, 1) (swap_disks s)) \<and> bit_cnt (swap_table s) \<le> 2 ^ 20"

definition used_slots :: "swap \<Rightarrow> nat set" where
  "used_slots s = used_bits (swap_table s)"

definition slot_byte :: "swap \<Rightarrow> nat \<Rightarrow> nat \<Rightarrow> u8" where
  "slot_byte s idx i = stored (swap_disks s) (1, 1) (idx * SECTORS_PER_PAGE + i div DISK_SECTOR_SIZE) (i mod DISK_SECTOR_SIZE)"

lemma sectors_per_page: "SECTORS_PER_PAGE = 8" "SECTORS_PER_PAGE * DISK_SECTOR_SIZE = PGSIZE"
  by (simp_all add: SECTORS_PER_PAGE_def DISK_SECTOR_SIZE_def PGSIZE_eq)

lemma first_sector_eq: "idx < 2 ^ 20 \<Longrightarrow> first_sector idx = idx * SECTORS_PER_PAGE"
  by (simp add: first_sector_def sectors_per_page DISK_SECTOR_SIZE_def PGSIZE_eq)

lemma disk_get_ok: "disk_ok (1, 1) cs \<Longrightarrow> disk_get 1 1 cs = Some (Some (1, 1))"
  by (simp add: disk_get_def disk_ok_def)

lemma bitmap_set_slot:
  assumes "bitmap_ok b" "i < bit_cnt b"
  shows "\<exists>b'. bitmap_set b i False = Some b' \<and> bitmap_ok b' \<and> bit_cnt b' = bit_cnt b \<and> used_bits b' = used_bits b - {i}"
proof -
  obtain b' where b': "bitmap_set b i False = Some b'" "bitmap_ok b'" "bit_cnt b' = bit_cnt b" "bits_of b' = (bits_of b)[i := False]"
    using bitmap_set_ok [OF assms, of False] by blast
  have "j \<in> used_bits b' \<longleftrightarrow> j \<in> used_bits b - {i}" for j
    using b'(3,4) assms(2) by (cases "j = i") (auto simp: used_bits_def)
  then show ?thesis
    using b' by blast
qed

lemma swap_out_ok:
  assumes "swap_ok s" "kpage \<noteq> 0"
  shows "(\<exists>idx s'. swap_out kpage m s = Some (idx, s') \<and> swap_ok s' \<and> idx \<notin> used_slots s \<and> idx < bit_cnt (swap_table s) \<and>
      used_slots s' = insert idx (used_slots s) \<and> bit_cnt (swap_table s') = bit_cnt (swap_table s) \<and>
      (\<forall>j i. i < PGSIZE \<longrightarrow> slot_byte s' j i = (if j = idx then m (unat kpage + i) else slot_byte s j i))) \<or>
    swap_out kpage m s = None \<and> used_slots s = {0..<bit_cnt (swap_table s)}"
proof -
  have S: "bitmap_ok (swap_table s)" "disk_ok (1, 1) (swap_disks s)"
      "bit_cnt (swap_table s) * SECTORS_PER_PAGE \<le> unat (disk_size (1, 1) (swap_disks s))" "bit_cnt (swap_table s) \<le> 2 ^ 20"
    using assms(1) by (simp_all add: swap_ok_def)
  consider i b' where "bitmap_scan_and_flip (swap_table s) 0 1 False = Some (i, b')" "i < BITMAP_ERROR" "bitmap_ok b'"
      "bit_cnt b' = bit_cnt (swap_table s)" "i + 1 \<le> bit_cnt (swap_table s)" "i \<notin> used_slots s" "used_bits b' = insert i (used_slots s)"
    | "bitmap_scan_and_flip (swap_table s) 0 1 False = Some (BITMAP_ERROR, swap_table s)"
      "\<forall>i. i + 1 \<le> bit_cnt (swap_table s) \<longrightarrow> i \<in> used_slots s"
    using bitmap_flip_free [OF S(1), of 1] by (auto simp: used_slots_def)
  then show ?thesis
  proof cases
    case 1
    let ?f = "i * SECTORS_PER_PAGE"
    have fs: "first_sector i = ?f"
      using 1(5) S(4) by (intro first_sector_eq) simp
    have room: "?f + SECTORS_PER_PAGE \<le> unat (disk_size (1, 1) (swap_disks s))"
      using S(3) 1(5) mult_le_mono1 [of "Suc i" "bit_cnt (swap_table s)" SECTORS_PER_PAGE] by simp
    have k: "unat kpage \<noteq> 0"
      using assms(2) by (simp add: unat_eq_zero)
    obtain cs where cs: "write_run (\<lambda>n. disk_write True True (1, 1) (of_nat n)) SECTORS_PER_PAGE ?f (unat kpage) m (swap_disks s) = Some cs"
        "disk_ok (1, 1) cs" "unat (disk_size (1, 1) cs) = unat (disk_size (1, 1) (swap_disks s))"
        "stored cs (1, 1) = (\<lambda>j. if ?f \<le> j \<and> j < ?f + SECTORS_PER_PAGE
           then sector_at m (unat kpage + (j - ?f) * DISK_SECTOR_SIZE) else stored (swap_disks s) (1, 1) j)"
      using disk_device.write_run_ok [OF S(2) room k, of m] by blast
    let ?s = "\<lparr>swap_table = b', swap_disks = cs\<rparr>"
    have "swap_out kpage m s = Some (i, ?s)"
      using 1(1,2) cs(1) disk_get_ok [OF S(2)] fs by (simp add: swap_out_def)
    moreover have "swap_ok ?s"
      using 1(3,4) cs S by (simp add: swap_ok_def)
    moreover have "slot_byte ?s j k = (if j = i then m (unat kpage + k) else slot_byte s j k)" if "k < PGSIZE" for j k
    proof -
      have q: "k div DISK_SECTOR_SIZE < SECTORS_PER_PAGE" "k mod DISK_SECTOR_SIZE < DISK_SECTOR_SIZE"
        using that sectors_per_page(2) DISK_SECTOR_SIZE_pos by (simp_all add: div_less_iff_less_mult)
      show ?thesis
      proof (cases "j = i")
        case True
        then show ?thesis
          using q by (simp add: slot_byte_def cs(4) sector_at_def add.assoc del: One_nat_def)
      next
        case False
        then have "j * SECTORS_PER_PAGE + k div DISK_SECTOR_SIZE < ?f \<or> ?f + SECTORS_PER_PAGE \<le> j * SECTORS_PER_PAGE + k div DISK_SECTOR_SIZE"
          using q(1) by (simp add: sectors_per_page(1)) linarith
        then show ?thesis
          using False by (auto simp: slot_byte_def cs(4) simp del: One_nat_def)
      qed
    qed
    ultimately show ?thesis
      using 1(4-7) by (auto simp: used_slots_def)
  next
    case 2
    then have "swap_out kpage m s = None"
      using disk_get_ok [OF S(2)] by (simp add: swap_out_def)
    moreover have "used_slots s = {0..<bit_cnt (swap_table s)}"
      using 2(2) by (auto simp: used_slots_def used_bits_def)
    ultimately show ?thesis
      by blast
  qed
qed

lemma swap_in_ok:
  assumes "swap_ok s" "kpage \<noteq> 0" "idx < bit_cnt (swap_table s)"
  shows "\<exists>m' s'. swap_in idx kpage m s = Some (m', s') \<and> swap_ok s' \<and> used_slots s' = used_slots s - {idx} \<and>
    bit_cnt (swap_table s') = bit_cnt (swap_table s) \<and> slot_byte s' = slot_byte s \<and>
    (\<forall>i<PGSIZE. m' (unat kpage + i) = slot_byte s idx i) \<and>
    (\<forall>a. a < unat kpage \<or> unat kpage + PGSIZE \<le> a \<longrightarrow> m' a = m a)"
proof -
  have S: "bitmap_ok (swap_table s)" "disk_ok (1, 1) (swap_disks s)"
      "bit_cnt (swap_table s) * SECTORS_PER_PAGE \<le> unat (disk_size (1, 1) (swap_disks s))" "bit_cnt (swap_table s) \<le> 2 ^ 20"
    using assms(1) by (simp_all add: swap_ok_def)
  let ?f = "idx * SECTORS_PER_PAGE"
  have fs: "first_sector idx = ?f"
    using assms(3) S(4) by (intro first_sector_eq) simp
  have room: "?f + SECTORS_PER_PAGE \<le> unat (disk_size (1, 1) (swap_disks s))"
    using S(3) assms(3) mult_le_mono1 [of "Suc idx" "bit_cnt (swap_table s)" SECTORS_PER_PAGE] by simp
  have k: "unat kpage \<noteq> 0"
    using assms(2) by (simp add: unat_eq_zero)
  obtain b where b: "bitmap_set (swap_table s) idx False = Some b" "bitmap_ok b" "bit_cnt b = bit_cnt (swap_table s)"
      "used_bits b = used_bits (swap_table s) - {idx}"
    using bitmap_set_slot [OF S(1) assms(3)] by blast
  define m' where "m' = (\<lambda>x. if unat kpage \<le> x \<and> x < unat kpage + PGSIZE
    then stored (swap_disks s) (1, 1) (?f + (x - unat kpage) div DISK_SECTOR_SIZE) ((x - unat kpage) mod DISK_SECTOR_SIZE) else m x)"
  obtain cs where cs: "read_run (\<lambda>n. disk_read True True (1, 1) (of_nat n)) SECTORS_PER_PAGE ?f (unat kpage) m (swap_disks s) = Some (m', cs)"
      "disk_ok (1, 1) cs" "unat (disk_size (1, 1) cs) = unat (disk_size (1, 1) (swap_disks s))"
      "stored cs (1, 1) = stored (swap_disks s) (1, 1)"
    using disk_device.read_run_ok [OF S(2) room k, of m] unfolding sectors_per_page(2) m'_def by blast
  let ?s = "\<lparr>swap_table = b, swap_disks = cs\<rparr>"
  have "swap_in idx kpage m s = Some (m', ?s)"
    using b(1) cs(1) disk_get_ok [OF S(2)] fs by (simp add: swap_in_def)
  moreover have "swap_ok ?s"
    using b cs S by (simp add: swap_ok_def)
  moreover have "slot_byte ?s = slot_byte s"
    by (simp add: slot_byte_def fun_eq_iff cs(4) del: One_nat_def)
  moreover have "m' (unat kpage + i) = slot_byte s idx i" if "i < PGSIZE" for i
    using that by (simp add: m'_def slot_byte_def)
  moreover have "m' a = m a" if "a < unat kpage \<or> unat kpage + PGSIZE \<le> a" for a
    using that by (auto simp: m'_def)
  ultimately show ?thesis
    using b(3,4) by (intro exI [of _ m'] exI [of _ ?s]) (simp add: used_slots_def)
qed

section \<open>Properties\<close>

text \<open>
  C15: A page written to swap gets a slot that was free, and comes back unchanged, also when other pages were
  written out to other slots in between. Reading it in releases exactly its slot. Writing out fails an
  assertion exactly when all slots are in use.
\<close>

theorem swap_round_trip:
  assumes "swap_ok s" "kpage \<noteq> 0" "kpage2 \<noteq> 0" "kpage3 \<noteq> 0"
  shows "(swap_out kpage m s = None \<longleftrightarrow> used_slots s = {0..<bit_cnt (swap_table s)}) \<and>
    (\<forall>idx s1. swap_out kpage m s = Some (idx, s1) \<longrightarrow> swap_ok s1 \<and> idx \<notin> used_slots s \<and> used_slots s1 = insert idx (used_slots s) \<and>
      (\<forall>idx2 s2. swap_out kpage2 m2 s1 = Some (idx2, s2) \<longrightarrow> idx2 \<noteq> idx \<and>
        (\<exists>m' s3. swap_in idx kpage3 m3 s2 = Some (m', s3) \<and> used_slots s3 = used_slots s2 - {idx} \<and>
          (\<forall>i<PGSIZE. m' (unat kpage3 + i) = m (unat kpage + i)))))"
proof -
  have full: "swap_out kpage m s = None \<longleftrightarrow> used_slots s = {0..<bit_cnt (swap_table s)}"
    using swap_out_ok [OF assms(1,2), of m] by force
  have out: "swap_ok s1 \<and> idx \<notin> used_slots s \<and> idx < bit_cnt (swap_table s1) \<and> used_slots s1 = insert idx (used_slots s) \<and>
      bit_cnt (swap_table s1) = bit_cnt (swap_table s) \<and> (\<forall>i<PGSIZE. slot_byte s1 idx i = m (unat kp + i)) \<and>
      (\<forall>j i. i < PGSIZE \<and> j \<noteq> idx \<longrightarrow> slot_byte s1 j i = slot_byte s j i)"
    if "swap_ok s" "kp \<noteq> 0" "swap_out kp m s = Some (idx, s1)" for s s1 kp m idx
    using swap_out_ok [OF that(1,2), of m] that(3) by auto
  show ?thesis
  proof (intro conjI allI impI full)
    fix idx s1
    assume o1: "swap_out kpage m s = Some (idx, s1)"
    note O1 = out [OF assms(1,2) o1]
    show "swap_ok s1" "idx \<notin> used_slots s" "used_slots s1 = insert idx (used_slots s)"
      using O1 by auto
    fix idx2 s2
    assume o2: "swap_out kpage2 m2 s1 = Some (idx2, s2)"
    note O2 = out [OF \<open>swap_ok s1\<close> assms(3) o2]
    show ne: "idx2 \<noteq> idx"
      using O1 O2 by auto
    have "swap_ok s2" "idx < bit_cnt (swap_table s2)"
      using O1 O2 by simp_all
    from swap_in_ok [OF this(1) assms(4) this(2), of m3]
    obtain m' s3 where "swap_in idx kpage3 m3 s2 = Some (m', s3)" "used_slots s3 = used_slots s2 - {idx}"
        "\<forall>i<PGSIZE. m' (unat kpage3 + i) = slot_byte s2 idx i"
      by blast
    moreover have "slot_byte s2 idx i = m (unat kpage + i)" if "i < PGSIZE" for i
      using O1 O2 ne that by simp
    ultimately show "\<exists>m' s3. swap_in idx kpage3 m3 s2 = Some (m', s3) \<and> used_slots s3 = used_slots s2 - {idx} \<and>
        (\<forall>i<PGSIZE. m' (unat kpage3 + i) = m (unat kpage + i))"
      by auto
  qed
qed

definition sample_swap :: swap where
  "sample_swap = \<lparr>swap_table = \<lparr>bit_cnt = 3, bits = [0]\<rparr>, swap_disks = sample_disks\<rparr>"

lemma sample_swap_ok: "swap_ok sample_swap" "used_slots sample_swap = {}"
  by (auto simp: swap_ok_def sample_swap_def bitmap_ok_def elem_cnt_def disk_ok_def disk_size_def sample_disks_def CHANNEL_CNT_def
      sectors_per_page used_slots_def used_bits_def nth_bits_of)

theorem swap_round_trip_witness:
  "\<exists>idx s1 idx2 s2 m' s3. swap_out 0xc0105000 (\<lambda>a. of_nat a) sample_swap = Some (idx, s1) \<and>
    swap_out 0xc0106000 (\<lambda>_. 9) s1 = Some (idx2, s2) \<and> swap_in idx 0xc0107000 (\<lambda>_. 0) s2 = Some (m', s3) \<and>
    m' (unat (0xc0107000 :: u32) + 5) = of_nat (unat (0xc0105000 :: u32) + 5)"
proof -
  have nz: "(0xc0105000 :: u32) \<noteq> 0" "(0xc0106000 :: u32) \<noteq> 0" "(0xc0107000 :: u32) \<noteq> 0"
    by simp_all
  have "bit_cnt (swap_table sample_swap) = 3"
    by (simp add: sample_swap_def)
  then obtain idx s1 where s1: "swap_out 0xc0105000 (\<lambda>a. of_nat a) sample_swap = Some (idx, s1)" "swap_ok s1"
      "used_slots s1 = {idx}" "bit_cnt (swap_table s1) = 3"
    using swap_out_ok [OF sample_swap_ok(1) nz(1), of "\<lambda>a. of_nat a"] by (auto simp: sample_swap_ok(2))
  have "card (used_slots s1) \<noteq> card {0..<bit_cnt (swap_table s1)}"
    by (simp add: s1(3,4))
  then have "used_slots s1 \<noteq> {0..<bit_cnt (swap_table s1)}"
    by metis
  then obtain idx2 s2 where s2: "swap_out 0xc0106000 (\<lambda>_. 9) s1 = Some (idx2, s2)"
    using swap_out_ok [OF s1(2) nz(2), of "\<lambda>_. 9"] by blast
  obtain m' s3 where m': "swap_in idx 0xc0107000 (\<lambda>_. 0) s2 = Some (m', s3)"
      "\<forall>i<PGSIZE. m' (unat (0xc0107000 :: u32) + i) = of_nat (unat (0xc0105000 :: u32) + i)"
    using swap_round_trip [OF sample_swap_ok(1) nz, of "\<lambda>a. of_nat a" "\<lambda>_. 9" "\<lambda>_. 0"] s1(1) s2 by blast
  have b: "m' (unat (0xc0107000 :: u32) + 5) = of_nat (unat (0xc0105000 :: u32) + 5)"
    by (rule m'(2) [rule_format]) (simp add: PGSIZE_eq)
  show ?thesis
    by (intro exI conjI, rule s1(1), rule s2, rule m'(1), rule b)
qed

end
