(* ===== verification/Pagedir.thy ===== *)
theory Pagedir
  imports Palloc
begin

text \<open>
  Page directories and page tables, \<^verbatim>\<open>userprog/pagedir.c\<close>, as bytes in memory: a directory is a page of
  1024 entries that point to page tables, each again a page of 1024 entries. The state adds to the memory of
  the page allocator the kernel's own directory, the number of pages of RAM, the processor's directory
  register \<^verbatim>\<open>CR3\<close> and its translation buffer, which loading the register empties.

  Under an invariant that says where the tables of a directory lie, every operation is shown to act on the
  map from user pages to entries as its comment says, and to leave the other pages alone.
\<close>

section \<open>Definitions\<close>

record mmu =
  pages :: memory
  base_page_dir :: u32
  ram_pages :: nat
  cr3 :: u32
  tlb :: "u32 \<rightharpoonup> u32"

definition store32 :: "mem \<Rightarrow> addr \<Rightarrow> u32 \<Rightarrow> mem" where
  "store32 m a v = m(a := ucast v, a + 1 := ucast (drop_bit 8 v), a + 2 := ucast (drop_bit 16 v), a + 3 := ucast (drop_bit 24 v))"

definition load :: "mmu \<Rightarrow> u32 \<Rightarrow> u32" where
  "load s a = load32 (ram (pages s)) (unat a)"

definition store :: "u32 \<Rightarrow> u32 \<Rightarrow> mmu \<Rightarrow> mmu" where
  "store a v s = s\<lparr>pages := (pages s)\<lparr>ram := store32 (ram (pages s)) (unat a) v\<rparr>\<rparr>"

text \<open>The address of an entry: a pointer to 32-bit words plus an index.\<close>

definition entry :: "u32 \<Rightarrow> u32 \<Rightarrow> u32" where
  "entry table i = table + 4 * i"

definition pagedir_create :: "mmu \<Rightarrow> (u32 \<times> mmu) option" where
  "pagedir_create s = do {
     (pd, p) \<leftarrow> palloc_get_page 0 (pages s);
     if pd \<noteq> 0 then do {
       (_, m) \<leftarrow> memcpy (ram p) (unat pd) (unat (base_page_dir s)) PGSIZE;
       Some (pd, s\<lparr>pages := p\<lparr>ram := m\<rparr>\<rparr>) }
     else Some (pd, s\<lparr>pages := p\<rparr>) }"

text \<open>The loops of \<^verbatim>\<open>pagedir_destroy\<close> over the \<open>n\<close> entries from \<open>e\<close> on.\<close>

fun destroy_pt :: "nat \<Rightarrow> u32 \<Rightarrow> mmu \<Rightarrow> mmu option" where
  "destroy_pt 0 pte s = Some s"
| "destroy_pt (Suc n) pte s = do {
     s \<leftarrow> (if load s pte AND PTE_P \<noteq> 0 then do {
             page \<leftarrow> pte_get_page (load s pte);
             p \<leftarrow> palloc_free_page page (pages s);
             Some (s\<lparr>pages := p\<rparr>) }
           else Some s);
     destroy_pt n (pte + 4) s }"

fun destroy_pd :: "nat \<Rightarrow> u32 \<Rightarrow> mmu \<Rightarrow> mmu option" where
  "destroy_pd 0 pde s = Some s"
| "destroy_pd (Suc n) pde s = do {
     s \<leftarrow> (if load s pde AND PTE_P \<noteq> 0 then do {
             pt \<leftarrow> pde_get_pt (load s pde);
             s \<leftarrow> destroy_pt (PGSIZE div 4) pt s;
             p \<leftarrow> palloc_free_page pt (pages s);
             Some (s\<lparr>pages := p\<rparr>) }
           else Some s);
     destroy_pd n (pde + 4) s }"

definition pagedir_destroy :: "u32 \<Rightarrow> mmu \<Rightarrow> mmu option" where
  "pagedir_destroy pd s =
     (if pd = 0 then Some s
      else do {
        ASSERT (pd \<noteq> base_page_dir s);
        s \<leftarrow> destroy_pd (unat (pd_no PHYS_BASE)) pd s;
        p \<leftarrow> palloc_free_page pd (pages s);
        Some (s\<lparr>pages := p\<rparr>) })"

definition lookup_page :: "u32 \<Rightarrow> u32 \<Rightarrow> bool \<Rightarrow> mmu \<Rightarrow> (u32 \<times> mmu) option" where
  "lookup_page pd vaddr create s = do {
     ASSERT (pd \<noteq> 0);
     ASSERT (\<not> create \<or> is_user_vaddr vaddr);
     let pde = entry pd (pd_no vaddr);
     if load s pde = 0 then
       if create then do {
         (pt, p) \<leftarrow> palloc_get_page PAL_ZERO (pages s);
         let s = s\<lparr>pages := p\<rparr>;
         if pt = 0 then Some (0, s)
         else do {
           e \<leftarrow> pde_create pt;
           let s = store pde e s;
           pt \<leftarrow> pde_get_pt (load s pde);
           Some (entry pt (pt_no vaddr), s) } }
       else Some (0, s)
     else do {
       pt \<leftarrow> pde_get_pt (load s pde);
       Some (entry pt (pt_no vaddr), s) } }"

definition pagedir_set_page :: "u32 \<Rightarrow> u32 \<Rightarrow> u32 \<Rightarrow> bool \<Rightarrow> mmu \<Rightarrow> (bool \<times> mmu) option" where
  "pagedir_set_page pd upage kpage writable s = do {
     ASSERT (pg_ofs upage = 0);
     ASSERT (pg_ofs kpage = 0);
     ASSERT (is_user_vaddr upage);
     pa \<leftarrow> vtop kpage;
     ASSERT (unat (drop_bit PTSHIFT pa) < ram_pages s);
     ASSERT (pd \<noteq> base_page_dir s);
     (pte, s) \<leftarrow> lookup_page pd upage True s;
     if pte \<noteq> 0 then do {
       ASSERT (load s pte AND PTE_P = 0);
       e \<leftarrow> pte_create_user kpage writable;
       Some (True, store pte e s) }
     else Some (False, s) }"

definition pagedir_get_page :: "u32 \<Rightarrow> u32 \<Rightarrow> mmu \<Rightarrow> u32 option" where
  "pagedir_get_page pd uaddr s = do {
     ASSERT (is_user_vaddr uaddr);
     (pte, s) \<leftarrow> lookup_page pd uaddr False s;
     if pte \<noteq> 0 \<and> load s pte AND PTE_P \<noteq> 0
     then do { page \<leftarrow> pte_get_page (load s pte); Some (page + pg_ofs uaddr) }
     else Some 0 }"

definition activate_pd :: "u32 \<Rightarrow> mmu \<Rightarrow> mmu option" where
  "activate_pd pd s = do {
     let pd = (if pd = 0 then base_page_dir s else pd);
     pa \<leftarrow> vtop pd;
     Some (s\<lparr>cr3 := pa, tlb := Map.empty\<rparr>) }"

definition active_pd :: "mmu \<Rightarrow> u32 option" where
  "active_pd s = ptov (cr3 s)"

definition invalidate_pagedir :: "u32 \<Rightarrow> mmu \<Rightarrow> mmu option" where
  "invalidate_pagedir pd s = do {
     a \<leftarrow> active_pd s;
     if a = pd then activate_pd pd s else Some s }"

definition pagedir_clear_page :: "u32 \<Rightarrow> u32 \<Rightarrow> mmu \<Rightarrow> mmu option" where
  "pagedir_clear_page pd upage s = do {
     ASSERT (pg_ofs upage = 0);
     ASSERT (is_user_vaddr upage);
     (pte, s) \<leftarrow> lookup_page pd upage False s;
     if pte \<noteq> 0 \<and> load s pte AND PTE_P \<noteq> 0
     then invalidate_pagedir pd (store pte (load s pte AND NOT PTE_P) s)
     else Some s }"

text \<open>The dirty and the accessed bit are read and written by the same code.\<close>

definition pagedir_is_dirty :: "u32 \<Rightarrow> u32 \<Rightarrow> mmu \<Rightarrow> bool option" where
  "pagedir_is_dirty pd vpage s = do {
     (pte, s) \<leftarrow> lookup_page pd vpage False s;
     Some (pte \<noteq> 0 \<and> load s pte AND PTE_D \<noteq> 0) }"

definition pagedir_set_dirty :: "u32 \<Rightarrow> u32 \<Rightarrow> bool \<Rightarrow> mmu \<Rightarrow> mmu option" where
  "pagedir_set_dirty pd vpage dirty s = do {
     (pte, s) \<leftarrow> lookup_page pd vpage False s;
     if pte \<noteq> 0 then
       if dirty then Some (store pte (load s pte OR PTE_D) s)
       else invalidate_pagedir pd (store pte (load s pte AND NOT PTE_D) s)
     else Some s }"

definition pagedir_is_accessed :: "u32 \<Rightarrow> u32 \<Rightarrow> mmu \<Rightarrow> bool option" where
  "pagedir_is_accessed pd vpage s = do {
     (pte, s) \<leftarrow> lookup_page pd vpage False s;
     Some (pte \<noteq> 0 \<and> load s pte AND PTE_A \<noteq> 0) }"

definition pagedir_set_accessed :: "u32 \<Rightarrow> u32 \<Rightarrow> bool \<Rightarrow> mmu \<Rightarrow> mmu option" where
  "pagedir_set_accessed pd vpage accessed s = do {
     (pte, s) \<leftarrow> lookup_page pd vpage False s;
     if pte \<noteq> 0 then
       if accessed then Some (store pte (load s pte OR PTE_A) s)
       else invalidate_pagedir pd (store pte (load s pte AND NOT PTE_A) s)
     else Some s }"

section \<open>Words in memory\<close>

lemma load32_store32: "load32 (store32 m a v) a = v"
proof (rule bit_word_eqI)
  fix n
  assume "n < LENGTH(32)"
  then consider "n < 8" | "8 \<le> n" "n < 16" | "16 \<le> n" "n < 24" | "24 \<le> n" "n < 32"
    by fastforce
  then show "bit (load32 (store32 m a v) a) n \<longleftrightarrow> bit v n"
    by cases (auto simp: load32_def store32_def bit_simps)
qed

lemma load32_store32_other: "b + 4 \<le> a \<or> a + 4 \<le> b \<Longrightarrow> load32 (store32 m a v) b = load32 m b"
  by (auto simp: load32_def store32_def)

lemma load32_cong:
  assumes "\<And>i. i < 4 \<Longrightarrow> m (a + i) = m' (a + i)"
  shows "load32 m a = load32 m' a"
  using assms [of 0] assms [of 1] assms [of 2] assms [of 3] by (simp add: load32_def)

section \<open>Entries of a directory and its tables\<close>

text \<open>Tables are named by their page number; the entry \<open>i\<close> of the table in page \<open>t\<close> is the word at \<open>4 * i\<close>.\<close>

definition slot :: "mmu \<Rightarrow> nat \<Rightarrow> nat \<Rightarrow> u32" where
  "slot s t i = load32 (ram (pages s)) (t * PGSIZE + 4 * i)"

definition set_slot :: "nat \<Rightarrow> nat \<Rightarrow> u32 \<Rightarrow> mmu \<Rightarrow> mmu" where
  "set_slot t i v s = s\<lparr>pages := (pages s)\<lparr>ram := store32 (ram (pages s)) (t * PGSIZE + 4 * i) v\<rparr>\<rparr>"

lemma slot_set_slot:
  assumes "i < 1024" "j < 1024"
  shows "slot (set_slot t i v s) u j = (if u = t \<and> j = i then v else slot s u j)"
proof (cases "u = t")
  case True
  have "4 * i + 4 \<le> 4 * j \<or> 4 * j + 4 \<le> 4 * i" if "i \<noteq> j"
    using that by auto
  then show ?thesis
    using True by (cases "i = j") (auto simp: slot_def set_slot_def load32_store32 load32_store32_other)
next
  case False
  then have "u * PGSIZE + 4096 \<le> t * PGSIZE \<or> t * PGSIZE + 4096 \<le> u * PGSIZE"
    using mult_le_mono1 [of "Suc u" t PGSIZE] mult_le_mono1 [of "Suc t" u PGSIZE] by (auto simp: PGSIZE_eq)
  then show ?thesis
    using assms False by (auto simp: slot_def set_slot_def load32_store32_other)
qed

lemma set_slot_other [simp]:
  "base_page_dir (set_slot t i v s) = base_page_dir s" "ram_pages (set_slot t i v s) = ram_pages s"
  "cr3 (set_slot t i v s) = cr3 s" "tlb (set_slot t i v s) = tlb s"
  "memory_ok (pages (set_slot t i v s)) = memory_ok (pages s)"
  "used_pages (pages (set_slot t i v s)) = used_pages (pages s)"
  by (simp_all add: set_slot_def)

lemma unat_entry:
  assumes "pg_ofs table = 0" "unat i < 1024"
  shows "unat (entry table i) = page_no table * PGSIZE + 4 * unat i"
proof -
  have t: "unat table = page_no table * PGSIZE"
    using aligned_unat [OF assms(1)] .
  have "unat table + 4 * unat i < 2 ^ 32"
    using u32_less [of table] t assms(2) by (simp add: PGSIZE_eq)
  moreover have "entry table i = of_nat (unat table + 4 * unat i)"
    by (simp add: entry_def)
  ultimately show ?thesis
    using u32_of_nat [of "unat table + 4 * unat i"] t by simp
qed

lemma load_entry: "pg_ofs table = 0 \<Longrightarrow> unat i < 1024 \<Longrightarrow> load s (entry table i) = slot s (page_no table) (unat i)"
  by (simp add: load_def slot_def unat_entry)

lemma store_entry: "pg_ofs table = 0 \<Longrightarrow> unat i < 1024 \<Longrightarrow> store (entry table i) v s = set_slot (page_no table) (unat i) v s"
  by (simp add: store_def set_slot_def unat_entry)

lemma entry_nonzero:
  assumes "pg_ofs table = 0" "is_kernel_vaddr table" "unat i < 1024"
  shows "entry table i \<noteq> 0"
proof -
  have "0 < unat table"
    using assms(2) by (auto simp: is_kernel_vaddr_def PHYS_BASE_def word_le_nat_alt)
  then have "0 < unat (entry table i)"
    using unat_entry [OF assms(1,3)] aligned_unat [OF assms(1)] by simp
  then show ?thesis
    by auto
qed

text \<open>The indices of a user address; those of different pages differ.\<close>

lemma vaddr_idx: "unat (pd_no v) < 1024" "unat (pt_no v) < 1024"
  using vaddr_split [of v] by blast+

lemma user_pd_no: "is_user_vaddr v \<longleftrightarrow> unat (pd_no v) < 768"
proof -
  have "unat v < 768 * (1024 * PGSIZE) \<longleftrightarrow> unat v div (1024 * PGSIZE) < 768"
    by (simp add: PGSIZE_eq div_less_iff_less_mult)
  then show ?thesis
    by (simp add: is_user_vaddr_def word_less_nat_alt PHYS_BASE_def unat_pd_no PGSIZE_eq)
qed

lemma page_idx: "page_no v = page_no w \<Longrightarrow> pd_no v = pd_no w \<and> pt_no v = pt_no w"
proof -
  assume "page_no v = page_no w"
  then have d: "unat v div PGSIZE = unat w div PGSIZE"
    by (simp add: unat_pg_no)
  then have "unat v div PGSIZE div 1024 = unat w div PGSIZE div 1024"
    by simp
  then have "unat (pd_no v) = unat (pd_no w)"
    unfolding unat_pd_no by (simp add: div_mult2_eq [symmetric] mult.commute)
  moreover have "unat (pt_no v) = unat (pt_no w)"
    using d by (simp add: unat_pt_no)
  ultimately show ?thesis
    by (simp add: word_unat_eq_iff)
qed

lemma same_page: "pd_no v = pd_no w \<Longrightarrow> pt_no v = pt_no w \<Longrightarrow> page_no v = page_no w"
proof -
  assume "pd_no v = pd_no w" "pt_no v = pt_no w"
  then have "unat v div PGSIZE = unat w div PGSIZE"
    using vaddr_split [of v] vaddr_split [of w] by (metis add.right_neutral div_less div_mult_self3 PGSIZE_eq zero_neq_numeral)
  then show ?thesis
    by (simp add: unat_pg_no)
qed

section \<open>The map that a directory stands for\<close>

text \<open>The page of the table for a directory entry, and the pages a directory consists of.\<close>

definition table_page :: "mmu \<Rightarrow> u32 \<Rightarrow> nat \<Rightarrow> nat option" where
  "table_page s pd i =
     (let e = slot s (page_no pd) i in if e = 0 then None else map_option (\<lambda>pt. page_no pt) (pde_get_pt e))"

definition dir_pages :: "mmu \<Rightarrow> u32 \<Rightarrow> nat set" where
  "dir_pages s pd = insert (page_no pd) {t. \<exists>i<768. table_page s pd i = Some t}"

definition pagedir_ok :: "mmu \<Rightarrow> u32 \<Rightarrow> bool" where
  "pagedir_ok s pd \<longleftrightarrow> memory_ok (pages s) \<and> pg_ofs pd = 0 \<and> is_kernel_vaddr pd \<and> dir_pages s pd \<subseteq> used_pages (pages s) \<and>
     (\<forall>i<768. slot s (page_no pd) i \<noteq> 0 \<longrightarrow>
        (\<exists>pt. pde_get_pt (slot s (page_no pd) i) = Some pt \<and> is_kernel_vaddr pt \<and> page_no pt \<noteq> page_no pd)) \<and>
     (\<forall>i<768. \<forall>j<768. table_page s pd i \<noteq> None \<longrightarrow> table_page s pd i = table_page s pd j \<longrightarrow> i = j)"

text \<open>The entry for an address, if there is a table for it; and the mapping: the entries that are present.\<close>

definition pte_of :: "mmu \<Rightarrow> u32 \<Rightarrow> u32 \<Rightarrow> u32 option" where
  "pte_of s pd v = map_option (\<lambda>t. slot s t (unat (pt_no v))) (table_page s pd (unat (pd_no v)))"

definition mapping_of :: "mmu \<Rightarrow> u32 \<Rightarrow> u32 \<rightharpoonup> u32" where
  "mapping_of s pd v = (case pte_of s pd v of Some e \<Rightarrow> if e AND PTE_P \<noteq> 0 then Some e else None | None \<Rightarrow> None)"

definition same_slots :: "nat set \<Rightarrow> mmu \<Rightarrow> mmu \<Rightarrow> bool" where
  "same_slots A s s' \<longleftrightarrow> (\<forall>t\<in>A. \<forall>i<1024. slot s' t i = slot s t i)"

lemma ptov_aligned:
  assumes "ptov (e AND PTE_ADDR) = Some p"
  shows "pg_ofs p = 0"
proof -
  have "p = pg_round_down e + PHYS_BASE"
    using assms by (auto simp: ptov_def and_PTE_ADDR split: if_splits)
  then have "unat p = (unat e div PGSIZE * PGSIZE + 786432 * PGSIZE) mod 2 ^ 32"
    by (simp add: unat_word_ariths unat_pg_round_down PHYS_BASE_def PGSIZE_eq)
  then have "unat p mod PGSIZE = 0"
    by (simp add: PGSIZE_eq mod_mod_cancel)
  then show ?thesis
    using unat_pg_ofs [of p] by (simp add: unat_eq_zero)
qed

lemma pde_get_pt_aligned: "pde_get_pt e = Some pt \<Longrightarrow> pg_ofs pt = 0"
  using ptov_aligned by (auto simp: pde_get_pt_def split: if_splits)

lemma pte_get_page_aligned: "pte_get_page e = Some p \<Longrightarrow> pg_ofs p = 0"
  using ptov_aligned by (auto simp: pte_get_page_def)

lemma table_page_iff:
  "table_page s pd i = Some t \<longleftrightarrow> slot s (page_no pd) i \<noteq> 0 \<and> (\<exists>pt. pde_get_pt (slot s (page_no pd) i) = Some pt \<and> page_no pt = t)"
  by (auto simp: table_page_def Let_def)

text \<open>Everything about a directory is read from its pages.\<close>

lemma frame_table_page:
  assumes "same_slots (dir_pages s pd) s s'" "i < 1024"
  shows "table_page s' pd i = table_page s pd i"
  using assms by (simp add: same_slots_def dir_pages_def table_page_def)

lemma frame_dir_pages: "same_slots (dir_pages s pd) s s' \<Longrightarrow> dir_pages s' pd = dir_pages s pd"
  using frame_table_page [of s pd s'] by (auto simp: dir_pages_def)

lemma frame_pte_of:
  assumes "same_slots (dir_pages s pd) s s'" "is_user_vaddr v"
  shows "pte_of s' pd v = pte_of s pd v"
proof (cases "table_page s pd (unat (pd_no v))")
  case (Some t)
  then have "t \<in> dir_pages s pd"
    using assms(2) by (auto simp: dir_pages_def user_pd_no)
  then show ?thesis
    using assms(1) Some frame_table_page [OF assms(1) vaddr_idx(1)] vaddr_idx(2) by (simp add: pte_of_def same_slots_def)
qed (use frame_table_page [OF assms(1) vaddr_idx(1)] in \<open>simp add: pte_of_def\<close>)

lemma pagedir_ok_cong:
  assumes "pagedir_ok s pd" "\<And>i. i < 768 \<Longrightarrow> slot s' (page_no pd) i = slot s (page_no pd) i"
    "memory_ok (pages s')" "dir_pages s pd \<subseteq> used_pages (pages s')"
  shows "pagedir_ok s' pd" "dir_pages s' pd = dir_pages s pd"
proof -
  have tp: "table_page s' pd i = table_page s pd i" if "i < 768" for i
    using assms(2) [OF that] by (simp add: table_page_def)
  show dp: "dir_pages s' pd = dir_pages s pd"
    using tp by (auto simp: dir_pages_def)
  have "i = j" if "i < 768" "j < 768" "table_page s' pd i \<noteq> None" "table_page s' pd i = table_page s' pd j" for i j
    using assms(1) that unfolding tp [OF that(1)] tp [OF that(2)] pagedir_ok_def by blast
  then have "\<forall>i<768. \<forall>j<768. table_page s' pd i \<noteq> None \<longrightarrow> table_page s' pd i = table_page s' pd j \<longrightarrow> i = j"
    by blast
  moreover have "\<forall>i<768. slot s' (page_no pd) i \<noteq> 0 \<longrightarrow>
      (\<exists>pt. pde_get_pt (slot s' (page_no pd) i) = Some pt \<and> is_kernel_vaddr pt \<and> page_no pt \<noteq> page_no pd)"
    using assms(1,2) unfolding pagedir_ok_def by simp
  ultimately show "pagedir_ok s' pd"
    using assms(1,3,4) dp unfolding pagedir_ok_def by blast
qed

lemma frame_pagedir_ok:
  assumes "pagedir_ok s pd" "same_slots (dir_pages s pd) s s'" "memory_ok (pages s')" "dir_pages s pd \<subseteq> used_pages (pages s')"
  shows "pagedir_ok s' pd"
proof (rule pagedir_ok_cong(1) [OF assms(1) _ assms(3,4)])
  show "slot s' (page_no pd) i = slot s (page_no pd) i" if "i < 768" for i
    using assms(2) that by (simp add: same_slots_def dir_pages_def)
qed

lemma frame_mapping: "same_slots (dir_pages s pd) s s' \<Longrightarrow> is_user_vaddr v \<Longrightarrow> mapping_of s' pd v = mapping_of s pd v"
  by (simp add: mapping_of_def frame_pte_of)

section \<open>Looking up an entry\<close>

text \<open>\<open>points_to pte t i\<close>: the pointer \<open>pte\<close> is the address of entry \<open>i\<close> of the table in page \<open>t\<close>.\<close>

definition points_to :: "u32 \<Rightarrow> nat \<Rightarrow> nat \<Rightarrow> bool" where
  "points_to pte t i \<longleftrightarrow> pte \<noteq> 0 \<and> unat pte = t * PGSIZE + 4 * i"

lemma points_to_load: "points_to pte t i \<Longrightarrow> load s pte = slot s t i"
  by (simp add: points_to_def load_def slot_def)

lemma points_to_store: "points_to pte t i \<Longrightarrow> store pte x s = set_slot t i x s"
  by (simp add: points_to_def store_def set_slot_def)

lemma pd_nonzero: "is_kernel_vaddr pd \<Longrightarrow> pd \<noteq> 0"
  by (auto simp: is_kernel_vaddr_def PHYS_BASE_def)

lemma slot_table_page:
  assumes "pagedir_ok s pd" "i < 768"
  shows "slot s (page_no pd) i = 0 \<longleftrightarrow> table_page s pd i = None"
  using assms by (auto simp: pagedir_ok_def table_page_def Let_def)

lemma lookup_existing:
  assumes "pagedir_ok s pd" "is_user_vaddr v" "table_page s pd (unat (pd_no v)) = Some t"
  shows "\<exists>pte. lookup_page pd v create s = Some (pte, s) \<and> points_to pte t (unat (pt_no v))"
proof -
  have i: "unat (pd_no v) < 768"
    using assms(2) by (simp add: user_pd_no)
  then obtain pt where pt: "pde_get_pt (slot s (page_no pd) (unat (pd_no v))) = Some pt" "is_kernel_vaddr pt" "page_no pt = t"
      "slot s (page_no pd) (unat (pd_no v)) \<noteq> 0"
    using assms(1,3) by (auto simp: table_page_iff pagedir_ok_def)
  have "points_to (entry pt (pt_no v)) t (unat (pt_no v))"
    using pt(3) unat_entry [OF pde_get_pt_aligned [OF pt(1)] vaddr_idx(2)]
      entry_nonzero [OF pde_get_pt_aligned [OF pt(1)] pt(2) vaddr_idx(2)] by (simp add: points_to_def)
  moreover have "lookup_page pd v create s = Some (entry pt (pt_no v), s)"
    using assms(1,2) pt pd_nonzero [of pd] load_entry [OF _ vaddr_idx(1), of pd]
    by (simp add: lookup_page_def pagedir_ok_def Let_def)
  ultimately show ?thesis
    by blast
qed

lemma lookup_missing:
  assumes "pagedir_ok s pd" "is_user_vaddr v" "table_page s pd (unat (pd_no v)) = None"
  shows "lookup_page pd v False s = Some (0, s)"
  using assms slot_table_page [OF assms(1), of "unat (pd_no v)"] pd_nonzero [of pd] load_entry [OF _ vaddr_idx(1), of pd]
  by (simp add: lookup_page_def pagedir_ok_def Let_def user_pd_no)

text \<open>Writing an entry of a table changes that entry only.\<close>

lemma table_not_dir:
  assumes "pagedir_ok s pd" "i < 768" "table_page s pd i = Some t"
  shows "t \<noteq> page_no pd" "t \<in> dir_pages s pd"
proof -
  obtain pt where "pde_get_pt (slot s (page_no pd) i) = Some pt" "page_no pt = t" "slot s (page_no pd) i \<noteq> 0"
    using assms(3) by (auto simp: table_page_iff)
  then show "t \<noteq> page_no pd"
    using assms(1,2) unfolding pagedir_ok_def by force
qed (use assms in \<open>auto simp: dir_pages_def\<close>)

lemma write_entry:
  assumes "pagedir_ok s pd" "is_user_vaddr v" "table_page s pd (unat (pd_no v)) = Some t"
    "s' = set_slot t (unat (pt_no v)) x s"
  shows "pagedir_ok s' pd" "dir_pages s' pd = dir_pages s pd"
    "is_user_vaddr w \<Longrightarrow> pte_of s' pd w = (if page_no w = page_no v then Some x else pte_of s pd w)"
    "same_slots (- {t}) s s'"
proof -
  have i: "unat (pd_no v) < 768"
    using assms(2) by (simp add: user_pd_no)
  note T = table_not_dir [OF assms(1) i assms(3)]
  have dirs: "slot s' (page_no pd) j = slot s (page_no pd) j" if "j < 1024" for j
    using T(1) that by (simp add: assms(4) slot_set_slot vaddr_idx)
  then have tp: "table_page s' pd j = table_page s pd j" if "j < 1024" for j
    using that by (simp add: table_page_def)
  have "memory_ok (pages s')" "dir_pages s pd \<subseteq> used_pages (pages s')"
    using assms(1) by (simp_all add: pagedir_ok_def assms(4))
  then show "pagedir_ok s' pd" "dir_pages s' pd = dir_pages s pd"
    using pagedir_ok_cong [OF assms(1), of s'] dirs by simp_all
  show "same_slots (- {t}) s s'"
    by (simp add: same_slots_def assms(4) slot_set_slot vaddr_idx)
  assume w: "is_user_vaddr w"
  show "pte_of s' pd w = (if page_no w = page_no v then Some x else pte_of s pd w)"
  proof (cases "page_no w = page_no v")
    case True
    then show ?thesis
      using page_idx [OF True] assms(3) tp [OF vaddr_idx(1)] by (simp add: pte_of_def) (simp add: assms(4) slot_set_slot vaddr_idx)
  next
    case False
    have "u \<noteq> t \<or> unat (pt_no w) \<noteq> unat (pt_no v)" if "table_page s pd (unat (pd_no w)) = Some u" for u
    proof (rule ccontr)
      assume c: "\<not> (u \<noteq> t \<or> unat (pt_no w) \<noteq> unat (pt_no v))"
      then have "unat (pd_no w) = unat (pd_no v)"
        using assms(1,3) that i w unfolding pagedir_ok_def user_pd_no by (metis option.distinct(1))
      then show False
        using same_page [of w v] c False by (simp add: word_unat_eq_iff)
    qed
    then show ?thesis
      using tp [OF vaddr_idx(1)] False
      by (cases "table_page s pd (unat (pd_no w))") (auto simp: pte_of_def assms(4) slot_set_slot vaddr_idx)
  qed
qed

lemma load32_zero: "(\<And>i. i < 4 \<Longrightarrow> m (a + i) = 0) \<Longrightarrow> load32 m a = 0"
  using load32_cong [of m a "\<lambda>_. 0"] by (simp add: load32_def)

lemma slot_filled_other:
  assumes "ram p = filled (pages_bytes q 1) v (ram (pages s))" "i < 1024" "t \<noteq> q"
  shows "slot (s\<lparr>pages := p\<rparr>) t i = slot s t i"
proof -
  have "t * PGSIZE + 4096 \<le> q * PGSIZE \<or> q * PGSIZE + 4096 \<le> t * PGSIZE"
    using assms(3) mult_le_mono1 [of "Suc q" t PGSIZE] mult_le_mono1 [of "Suc t" q PGSIZE] by (auto simp: PGSIZE_eq)
  then have "load32 (ram p) (t * PGSIZE + 4 * i) = load32 (ram (pages s)) (t * PGSIZE + 4 * i)"
    using assms(1,2) by (intro load32_cong) (auto simp: filled_def pages_bytes_def PGSIZE_eq)
  then show ?thesis
    by (simp add: slot_def)
qed

lemma slot_filled:
  assumes "ram p = filled (pages_bytes q 1) 0 (ram (pages s))" "i < 1024"
  shows "slot (s\<lparr>pages := p\<rparr>) t i = (if t = q then 0 else slot s t i)"
proof (cases "t = q")
  case True
  then show ?thesis
    using assms by (auto simp: slot_def filled_def pages_bytes_def PGSIZE_eq intro!: load32_zero)
qed (use slot_filled_other [OF assms] in simp)

text \<open>A new table for a directory: an empty page that was free before is linked at index \<open>i\<close>.\<close>

definition table_added :: "mmu \<Rightarrow> u32 \<Rightarrow> nat \<Rightarrow> nat \<Rightarrow> mmu \<Rightarrow> bool" where
  "table_added s pd i q s' \<longleftrightarrow> memory_ok (pages s') \<and> q \<notin> used_pages (pages s) \<and>
     used_pages (pages s') = insert q (used_pages (pages s)) \<and>
     (\<forall>t. \<forall>j<1024. (t, j) \<noteq> (page_no pd, i) \<longrightarrow> slot s' t j = (if t = q then 0 else slot s t j)) \<and>
     (\<exists>pt. pde_get_pt (slot s' (page_no pd) i) = Some pt \<and> is_kernel_vaddr pt \<and> page_no pt = q) \<and>
     slot s' (page_no pd) i \<noteq> 0 \<and>
     base_page_dir s' = base_page_dir s \<and> ram_pages s' = ram_pages s \<and> cr3 s' = cr3 s \<and> tlb s' = tlb s"

lemma table_added_page:
  assumes "pagedir_ok s pd" "i < 768" "table_page s pd i = None" "table_added s pd i q s'" "j < 768"
  shows "table_page s' pd j = (if j = i then Some q else table_page s pd j)"
proof -
  have "page_no pd \<noteq> q"
    using assms(1,4) by (auto simp: pagedir_ok_def dir_pages_def table_added_def)
  then have "slot s' (page_no pd) j = slot s (page_no pd) j" if "j \<noteq> i"
    using assms(4,5) that by (simp add: table_added_def)
  then show ?thesis
    using assms(4) by (auto simp: table_page_def table_added_def Let_def)
qed

lemma table_added_ok:
  assumes "pagedir_ok s pd" "i < 768" "table_page s pd i = None" "table_added s pd i q s'"
  shows "pagedir_ok s' pd" "dir_pages s' pd = insert q (dir_pages s pd)"
    "is_user_vaddr w \<Longrightarrow> mapping_of s' pd w = mapping_of s pd w"
    "same_slots (used_pages (pages s) - dir_pages s pd) s s'"
proof -
  note tp = table_added_page [OF assms]
  have nq: "q \<notin> used_pages (pages s)" "page_no pd \<in> used_pages (pages s)" "page_no pd \<noteq> q"
    using assms(1,4) by (auto simp: pagedir_ok_def dir_pages_def table_added_def)
  have used: "t \<in> used_pages (pages s)" if "table_page s pd j = Some t" "j < 768" for t j
    using assms(1) that by (auto simp: pagedir_ok_def dir_pages_def)
  have "(\<exists>j<768. table_page s' pd j = Some t) \<longleftrightarrow> t = q \<or> (\<exists>j<768. table_page s pd j = Some t)" for t
    using tp assms(2,3) by (metis option.distinct(1) option.inject)
  then show dp: "dir_pages s' pd = insert q (dir_pages s pd)"
    by (auto simp: dir_pages_def)
  show "same_slots (used_pages (pages s) - dir_pages s pd) s s'"
    using assms(4) nq(1) by (auto simp: same_slots_def table_added_def dir_pages_def)
  have inj: "k = j" if "k < 768" "j < 768" "table_page s' pd k \<noteq> None" "table_page s' pd k = table_page s' pd j" for k j
    using assms(1) that used [of j q] used [of k q] nq(1) unfolding tp [OF that(1)] tp [OF that(2)] pagedir_ok_def
    by (auto split: if_splits)
  have "\<exists>pt. pde_get_pt (slot s' (page_no pd) j) = Some pt \<and> is_kernel_vaddr pt \<and> page_no pt \<noteq> page_no pd"
    if "j < 768" "slot s' (page_no pd) j \<noteq> 0" for j
    using assms(1,4) that nq(3) by (cases "j = i") (auto simp: table_added_def pagedir_ok_def)
  moreover have "dir_pages s' pd \<subseteq> used_pages (pages s')"
    using assms(1,4) dp by (auto simp: pagedir_ok_def table_added_def)
  ultimately show "pagedir_ok s' pd"
    using assms(1,4) inj unfolding pagedir_ok_def table_added_def by blast
  assume w: "is_user_vaddr w"
  then have k: "unat (pd_no w) < 768"
    by (simp add: user_pd_no)
  show "mapping_of s' pd w = mapping_of s pd w"
  proof (cases "unat (pd_no w) = i")
    case True
    have "slot s' q (unat (pt_no w)) = 0"
      using assms(4) nq(3) vaddr_idx(2) [of w] by (auto simp: table_added_def)
    then show ?thesis
      using True assms(2,3) tp [of i] by (simp add: mapping_of_def pte_of_def)
  next
    case False
    have "slot s' t (unat (pt_no w)) = slot s t (unat (pt_no w))" if "table_page s pd (unat (pd_no w)) = Some t" for t
      using assms(4) table_not_dir(1) [OF assms(1) k that] used [OF that k] nq(1) vaddr_idx(2) [of w]
      by (auto simp: table_added_def)
    then show ?thesis
      using False tp [OF k] by (cases "table_page s pd (unat (pd_no w))") (auto simp: mapping_of_def pte_of_def)
  qed
qed

lemma lookup_create:
  assumes "pagedir_ok s pd" "is_user_vaddr v"
  shows "(\<exists>pte t s1. lookup_page pd v True s = Some (pte, s1) \<and> points_to pte t (unat (pt_no v)) \<and>
      table_page s1 pd (unat (pd_no v)) = Some t \<and>
      (s1 = s \<or> table_page s pd (unat (pd_no v)) = None \<and> table_added s pd (unat (pd_no v)) t s1)) \<or>
    lookup_page pd v True s = Some (0, s) \<and> table_page s pd (unat (pd_no v)) = None \<and>
      pool_range (kernel_pool (pages s)) \<subseteq> used_pages (pages s)"
proof (cases "table_page s pd (unat (pd_no v))")
  case (Some t)
  then show ?thesis
    using lookup_existing [OF assms] by blast
next
  case None
  have i: "unat (pd_no v) < 768" "unat (pd_no v) < 1024"
    using assms(2) by (simp_all add: user_pd_no)
  have pd: "pg_ofs pd = 0" "is_kernel_vaddr pd" "pd \<noteq> 0" "memory_ok (pages s)" "page_no pd \<in> used_pages (pages s)"
    using assms(1) pd_nonzero [of pd] by (auto simp: pagedir_ok_def dir_pages_def)
  have z: "load s (entry pd (pd_no v)) = 0"
    using slot_table_page [OF assms(1) i(1)] None by (simp add: load_entry pd i)
  have fl: "PAL_ZERO AND PAL_ZERO \<noteq> 0" "PAL_ZERO AND PAL_ASSERT = 0" "pool_for PAL_ZERO (pages s) = kernel_pool (pages s)"
    by (simp_all add: PAL_ZERO_def PAL_ASSERT_def pool_for_def PAL_USER_def)
  consider pt p where "palloc_get_multiple PAL_ZERO 1 (pages s) = Some (pt, p)" "memory_ok p" "pt \<noteq> 0"
      "unat pt = page_no pt * PGSIZE" "is_kernel_vaddr pt" "page_no pt \<notin> used_pages (pages s)"
      "used_pages p = insert (page_no pt) (used_pages (pages s))"
      "ram p = filled (pages_bytes (page_no pt) 1) 0 (ram (pages s))"
    | "palloc_get_multiple PAL_ZERO 1 (pages s) = Some (0, pages s)" "pool_range (kernel_pool (pages s)) \<subseteq> used_pages (pages s)"
    using palloc_get_multiple_ok [OF pd(4) zero_less_one, of PAL_ZERO] fl by (auto simp: subset_iff)
  then show ?thesis
  proof cases
    case 1
    let ?s = "s\<lparr>pages := p\<rparr>"
    have al: "pg_ofs pt = 0"
      using aligned_intro [OF 1(4)] by simp
    then obtain e where e: "pde_create pt = Some e" "pde_get_pt e = Some pt"
      using pde_round_trip [OF 1(5)] by blast
    have ne: "e \<noteq> 0"
      using e(2) by (auto simp: pde_get_pt_def PTE_P_def)
    let ?s1 = "set_slot (page_no pd) (unat (pd_no v)) e ?s"
    have sl: "slot ?s1 t j = (if t = page_no pd \<and> j = unat (pd_no v) then e else if t = page_no pt then 0 else slot s t j)"
      if "j < 1024" for t j
      using slot_set_slot [OF i(2) that] slot_filled [OF 1(8) that] by simp
    have nq: "page_no pd \<noteq> page_no pt"
      using pd(5) 1(6) by auto
    have "table_added s pd (unat (pd_no v)) (page_no pt) ?s1"
      using 1 sl i(2) e(2) ne by (auto simp: table_added_def)
    moreover have "lookup_page pd v True s = Some (entry pt (pt_no v), ?s1)"
      using 1(1,3) z e pd assms(2) sl [OF i(2)] store_entry [OF pd(1) i(2)] load_entry [OF pd(1) i(2)]
      by (simp add: lookup_page_def palloc_get_page_def Let_def)
    moreover have "points_to (entry pt (pt_no v)) (page_no pt) (unat (pt_no v))"
      using unat_entry [OF al vaddr_idx(2)] entry_nonzero [OF al 1(5) vaddr_idx(2)] by (simp add: points_to_def)
    moreover have "table_page ?s1 pd (unat (pd_no v)) = Some (page_no pt)"
      using sl [OF i(2)] e(2) ne by (simp add: table_page_def)
    ultimately show ?thesis
      using None by blast
  next
    case 2
    have "s\<lparr>pages := pages s\<rparr> = s"
      by simp
    then show ?thesis
      using 2 z pd assms(2) None by (simp add: lookup_page_def palloc_get_page_def Let_def)
  qed
qed

text \<open>What a call with \<^verbatim>\<open>create\<close> leaves of the rest of memory.\<close>

lemma lookup_create_ok:
  assumes "pagedir_ok s pd" "is_user_vaddr v" "lookup_page pd v True s = Some (pte, s1)" "pte \<noteq> 0"
  shows "\<exists>t. points_to pte t (unat (pt_no v)) \<and> table_page s1 pd (unat (pd_no v)) = Some t \<and> pagedir_ok s1 pd \<and>
    (\<forall>w. is_user_vaddr w \<longrightarrow> mapping_of s1 pd w = mapping_of s pd w) \<and>
    same_slots (used_pages (pages s) - dir_pages s pd) s s1 \<and> used_pages (pages s) \<subseteq> used_pages (pages s1) \<and>
    dir_pages s1 pd \<inter> used_pages (pages s) = dir_pages s pd \<and> memory_ok (pages s1) \<and>
    base_page_dir s1 = base_page_dir s \<and> ram_pages s1 = ram_pages s \<and> cr3 s1 = cr3 s \<and> tlb s1 = tlb s"
proof -
  have i: "unat (pd_no v) < 768"
    using assms(2) by (simp add: user_pd_no)
  obtain t where t: "points_to pte t (unat (pt_no v))" "table_page s1 pd (unat (pd_no v)) = Some t"
      "s1 = s \<or> table_page s pd (unat (pd_no v)) = None \<and> table_added s pd (unat (pd_no v)) t s1"
    using lookup_create [OF assms(1,2)] assms(3,4) by auto
  have D: "dir_pages s pd \<subseteq> used_pages (pages s)" "memory_ok (pages s)"
    using assms(1) by (simp_all add: pagedir_ok_def)
  from t(3) show ?thesis
  proof
    assume "s1 = s"
    then show ?thesis
      using t D assms(1) by (auto simp: same_slots_def)
  next
    assume a: "table_page s pd (unat (pd_no v)) = None \<and> table_added s pd (unat (pd_no v)) t s1"
    note A = table_added_ok [OF assms(1) i conjunct1 [OF a] conjunct2 [OF a]]
    have "t \<notin> used_pages (pages s)" "used_pages (pages s1) = insert t (used_pages (pages s))" "memory_ok (pages s1)"
        "base_page_dir s1 = base_page_dir s \<and> ram_pages s1 = ram_pages s \<and> cr3 s1 = cr3 s \<and> tlb s1 = tlb s"
      using conjunct2 [OF a] by (simp_all add: table_added_def)
    then show ?thesis
      using t(1,2) A D(1) by auto
  qed
qed

section \<open>The operations on the map\<close>

lemma get_page_mapping:
  assumes "pagedir_ok s pd" "is_user_vaddr v"
  shows "pagedir_get_page pd v s = (case mapping_of s pd v of
      None \<Rightarrow> Some 0 | Some e \<Rightarrow> do { page \<leftarrow> pte_get_page e; Some (page + pg_ofs v) })"
proof (cases "table_page s pd (unat (pd_no v))")
  case None
  then show ?thesis
    using lookup_missing [OF assms] assms(2) by (simp add: pagedir_get_page_def mapping_of_def pte_of_def)
next
  case (Some t)
  then obtain pte where p: "lookup_page pd v False s = Some (pte, s)" "points_to pte t (unat (pt_no v))"
    using lookup_existing [OF assms, of t False] by blast
  then have "pte \<noteq> 0"
    by (simp add: points_to_def)
  then show ?thesis
    using p Some assms(2) by (simp add: pagedir_get_page_def mapping_of_def pte_of_def points_to_load)
qed

lemma mapping_of_write:
  assumes "pagedir_ok s pd" "is_user_vaddr v" "table_page s pd (unat (pd_no v)) = Some t" "is_user_vaddr w"
  shows "mapping_of (set_slot t (unat (pt_no v)) x s) pd w =
    (if page_no w = page_no v then if x AND PTE_P \<noteq> 0 then Some x else None else mapping_of s pd w)"
  using write_entry(3) [OF assms(1-3) refl assms(4)] by (simp add: mapping_of_def)

lemma user_same_page: "page_no w = page_no v \<Longrightarrow> is_user_vaddr v \<Longrightarrow> is_user_vaddr w"
  using page_idx [of w v] by (simp add: user_pd_no)

text \<open>A step on one directory: the mapping of the others is untouched.\<close>

definition others_kept :: "mmu \<Rightarrow> u32 \<Rightarrow> mmu \<Rightarrow> bool" where
  "others_kept s pd s' \<longleftrightarrow> (\<forall>pd2. pagedir_ok s pd2 \<and> dir_pages s pd2 \<inter> dir_pages s pd = {} \<longrightarrow>
     pagedir_ok s' pd2 \<and> dir_pages s' pd2 = dir_pages s pd2 \<and>
     (\<forall>v. is_user_vaddr v \<longrightarrow> mapping_of s' pd2 v = mapping_of s pd2 v))"

lemma others_keptI:
  assumes "same_slots (used_pages (pages s) - dir_pages s pd) s s'" "memory_ok (pages s')"
    "used_pages (pages s) \<subseteq> used_pages (pages s')"
  shows "others_kept s pd s'"
  unfolding others_kept_def
proof (intro allI impI)
  fix pd2
  assume a: "pagedir_ok s pd2 \<and> dir_pages s pd2 \<inter> dir_pages s pd = {}"
  then have u: "dir_pages s pd2 \<subseteq> used_pages (pages s) - dir_pages s pd"
    by (auto simp: pagedir_ok_def)
  then have f: "same_slots (dir_pages s pd2) s s'"
    using assms(1) by (auto simp: same_slots_def)
  have "pagedir_ok s' pd2"
    using a u assms(3) by (intro frame_pagedir_ok [OF _ f assms(2)]) auto
  then show "pagedir_ok s' pd2 \<and> dir_pages s' pd2 = dir_pages s pd2 \<and>
      (\<forall>v. is_user_vaddr v \<longrightarrow> mapping_of s' pd2 v = mapping_of s pd2 v)"
    using frame_dir_pages [OF f] frame_mapping [OF f] by simp
qed

lemma set_page_ok:
  assumes "pagedir_ok s pd" "is_user_vaddr upage" "pg_ofs upage = 0" "is_kernel_vaddr kpage" "pg_ofs kpage = 0"
    "unat (drop_bit PTSHIFT (kpage - PHYS_BASE)) < ram_pages s" "pd \<noteq> base_page_dir s" "mapping_of s pd upage = None"
  shows "pagedir_set_page pd upage kpage writable s = Some (False, s) \<and> pool_range (kernel_pool (pages s)) \<subseteq> used_pages (pages s) \<or>
    (\<exists>s' e. pagedir_set_page pd upage kpage writable s = Some (True, s') \<and> pte_create_user kpage writable = Some e \<and>
      pagedir_ok s' pd \<and> others_kept s pd s' \<and>
      (\<forall>v. is_user_vaddr v \<longrightarrow> mapping_of s' pd v = (if page_no v = page_no upage then Some e else mapping_of s pd v)))"
proof -
  obtain e where e: "pte_create_user kpage writable = Some e" "e AND PTE_P \<noteq> 0"
    using pte_user_round_trip [OF assms(4,5)] by blast
  have vt: "vtop kpage = Some (kpage - PHYS_BASE)"
    using assms(4) by (simp add: vtop_def)
  note pre = assms(2,3,5-7) vt
  consider "lookup_page pd upage True s = Some (0, s)" "pool_range (kernel_pool (pages s)) \<subseteq> used_pages (pages s)"
    | pte s1 where "lookup_page pd upage True s = Some (pte, s1)" "pte \<noteq> 0"
    using lookup_create [OF assms(1,2)] by (auto simp: points_to_def)
  then show ?thesis
  proof cases
    case 1
    then show ?thesis
      using pre by (simp add: pagedir_set_page_def)
  next
    case 2
    obtain t where t: "points_to pte t (unat (pt_no upage))" "table_page s1 pd (unat (pd_no upage)) = Some t" "pagedir_ok s1 pd"
        "\<forall>w. is_user_vaddr w \<longrightarrow> mapping_of s1 pd w = mapping_of s pd w"
        "same_slots (used_pages (pages s) - dir_pages s pd) s s1" "used_pages (pages s) \<subseteq> used_pages (pages s1)"
        "dir_pages s1 pd \<inter> used_pages (pages s) = dir_pages s pd" "memory_ok (pages s1)"
      using lookup_create_ok [OF assms(1,2) 2] by blast
    define s2 where "s2 = set_slot t (unat (pt_no upage)) e s1"
    note W = write_entry [OF t(3) assms(2) t(2) s2_def]
    have "mapping_of s1 pd upage = None"
      using t(4) assms(2,8) by simp
    then have np: "load s1 pte AND PTE_P = 0"
      using t(2) by (simp add: mapping_of_def pte_of_def points_to_load [OF t(1)] split: if_splits)
    have "pagedir_set_page pd upage kpage writable s = Some (True, s2)"
      using pre 2 np e points_to_store [OF t(1)] by (simp add: pagedir_set_page_def s2_def)
    moreover have "t \<in> dir_pages s1 pd"
      using table_not_dir(2) [OF t(3) _ t(2)] assms(2) by (simp add: user_pd_no)
    then have "t \<notin> used_pages (pages s) - dir_pages s pd"
      using t(7) by blast
    then have "same_slots (used_pages (pages s) - dir_pages s pd) s s2"
      using t(5) W(4) unfolding same_slots_def by (metis ComplI singletonD)
    then have "others_kept s pd s2"
      using t(6,8) by (intro others_keptI) (simp_all add: s2_def)
    moreover have "mapping_of s2 pd v = (if page_no v = page_no upage then Some e else mapping_of s pd v)" if "is_user_vaddr v" for v
      using mapping_of_write [OF t(3) assms(2) t(2) that, of e] t(4) that e(2) by (simp add: s2_def)
    ultimately show ?thesis
      using e(1) W(1) by blast
  qed
qed

text \<open>A directory lives in the memory pages alone.\<close>

lemma pages_only:
  assumes "pages s' = pages s"
  shows "slot s' = slot s" "table_page s' = table_page s" "dir_pages s' = dir_pages s" "pte_of s' = pte_of s"
    "mapping_of s' = mapping_of s" "pagedir_ok s' = pagedir_ok s"
proof -
  show sl: "slot s' = slot s"
    using assms by (auto simp: slot_def fun_eq_iff)
  then show tp: "table_page s' = table_page s"
    by (auto simp: table_page_def fun_eq_iff)
  then show dp: "dir_pages s' = dir_pages s"
    by (auto simp: dir_pages_def fun_eq_iff)
  show pt: "pte_of s' = pte_of s"
    using sl tp by (auto simp: pte_of_def fun_eq_iff)
  then show "mapping_of s' = mapping_of s"
    by (auto simp: mapping_of_def fun_eq_iff)
  show "pagedir_ok s' = pagedir_ok s"
    using assms sl tp dp by (auto simp: pagedir_ok_def fun_eq_iff)
qed

lemma invalidate_ok:
  assumes "cr3 s < PHYS_BASE" "is_kernel_vaddr pd"
  shows "\<exists>s'. invalidate_pagedir pd s = Some s' \<and> pages s' = pages s \<and> base_page_dir s' = base_page_dir s \<and>
    ram_pages s' = ram_pages s \<and> cr3 s' = cr3 s \<and> tlb s' = (if pd = cr3 s + PHYS_BASE then Map.empty else tlb s)"
proof -
  have "pd \<noteq> 0"
    using pd_nonzero [OF assms(2)] .
  then show ?thesis
    using assms by (auto simp: invalidate_pagedir_def active_pd_def activate_pd_def ptov_def vtop_def)
qed

text \<open>Changing the flags of an entry in place, as the last three operations do.\<close>

lemma write_flags_ok:
  assumes "pagedir_ok s pd" "is_user_vaddr v" "pte_of s pd v = Some e" "cr3 s < PHYS_BASE"
  shows "\<exists>pte s1 s2. lookup_page pd v False s = Some (pte, s) \<and> pte \<noteq> 0 \<and> load s pte = e \<and> store pte x s = s1 \<and>
    invalidate_pagedir pd s1 = Some s2 \<and> tlb s2 = (if pd = cr3 s + PHYS_BASE then Map.empty else tlb s) \<and>
    (\<forall>s'\<in>{s1, s2}. pagedir_ok s' pd \<and> others_kept s pd s' \<and> cr3 s' = cr3 s \<and>
      (\<forall>w. is_user_vaddr w \<longrightarrow> pte_of s' pd w = (if page_no w = page_no v then Some x else pte_of s pd w)))"
proof -
  obtain t where t: "table_page s pd (unat (pd_no v)) = Some t" "slot s t (unat (pt_no v)) = e"
    using assms(3) by (auto simp: pte_of_def)
  then obtain pte where p: "lookup_page pd v False s = Some (pte, s)" "points_to pte t (unat (pt_no v))"
    using lookup_existing [OF assms(1,2), of t False] by blast
  define s1 where "s1 = set_slot t (unat (pt_no v)) x s"
  note W = write_entry [OF assms(1,2) t(1) s1_def]
  have k: "is_kernel_vaddr pd" "cr3 s1 < PHYS_BASE"
    using assms(1,4) by (simp_all add: pagedir_ok_def s1_def)
  obtain s2 where s2: "invalidate_pagedir pd s1 = Some s2" "pages s2 = pages s1" "cr3 s2 = cr3 s1"
      "tlb s2 = (if pd = cr3 s1 + PHYS_BASE then Map.empty else tlb s1)"
    using invalidate_ok [OF k(2,1)] by blast
  have "t \<in> dir_pages s pd"
    using table_not_dir(2) [OF assms(1) _ t(1)] assms(2) by (simp add: user_pd_no)
  then have "same_slots (used_pages (pages s) - dir_pages s pd) s s1"
    using W(4) unfolding same_slots_def by (metis ComplI DiffE singletonD)
  moreover have "memory_ok (pages s1)" "used_pages (pages s) \<subseteq> used_pages (pages s1)"
    using assms(1) by (simp_all add: pagedir_ok_def s1_def)
  ultimately have o: "others_kept s pd s1"
    by (rule others_keptI)
  then have "others_kept s pd s2"
    using pages_only [OF s2(2)] by (simp add: others_kept_def)
  moreover have "pte \<noteq> 0" "load s pte = e" "store pte x s = s1"
    using p(2) t(2) points_to_load [OF p(2)] points_to_store [OF p(2)] by (simp_all add: points_to_def s1_def)
  ultimately show ?thesis
    using p(1) s2 o W(1,3) pages_only [OF s2(2)] by (intro exI [of _ pte] exI [of _ s1] exI [of _ s2]) (auto simp: s1_def)
qed

lemma is_flag_pte_of:
  assumes "pagedir_ok s pd" "is_user_vaddr v"
  shows "pagedir_is_dirty pd v s = Some (case pte_of s pd v of Some e \<Rightarrow> e AND PTE_D \<noteq> 0 | None \<Rightarrow> False)"
    "pagedir_is_accessed pd v s = Some (case pte_of s pd v of Some e \<Rightarrow> e AND PTE_A \<noteq> 0 | None \<Rightarrow> False)"
proof -
  show "pagedir_is_dirty pd v s = Some (case pte_of s pd v of Some e \<Rightarrow> e AND PTE_D \<noteq> 0 | None \<Rightarrow> False)"
  proof (cases "table_page s pd (unat (pd_no v))")
    case (Some t)
    then show ?thesis
      using lookup_existing [OF assms Some, of False] points_to_load
      by (auto simp: pagedir_is_dirty_def pte_of_def points_to_def)
  qed (use lookup_missing [OF assms] in \<open>simp add: pagedir_is_dirty_def pte_of_def\<close>)
  show "pagedir_is_accessed pd v s = Some (case pte_of s pd v of Some e \<Rightarrow> e AND PTE_A \<noteq> 0 | None \<Rightarrow> False)"
  proof (cases "table_page s pd (unat (pd_no v))")
    case (Some t)
    then show ?thesis
      using lookup_existing [OF assms Some, of False] points_to_load
      by (auto simp: pagedir_is_accessed_def pte_of_def points_to_def)
  qed (use lookup_missing [OF assms] in \<open>simp add: pagedir_is_accessed_def pte_of_def\<close>)
qed

section \<open>Properties\<close>

lemma and_not_absent:
  assumes "(e :: u32) AND f = 0"
  shows "e AND NOT f = e"
proof (rule bit_word_eqI)
  show "bit (e AND NOT f) n \<longleftrightarrow> bit e n" if "n < LENGTH(32)" for n
    using arg_cong [OF assms, of "\<lambda>w. bit w n"] that by (auto simp: bit_simps)
qed

lemma get_page_cong:
  assumes "pagedir_ok s pd" "pagedir_ok s' pd" "is_user_vaddr v" "mapping_of s' pd v = mapping_of s pd v"
  shows "pagedir_get_page pd v s' = pagedir_get_page pd v s"
  using assms by (simp add: get_page_mapping)

text \<open>
  C9: Mapping a user page returns and either fails, changing nothing, because the kernel pool has no page
  left for a table, or makes every address of the page translate to the frame and leaves the translation of
  all other user pages of this directory, and of every directory that shares no page with it, as it was.
\<close>

theorem pagedir_set_page_maps:
  assumes "pagedir_ok s pd" "is_user_vaddr upage" "pg_ofs upage = 0" "is_kernel_vaddr kpage" "pg_ofs kpage = 0"
    "unat (drop_bit PTSHIFT (kpage - PHYS_BASE)) < ram_pages s" "pd \<noteq> base_page_dir s" "mapping_of s pd upage = None"
  shows "pagedir_set_page pd upage kpage writable s = Some (False, s) \<and> pool_range (kernel_pool (pages s)) \<subseteq> used_pages (pages s) \<or>
    (\<exists>s'. pagedir_set_page pd upage kpage writable s = Some (True, s') \<and> pagedir_ok s' pd \<and>
      (\<forall>v. page_no v = page_no upage \<longrightarrow> pagedir_get_page pd v s' = Some (kpage + pg_ofs v)) \<and>
      (\<forall>v. is_user_vaddr v \<and> page_no v \<noteq> page_no upage \<longrightarrow> pagedir_get_page pd v s' = pagedir_get_page pd v s) \<and>
      (\<forall>pd2 v. pagedir_ok s pd2 \<and> dir_pages s pd2 \<inter> dir_pages s pd = {} \<and> is_user_vaddr v \<longrightarrow>
        pagedir_ok s' pd2 \<and> pagedir_get_page pd2 v s' = pagedir_get_page pd2 v s))"
  using set_page_ok [OF assms, of writable]
proof (elim disjE exE conjE)
  fix s' e
  assume a: "pagedir_set_page pd upage kpage writable s = Some (True, s')" "pte_create_user kpage writable = Some e"
    "pagedir_ok s' pd" "others_kept s pd s'"
    "\<forall>v. is_user_vaddr v \<longrightarrow> mapping_of s' pd v = (if page_no v = page_no upage then Some e else mapping_of s pd v)"
  have "pte_get_page e = Some kpage"
    using pte_user_round_trip [OF assms(4,5), of writable] a(2) by auto
  then have "pagedir_get_page pd v s' = Some (kpage + pg_ofs v)" if "page_no v = page_no upage" for v
    using get_page_mapping [OF a(3), of v] a(5) user_same_page [OF that assms(2)] that by simp
  moreover have "pagedir_get_page pd v s' = pagedir_get_page pd v s" if "is_user_vaddr v" "page_no v \<noteq> page_no upage" for v
    using get_page_cong [OF assms(1) a(3) that(1)] a(5) that by simp
  moreover have "pagedir_ok s' pd2 \<and> pagedir_get_page pd2 v s' = pagedir_get_page pd2 v s"
    if "pagedir_ok s pd2" "dir_pages s pd2 \<inter> dir_pages s pd = {}" "is_user_vaddr v" for pd2 v
    using a(4) that get_page_cong [OF that(1) _ that(3), of s'] unfolding others_kept_def by blast
  ultimately show ?thesis
    using a(1,3) by blast
qed blast

definition sample_mmu :: mmu where
  "sample_mmu = \<lparr>pages = sample_memory\<lparr>ram := (\<lambda>_. 0)\<rparr>, base_page_dir = 0xc0020000, ram_pages = 1024, cr3 = 0x101000,
     tlb = [0x8048000 \<mapsto> 0xc0105000]\<rparr>"

lemma sample_mmu_slot: "slot sample_mmu t i = 0"
  by (simp add: slot_def sample_mmu_def load32_def)

lemma sample_mmu_dir: "pg_ofs 0xc0101000 = 0" "page_no 0xc0101000 = 0xc0101"
  using aligned_intro [of "0xc0101000" "0xc0101"] by (simp_all add: PGSIZE_eq)

lemma sample_mmu_ok: "pagedir_ok sample_mmu 0xc0101000"
proof -
  have "table_page sample_mmu pd i = None" for pd i
    by (simp add: table_page_def sample_mmu_slot)
  moreover have "memory_ok (pages sample_mmu)" "used_pages (pages sample_mmu) = {0xc0101}"
    using sample_memory_ok sample_memory_used(1) by (simp_all add: sample_mmu_def)
  ultimately show ?thesis
    using sample_mmu_dir by (simp add: pagedir_ok_def dir_pages_def sample_mmu_slot is_kernel_vaddr_def PHYS_BASE_def)
qed

lemma sample_mmu_unmapped: "mapping_of sample_mmu 0xc0101000 v = None"
  by (simp add: mapping_of_def pte_of_def table_page_def sample_mmu_slot)

lemma sample_pages: "pg_ofs 0x8048000 = 0 \<and> page_no 0x8048000 = 0x8048" "pg_ofs 0xc0105000 = 0 \<and> page_no 0xc0105000 = 0xc0105"
  by (rule aligned_intro; simp add: PGSIZE_eq)+

theorem pagedir_set_page_maps_witness:
  "\<exists>s'. pagedir_set_page 0xc0101000 0x8048000 0xc0105000 True sample_mmu = Some (True, s') \<and>
    pagedir_get_page 0xc0101000 0x8048000 s' = Some 0xc0105000"
proof -
  have u: "is_user_vaddr 0x8048000" "is_kernel_vaddr 0xc0105000" "unat (drop_bit PTSHIFT (0xc0105000 - PHYS_BASE)) < ram_pages sample_mmu"
      "0xc0101000 \<noteq> base_page_dir sample_mmu"
    by (simp_all add: is_user_vaddr_def is_kernel_vaddr_def PHYS_BASE_def sample_mmu_def PTSHIFT_def PGBITS_def drop_bit_eq_div)
  have "\<not> pool_range (kernel_pool (pages sample_mmu)) \<subseteq> used_pages (pages sample_mmu)"
    using sample_memory_used(2) [of 0] sample_memory_used(1) by (simp add: sample_mmu_def pool_for_def)
  then obtain s' where "pagedir_set_page 0xc0101000 0x8048000 0xc0105000 True sample_mmu = Some (True, s')"
      "\<forall>v. page_no v = page_no 0x8048000 \<longrightarrow> pagedir_get_page 0xc0101000 v s' = Some (0xc0105000 + pg_ofs v)"
    using pagedir_set_page_maps [OF sample_mmu_ok u(1) _ u(2) _ u(3,4), of True] sample_pages
      sample_mmu_unmapped by auto
  then show ?thesis
    using sample_pages by simp
qed

text \<open>
  C16: Clearing a page returns; afterwards no address of it is mapped, the other bits of its entry are kept,
  other pages and other directories translate as before, and if the directory is the active one and the page
  was mapped, the processor's translation buffer has been emptied.
\<close>

theorem pagedir_clear_page_unmaps:
  assumes "pagedir_ok s pd" "is_user_vaddr upage" "pg_ofs upage = 0" "cr3 s < PHYS_BASE"
  shows "\<exists>s'. pagedir_clear_page pd upage s = Some s' \<and> pagedir_ok s' pd \<and>
    (\<forall>v. page_no v = page_no upage \<longrightarrow> pagedir_get_page pd v s' = Some 0) \<and>
    pte_of s' pd upage = map_option (\<lambda>e. e AND NOT PTE_P) (pte_of s pd upage) \<and>
    (\<forall>v. is_user_vaddr v \<and> page_no v \<noteq> page_no upage \<longrightarrow> pagedir_get_page pd v s' = pagedir_get_page pd v s) \<and>
    others_kept s pd s' \<and> (mapping_of s pd upage \<noteq> None \<and> active_pd s = Some pd \<longrightarrow> tlb s' = Map.empty)"
proof (cases "mapping_of s pd upage")
  case None
  have same: "mapping_of s pd v = None" if "page_no v = page_no upage" for v
    using None page_idx [OF that] by (simp add: mapping_of_def pte_of_def)
  have get: "pagedir_get_page pd v s = Some 0" if "page_no v = page_no upage" for v
    using get_page_mapping [OF assms(1) user_same_page [OF that assms(2)]] same [OF that] by simp
  have bits: "pte_of s pd upage = map_option (\<lambda>e. e AND NOT PTE_P) (pte_of s pd upage)"
    using None by (auto simp: mapping_of_def and_not_absent split: option.splits if_splits)
  have "pagedir_clear_page pd upage s = Some s"
  proof (cases "table_page s pd (unat (pd_no upage))")
    case (Some t)
    then obtain pte where "lookup_page pd upage False s = Some (pte, s)" "points_to pte t (unat (pt_no upage))"
      using lookup_existing [OF assms(1,2) Some, of False] by blast
    then show ?thesis
      using None Some assms(2,3) by (simp add: pagedir_clear_page_def mapping_of_def pte_of_def points_to_load split: if_splits)
  qed (use lookup_missing [OF assms(1,2)] assms(2,3) in \<open>simp add: pagedir_clear_page_def\<close>)
  then show ?thesis
    using None get bits assms(1) by (intro exI [of _ s]) (simp add: others_kept_def)
next
  case (Some e)
  then have e: "pte_of s pd upage = Some e" "e AND PTE_P \<noteq> 0"
    by (auto simp: mapping_of_def split: option.splits if_splits)
  define x where "x = e AND NOT PTE_P"
  have xp: "x AND PTE_P = 0"
    by (simp add: x_def and.assoc)
  obtain pte s1 s2 where w: "lookup_page pd upage False s = Some (pte, s)" "pte \<noteq> 0" "load s pte = e" "store pte x s = s1"
      "invalidate_pagedir pd s1 = Some s2" "tlb s2 = (if pd = cr3 s + PHYS_BASE then Map.empty else tlb s)"
      "pagedir_ok s2 pd" "others_kept s pd s2"
      "\<forall>w. is_user_vaddr w \<longrightarrow> pte_of s2 pd w = (if page_no w = page_no upage then Some x else pte_of s pd w)"
    using write_flags_ok [OF assms(1,2) e(1) assms(4), of x] by blast
  have "pagedir_clear_page pd upage s = Some s2"
    using w(1-5) e(2) assms(2,3) by (simp add: pagedir_clear_page_def x_def)
  moreover have "pagedir_get_page pd v s2 = Some 0" if "page_no v = page_no upage" for v
    using get_page_mapping [OF w(7), of v] w(9) user_same_page [OF that assms(2)] that xp by (simp add: mapping_of_def)
  moreover have "pagedir_get_page pd v s2 = pagedir_get_page pd v s" if "is_user_vaddr v" "page_no v \<noteq> page_no upage" for v
    using get_page_cong [OF assms(1) w(7) that(1)] w(9) that by (simp add: mapping_of_def)
  moreover have "tlb s2 = Map.empty" if "active_pd s = Some pd"
    using w(6) that assms(4) by (simp add: active_pd_def ptov_def)
  ultimately show ?thesis
    using w(7-9) e(1) assms(2) by (intro exI [of _ s2]) (simp add: x_def)
qed

lemma flag_disjoint:
  assumes "f = PTE_D \<and> g = PTE_A \<or> f = PTE_A \<and> g = PTE_D"
  shows "(e OR f) AND PTE_ADDR = e AND PTE_ADDR" "(e OR f) AND PTE_P = e AND PTE_P" "(e OR f) AND g = e AND g" "(e OR f) AND f \<noteq> 0"
    "(e AND NOT f) AND PTE_ADDR = e AND PTE_ADDR" "(e AND NOT f) AND PTE_P = e AND PTE_P" "(e AND NOT f) AND g = e AND g"
    "(e AND NOT f) AND f = 0"
proof -
  obtain i j where ij: "f = 2 ^ i" "g = 2 ^ j" "i < 12" "j < 12" "0 < i" "i \<noteq> j"
    using assms that [of 6 5] that [of 5 6] by (auto simp: flag_bits)
  show "(e OR f) AND f \<noteq> 0"
    unfolding ij and_single_bit using ij(3) by (simp add: bit_simps)
  show "(e OR f) AND PTE_ADDR = e AND PTE_ADDR" "(e AND NOT f) AND PTE_ADDR = e AND PTE_ADDR"
    unfolding ij PTE_ADDR_mask using ij(3) by (rule_tac [!] bit_word_eqI) (auto simp: bit_simps)
  show "(e OR f) AND PTE_P = e AND PTE_P" "(e AND NOT f) AND PTE_P = e AND PTE_P"
    unfolding ij flag_bits(1) using ij(5) by (rule_tac [!] bit_word_eqI) (auto simp: bit_simps)
  show "(e OR f) AND g = e AND g" "(e AND NOT f) AND g = e AND g"
    unfolding ij using ij(6) by (rule_tac [!] bit_word_eqI) (auto simp: bit_simps)
  show "(e AND NOT f) AND f = 0"
    by (simp add: and.assoc)
qed

lemma get_page_flags:
  assumes "pagedir_ok s pd" "pagedir_ok s' pd" "pte_of s pd v = Some e" "is_user_vaddr v"
    "\<forall>w. is_user_vaddr w \<longrightarrow> pte_of s' pd w = (if page_no w = page_no v then Some x else pte_of s pd w)"
    "x AND PTE_ADDR = e AND PTE_ADDR" "x AND PTE_P = e AND PTE_P" "is_user_vaddr w"
  shows "pagedir_get_page pd w s' = pagedir_get_page pd w s"
proof (cases "page_no w = page_no v")
  case True
  have "pte_of s pd w = Some e"
    using assms(3) page_idx [OF True] by (simp add: pte_of_def)
  then show ?thesis
    using True assms get_page_mapping [of _ pd w] by (simp add: mapping_of_def pte_get_page_def)
qed (use assms get_page_cong [OF assms(1,2,8)] in \<open>simp add: mapping_of_def\<close>)

text \<open>The value an entry gets when a flag is set or cleared.\<close>

definition with_flag :: "u32 \<Rightarrow> bool \<Rightarrow> u32 \<Rightarrow> u32" where
  "with_flag f b e = (if b then e OR f else e AND NOT f)"

lemma set_flag_ok:
  assumes "pagedir_ok s pd" "is_user_vaddr v" "pte_of s pd v = Some e" "cr3 s < PHYS_BASE"
    "f = PTE_D \<and> g = PTE_A \<or> f = PTE_A \<and> g = PTE_D"
  shows "\<exists>pte s1 s2. lookup_page pd v False s = Some (pte, s) \<and> pte \<noteq> 0 \<and> load s pte = e \<and> store pte (with_flag f b e) s = s1 \<and>
    invalidate_pagedir pd s1 = Some s2 \<and>
    (\<forall>s'\<in>{s1, s2}. pagedir_ok s' pd \<and> pte_of s' pd v = Some (with_flag f b e) \<and>
      (\<forall>w. is_user_vaddr w \<longrightarrow> pagedir_get_page pd w s' = pagedir_get_page pd w s))"
proof -
  obtain pte s1 s2 where w: "lookup_page pd v False s = Some (pte, s)" "pte \<noteq> 0" "load s pte = e" "store pte (with_flag f b e) s = s1"
      "invalidate_pagedir pd s1 = Some s2"
      "\<forall>s'\<in>{s1, s2}. pagedir_ok s' pd \<and> others_kept s pd s' \<and> cr3 s' = cr3 s \<and>
        (\<forall>w. is_user_vaddr w \<longrightarrow> pte_of s' pd w = (if page_no w = page_no v then Some (with_flag f b e) else pte_of s pd w))"
    using write_flags_ok [OF assms(1-4), of "with_flag f b e"] by (elim exE conjE)
  have "with_flag f b e AND PTE_ADDR = e AND PTE_ADDR" "with_flag f b e AND PTE_P = e AND PTE_P"
    using flag_disjoint [OF assms(5), of e] by (simp_all add: with_flag_def)
  have "pagedir_ok s' pd \<and> pte_of s' pd v = Some (with_flag f b e) \<and>
      (\<forall>w. is_user_vaddr w \<longrightarrow> pagedir_get_page pd w s' = pagedir_get_page pd w s)" if "s' \<in> {s1, s2}" for s'
  proof -
    have s': "pagedir_ok s' pd"
        "\<forall>w. is_user_vaddr w \<longrightarrow> pte_of s' pd w = (if page_no w = page_no v then Some (with_flag f b e) else pte_of s pd w)"
      using bspec [OF w(6) that] by simp_all
    note G = get_page_flags [OF assms(1) s'(1) assms(3,2) s'(2) \<open>with_flag f b e AND PTE_ADDR = _\<close> \<open>with_flag f b e AND PTE_P = _\<close>]
    then show ?thesis
      using s' assms(2) by simp
  qed
  then show ?thesis
    using w(1-5) by (intro exI [of _ pte] exI [of _ s1] exI [of _ s2]) simp
qed

text \<open>
  C22: Setting the dirty or the accessed bit of an entry to a value and reading it back gives that value;
  neither changes the other bit nor the translation of any address.
\<close>

theorem pagedir_flags_round_trip:
  assumes "pagedir_ok s pd" "is_user_vaddr v" "pte_of s pd v = Some e" "cr3 s < PHYS_BASE"
  shows "(\<exists>s'. pagedir_set_dirty pd v b s = Some s' \<and> pagedir_ok s' pd \<and> pagedir_is_dirty pd v s' = Some b \<and>
      pagedir_is_accessed pd v s' = pagedir_is_accessed pd v s \<and>
      (\<forall>w. is_user_vaddr w \<longrightarrow> pagedir_get_page pd w s' = pagedir_get_page pd w s)) \<and>
    (\<exists>s'. pagedir_set_accessed pd v b s = Some s' \<and> pagedir_ok s' pd \<and> pagedir_is_accessed pd v s' = Some b \<and>
      pagedir_is_dirty pd v s' = pagedir_is_dirty pd v s \<and>
      (\<forall>w. is_user_vaddr w \<longrightarrow> pagedir_get_page pd w s' = pagedir_get_page pd w s))"
proof
  note is_flags = is_flag_pte_of [OF assms(1,2)]
  have D: "PTE_D = PTE_D \<and> PTE_A = PTE_A \<or> PTE_D = PTE_A \<and> PTE_A = PTE_D"
      "PTE_A = PTE_D \<and> PTE_D = PTE_A \<or> PTE_A = PTE_A \<and> PTE_D = PTE_D"
    by simp_all
  obtain pte s1 s2 where w: "lookup_page pd v False s = Some (pte, s)" "pte \<noteq> 0" "load s pte = e" "store pte (with_flag PTE_D b e) s = s1"
      "invalidate_pagedir pd s1 = Some s2" "\<forall>s'\<in>{s1, s2}. pagedir_ok s' pd \<and> pte_of s' pd v = Some (with_flag PTE_D b e) \<and>
        (\<forall>w. is_user_vaddr w \<longrightarrow> pagedir_get_page pd w s' = pagedir_get_page pd w s)"
    using set_flag_ok [OF assms D(1), of b] by blast
  define s' where "s' = (if b then s1 else s2)"
  have "pagedir_set_dirty pd v b s = Some s'"
    using w(1-5) by (auto simp: pagedir_set_dirty_def with_flag_def s'_def)
  moreover have s': "pagedir_ok s' pd" "pte_of s' pd v = Some (with_flag PTE_D b e)"
      "\<forall>w. is_user_vaddr w \<longrightarrow> pagedir_get_page pd w s' = pagedir_get_page pd w s"
    using w(6) by (simp_all add: s'_def)
  ultimately show "\<exists>s'. pagedir_set_dirty pd v b s = Some s' \<and> pagedir_ok s' pd \<and> pagedir_is_dirty pd v s' = Some b \<and>
      pagedir_is_accessed pd v s' = pagedir_is_accessed pd v s \<and>
      (\<forall>w. is_user_vaddr w \<longrightarrow> pagedir_get_page pd w s' = pagedir_get_page pd w s)"
    using is_flags is_flag_pte_of [OF s'(1) assms(2)] assms(3) flag_disjoint [OF D(1), of e] by (simp add: with_flag_def)
  obtain pte s1 s2 where w: "lookup_page pd v False s = Some (pte, s)" "pte \<noteq> 0" "load s pte = e" "store pte (with_flag PTE_A b e) s = s1"
      "invalidate_pagedir pd s1 = Some s2" "\<forall>s'\<in>{s1, s2}. pagedir_ok s' pd \<and> pte_of s' pd v = Some (with_flag PTE_A b e) \<and>
        (\<forall>w. is_user_vaddr w \<longrightarrow> pagedir_get_page pd w s' = pagedir_get_page pd w s)"
    using set_flag_ok [OF assms D(2), of b] by blast
  define s' where "s' = (if b then s1 else s2)"
  have "pagedir_set_accessed pd v b s = Some s'"
    using w(1-5) by (auto simp: pagedir_set_accessed_def with_flag_def s'_def)
  moreover have s': "pagedir_ok s' pd" "pte_of s' pd v = Some (with_flag PTE_A b e)"
      "\<forall>w. is_user_vaddr w \<longrightarrow> pagedir_get_page pd w s' = pagedir_get_page pd w s"
    using w(6) by (simp_all add: s'_def)
  ultimately show "\<exists>s'. pagedir_set_accessed pd v b s = Some s' \<and> pagedir_ok s' pd \<and> pagedir_is_accessed pd v s' = Some b \<and>
      pagedir_is_dirty pd v s' = pagedir_is_dirty pd v s \<and>
      (\<forall>w. is_user_vaddr w \<longrightarrow> pagedir_get_page pd w s' = pagedir_get_page pd w s)"
    using is_flags is_flag_pte_of [OF s'(1) assms(2)] assms(3) flag_disjoint [OF D(2), of e] by (simp add: with_flag_def)
qed

text \<open>A directory in page \<open>c0101\<close> with one table, in page \<open>c0102\<close>, that maps the user page \<open>8048\<close> to \<open>c0105\<close>.\<close>

definition sample_mapped :: mmu where
  "sample_mapped = set_slot 0xc0102 72 0x105007 (set_slot 0xc0101 32 0x102007
     \<lparr>pages = \<lparr>kernel_pool = \<lparr>used_map = \<lparr>bit_cnt = 3, bits = [3]\<rparr>, pool_base = 0xc0101000\<rparr>,
        user_pool = \<lparr>used_map = \<lparr>bit_cnt = 2, bits = [1]\<rparr>, pool_base = 0xc0105000\<rparr>, ram = (\<lambda>_. 0)\<rparr>,
      base_page_dir = 0xc0020000, ram_pages = 1024, cr3 = 0x101000, tlb = [0x8048000 \<mapsto> 0xc0105000]\<rparr>)"

lemma sample_mapped_slot:
  "j < 1024 \<Longrightarrow> slot sample_mapped t j =
    (if t = 0xc0102 \<and> j = 72 then 0x105007 else if t = 0xc0101 \<and> j = 32 then 0x102007 else 0)"
  unfolding sample_mapped_def by (simp add: slot_set_slot) (simp add: slot_def load32_def)

lemma sample_mapped_memory: "memory_ok (pages sample_mapped)" "used_pages (pages sample_mapped) = {0xc0101, 0xc0102, 0xc0105}"
proof -
  show "memory_ok (pages sample_mapped)"
    by (simp add: sample_mapped_def memory_ok_def set_slot_def pool_ok_def pool_start_def pool_size_def bitmap_ok_def elem_cnt_def
        PGSIZE_eq is_kernel_vaddr_def PHYS_BASE_def pg_ofs_take_bit take_bit_eq_mod)
  have b: "bit (3 :: u32) i \<longleftrightarrow> i = 0 \<or> i = 1" if "i < 3" for i
    using that by (auto simp: bit_iff_odd less_Suc_eq numeral_3_eq_3)
  have "used_bits \<lparr>bit_cnt = 3, bits = [3]\<rparr> = {0, 1}"
    using b by (auto simp: used_bits_def nth_bits_of)
  moreover have "used_bits \<lparr>bit_cnt = 2, bits = [1]\<rparr> = {0}"
    by (auto simp: used_bits_def nth_bits_of bit_1_iff)
  ultimately show "used_pages (pages sample_mapped) = {0xc0101, 0xc0102, 0xc0105}"
    by (auto simp: used_pages_def pool_used_def pool_start_def sample_mapped_def set_slot_def PGSIZE_eq)
qed

lemma sample_mapped_entries:
  "pde_get_pt 0x102007 = Some 0xc0102000" "page_no 0xc0102000 = 0xc0102" "pte_get_page 0x105007 = Some 0xc0105000"
  using aligned_intro [of "0xc0102000" "0xc0102"]
  by (simp_all add: pde_get_pt_def pte_get_page_def ptov_def PTE_P_def PTE_ADDR_def PHYS_BASE_def PGSIZE_eq)

lemma sample_mapped_table: "i < 768 \<Longrightarrow> table_page sample_mapped 0xc0101000 i = (if i = 32 then Some 0xc0102 else None)"
  using sample_mapped_entries by (simp add: table_page_def sample_mapped_slot sample_mmu_dir)

lemma sample_mapped_ok: "pagedir_ok sample_mapped 0xc0101000"
proof -
  have "dir_pages sample_mapped 0xc0101000 \<subseteq> {0xc0101, 0xc0102}"
    by (auto simp: dir_pages_def sample_mapped_table sample_mmu_dir split: if_splits)
  moreover have "i = j" if "i < 768" "j < 768" "table_page sample_mapped 0xc0101000 i \<noteq> None"
      "table_page sample_mapped 0xc0101000 i = table_page sample_mapped 0xc0101000 j" for i j
    using that by (auto simp: sample_mapped_table split: if_splits)
  moreover have "\<exists>pt. pde_get_pt (slot sample_mapped (page_no 0xc0101000) i) = Some pt \<and> is_kernel_vaddr pt \<and> page_no pt \<noteq> page_no 0xc0101000"
    if "i < 768" "slot sample_mapped (page_no 0xc0101000) i \<noteq> 0" for i
    using that sample_mapped_entries
    by (auto simp: sample_mapped_slot sample_mmu_dir is_kernel_vaddr_def PHYS_BASE_def split: if_splits)
  ultimately show ?thesis
    using sample_mapped_memory sample_mmu_dir unfolding pagedir_ok_def
    by (auto simp: is_kernel_vaddr_def PHYS_BASE_def)
qed

lemma sample_mapped_pte: "is_user_vaddr 0x8048000" "pte_of sample_mapped 0xc0101000 0x8048000 = Some 0x105007"
    "cr3 sample_mapped < PHYS_BASE" "active_pd sample_mapped = Some 0xc0101000"
proof -
  have "unat (pd_no 0x8048000) = 32" "unat (pt_no 0x8048000) = 72"
    by (simp_all add: unat_pd_no unat_pt_no PGSIZE_eq)
  then show "pte_of sample_mapped 0xc0101000 0x8048000 = Some 0x105007"
    by (simp add: pte_of_def sample_mapped_table sample_mapped_slot)
qed (simp_all add: is_user_vaddr_def PHYS_BASE_def sample_mapped_def set_slot_def active_pd_def ptov_def)

theorem pagedir_clear_page_unmaps_witness:
  "\<exists>s'. pagedir_get_page 0xc0101000 0x8048004 sample_mapped = Some 0xc0105004 \<and>
    pagedir_clear_page 0xc0101000 0x8048000 sample_mapped = Some s' \<and>
    pagedir_get_page 0xc0101000 0x8048004 s' = Some 0 \<and> tlb s' = Map.empty"
proof -
  have m: "mapping_of sample_mapped 0xc0101000 0x8048000 = Some 0x105007"
    using sample_mapped_pte(2) by (simp add: mapping_of_def PTE_P_def)
  have pn: "page_no 0x8048004 = page_no 0x8048000"
    by (simp add: unat_pg_no PGSIZE_eq)
  then have m4: "mapping_of sample_mapped 0xc0101000 0x8048004 = Some 0x105007"
    using m page_idx [OF pn] by (simp add: mapping_of_def pte_of_def)
  have "pagedir_get_page 0xc0101000 0x8048004 sample_mapped = Some 0xc0105004"
    using get_page_mapping [OF sample_mapped_ok user_same_page [OF pn sample_mapped_pte(1)]] m4 sample_mapped_entries(3)
    by (simp add: pg_ofs_take_bit take_bit_eq_mod)
  then show ?thesis
    using pagedir_clear_page_unmaps [OF sample_mapped_ok sample_mapped_pte(1) _ sample_mapped_pte(3)] sample_pages(1) pn m
      sample_mapped_pte(4) by auto
qed

theorem pagedir_flags_round_trip_witness:
  "\<exists>s'. pagedir_set_dirty 0xc0101000 0x8048000 True sample_mapped = Some s' \<and>
    pagedir_is_dirty 0xc0101000 0x8048000 s' = Some True"
  using pagedir_flags_round_trip [OF sample_mapped_ok sample_mapped_pte(1,2,3), of True] by blast

section \<open>Destroying a directory\<close>

text \<open>The frame that entry \<open>k\<close> of the table in page \<open>t\<close> maps. A cell is a table of the directory or an entry of
  one of its tables; \<open>owner\<close> is the page behind a cell.\<close>

definition frame_at :: "mmu \<Rightarrow> nat \<Rightarrow> nat \<Rightarrow> nat option" where
  "frame_at s t k = (if slot s t k AND PTE_P \<noteq> 0 then map_option (\<lambda>p. page_no p) (pte_get_page (slot s t k)) else None)"

definition owner :: "mmu \<Rightarrow> u32 \<Rightarrow> nat \<times> nat option \<Rightarrow> nat option" where
  "owner s pd c = (case table_page s pd (fst c) of None \<Rightarrow> None
     | Some t \<Rightarrow> (case snd c of None \<Rightarrow> Some t | Some k \<Rightarrow> frame_at s t k))"

definition cells :: "nat \<Rightarrow> (nat \<times> nat option) set" where
  "cells i = {i..<768} \<times> ({None} \<union> Some ` {..<1024})"

definition owned_from :: "nat \<Rightarrow> mmu \<Rightarrow> u32 \<Rightarrow> nat set" where
  "owned_from i s pd = {p. \<exists>c\<in>cells i. owner s pd c = Some p}"

text \<open>What the entries from \<open>i\<close> on must satisfy: they can be followed, and each cell owns a page in use of its own.\<close>

definition owns :: "nat \<Rightarrow> mmu \<Rightarrow> u32 \<Rightarrow> bool" where
  "owns i s pd \<longleftrightarrow> memory_ok (pages s) \<and>
     (\<forall>j\<in>{i..<768}. slot s (page_no pd) j AND PTE_P \<noteq> 0 \<longleftrightarrow> table_page s pd j \<noteq> None) \<and>
     (\<forall>j\<in>{i..<768}. \<forall>t. table_page s pd j = Some t \<longrightarrow>
        (\<forall>k<1024. slot s t k AND PTE_P \<noteq> 0 \<longrightarrow> frame_at s t k \<noteq> None)) \<and>
     owned_from i s pd \<subseteq> used_pages (pages s) - {page_no pd} \<and>
     (\<forall>c\<in>cells i. \<forall>d\<in>cells i. owner s pd c \<noteq> None \<longrightarrow> owner s pd c = owner s pd d \<longrightarrow> c = d)"

text \<open>States that agree except in the freed pages \<open>F\<close>.\<close>

definition freed_pages :: "nat set \<Rightarrow> mmu \<Rightarrow> mmu \<Rightarrow> bool" where
  "freed_pages F s s' \<longleftrightarrow> memory_ok (pages s') \<and> used_pages (pages s') = used_pages (pages s) - F \<and> same_slots (- F) s s' \<and>
     base_page_dir s' = base_page_dir s \<and> ram_pages s' = ram_pages s \<and> cr3 s' = cr3 s \<and> tlb s' = tlb s"

lemma freed_pages_refl: "memory_ok (pages s) \<Longrightarrow> freed_pages {} s s"
  by (simp add: freed_pages_def same_slots_def)

lemma freed_pages_trans: "freed_pages F s s1 \<Longrightarrow> freed_pages G s1 s2 \<Longrightarrow> freed_pages (F \<union> G) s s2"
  by (auto simp: freed_pages_def same_slots_def)

lemma free_page_step:
  assumes "memory_ok (pages s)" "pg_ofs page = 0" "page_no page \<in> used_pages (pages s)"
  shows "\<exists>p. palloc_free_page page (pages s) = Some p \<and> freed_pages {page_no page} s (s\<lparr>pages := p\<rparr>)"
proof -
  obtain p where p: "palloc_free_page page (pages s) = Some p" "memory_ok p" "used_pages p = used_pages (pages s) - {page_no page}"
      "ram p = filled (pages_bytes (page_no page) 1) 0xcc (ram (pages s))"
    using palloc_free_page_ok [OF assms] by blast
  have "same_slots (- {page_no page}) s (s\<lparr>pages := p\<rparr>)"
    using slot_filled_other [OF p(4)] by (simp add: same_slots_def)
  then show ?thesis
    using p by (simp add: freed_pages_def)
qed

lemma next_entry:
  assumes "unat (e :: u32) = t * PGSIZE + 4 * i" "Suc i < 1024"
  shows "unat (e + 4) = t * PGSIZE + 4 * Suc i"
proof -
  have "t * PGSIZE < 2 ^ 32"
    using u32_less [of e] assms(1) by simp
  then have "t * PGSIZE + 4096 \<le> 2 ^ 32"
    by (simp add: PGSIZE_eq)
  then have "unat e + 4 < 2 ^ 32"
    using assms by simp
  moreover have "e + 4 = of_nat (unat e + 4)"
    by simp
  ultimately show ?thesis
    using u32_of_nat [of "unat e + 4"] assms(1) by simp
qed

lemma destroy_pt_ok:
  assumes "memory_ok (pages s)" "i + n = 1024" "n > 0 \<Longrightarrow> unat e = t * PGSIZE + 4 * i"
    "\<forall>k\<in>{i..<1024}. slot s t k AND PTE_P \<noteq> 0 \<longrightarrow> frame_at s t k \<noteq> None"
    "\<forall>k\<in>{i..<1024}. \<forall>p. frame_at s t k = Some p \<longrightarrow> p \<in> used_pages (pages s) - {t}"
    "\<forall>k\<in>{i..<1024}. \<forall>l\<in>{i..<1024}. frame_at s t k \<noteq> None \<longrightarrow> frame_at s t k = frame_at s t l \<longrightarrow> k = l"
  shows "\<exists>s'. destroy_pt n e s = Some s' \<and> freed_pages {p. \<exists>k\<in>{i..<1024}. frame_at s t k = Some p} s s'"
  using assms
proof (induction n arbitrary: i e s)
  case 0
  then show ?case
    using freed_pages_refl by simp
next
  case (Suc n)
  have i: "i < 1024" "Suc i + n = 1024"
    using Suc.prems(2) by auto
  have ld: "load s e = slot s t i"
    using Suc.prems(3) by (simp add: load_def slot_def)
  have ne: "unat (e + 4) = t * PGSIZE + 4 * Suc i" if "n > 0"
    using next_entry [of e t i] Suc.prems(3) i that by simp
  define F where "F = {p. frame_at s t i = Some p}"
  have "\<exists>s1. freed_pages F s s1 \<and> destroy_pt (Suc n) e s = destroy_pt n (e + 4) s1"
  proof (cases "slot s t i AND PTE_P = 0")
    case True
    then show ?thesis
      using ld freed_pages_refl [OF Suc.prems(1)] by (auto simp: F_def frame_at_def)
  next
    case False
    then obtain page where page: "pte_get_page (slot s t i) = Some page" "frame_at s t i = Some (page_no page)"
      using Suc.prems(4) i(1) by (auto simp: frame_at_def)
    then have "page_no page \<in> used_pages (pages s)"
      using Suc.prems(5) i(1) by auto
    then show ?thesis
      using free_page_step [OF Suc.prems(1) pte_get_page_aligned [OF page(1)]] page ld False by (auto simp: F_def)
  qed
  then obtain s1 where s1: "freed_pages F s s1" "destroy_pt (Suc n) e s = destroy_pt n (e + 4) s1"
    by blast
  have tF: "t \<notin> F" "F \<subseteq> used_pages (pages s)"
    using Suc.prems(5) i(1) by (auto simp: F_def)
  then have sl: "slot s1 t k = slot s t k" if "k < 1024" for k
    using s1(1) that by (auto simp: freed_pages_def same_slots_def)
  then have fr: "frame_at s1 t k = frame_at s t k" if "k < 1024" for k
    using that by (simp add: frame_at_def)
  have "p \<in> used_pages (pages s1) - {t}" if "k \<in> {Suc i..<1024}" "frame_at s t k = Some p" for k p
  proof -
    have "k = i" if "frame_at s t i = Some p"
      using Suc.prems(6) that \<open>k \<in> {Suc i..<1024}\<close> \<open>frame_at s t k = Some p\<close> i(1) by simp
    then have "p \<notin> F"
      using \<open>k \<in> {Suc i..<1024}\<close> by (auto simp: F_def)
    then show ?thesis
      using Suc.prems(5) that s1(1) by (auto simp: freed_pages_def)
  qed
  then have h5: "\<forall>k\<in>{Suc i..<1024}. \<forall>p. frame_at s1 t k = Some p \<longrightarrow> p \<in> used_pages (pages s1) - {t}"
    using fr by simp
  have h1: "memory_ok (pages s1)"
    using s1(1) by (simp add: freed_pages_def)
  have h4: "\<forall>k\<in>{Suc i..<1024}. slot s1 t k AND PTE_P \<noteq> 0 \<longrightarrow> frame_at s1 t k \<noteq> None"
    using Suc.prems(4) sl fr by simp
  have h6: "\<forall>k\<in>{Suc i..<1024}. \<forall>l\<in>{Suc i..<1024}. frame_at s1 t k \<noteq> None \<longrightarrow> frame_at s1 t k = frame_at s1 t l \<longrightarrow> k = l"
  proof (intro ballI impI)
    fix k l
    assume kl: "k \<in> {Suc i..<1024}" "l \<in> {Suc i..<1024}" "frame_at s1 t k \<noteq> None" "frame_at s1 t k = frame_at s1 t l"
    then have "k \<in> {i..<1024}" "l \<in> {i..<1024}" "frame_at s t k \<noteq> None" "frame_at s t k = frame_at s t l"
      using fr [of k] fr [of l] by auto
    then show "k = l"
      using Suc.prems(6) by blast
  qed
  obtain s2 where s2: "destroy_pt n (e + 4) s1 = Some s2"
      "freed_pages {p. \<exists>k\<in>{Suc i..<1024}. frame_at s1 t k = Some p} s1 s2"
    using Suc.IH [OF h1 i(2) ne h4 h5 h6] by blast
  have "F \<union> {p. \<exists>k\<in>{Suc i..<1024}. frame_at s1 t k = Some p} = {p. \<exists>k\<in>{i..<1024}. frame_at s t k = Some p}"
  proof -
    have "{i..<1024} = insert i {Suc i..<1024}"
      using i(1) by auto
    then show ?thesis
      using fr by (auto simp: F_def)
  qed
  then show ?case
    using freed_pages_trans [OF s1(1) s2(2)] s1(2) s2(1) by simp
qed

lemma cells_Suc: "i < 768 \<Longrightarrow> cells i = Pair i ` ({None} \<union> Some ` {..<1024}) \<union> cells (Suc i)"
  by (auto simp: cells_def)

lemma owner_table: "table_page s pd i = Some t \<Longrightarrow> owner s pd (i, None) = Some t"
    "table_page s pd i = Some t \<Longrightarrow> owner s pd (i, Some k) = frame_at s t k"
    "table_page s pd i = None \<Longrightarrow> owner s pd (i, c) = None"
  by (simp_all add: owner_def)

text \<open>What freeing pages that the remaining cells do not own leaves of them.\<close>

lemma owns_freed:
  assumes "owns i s pd" "i < 768" "freed_pages F s s'" "page_no pd \<notin> F" "F \<inter> owned_from (Suc i) s pd = {}"
  shows "owns (Suc i) s' pd" "owned_from (Suc i) s' pd = owned_from (Suc i) s pd"
proof -
  have sd: "slot s' (page_no pd) j = slot s (page_no pd) j" if "j < 1024" for j
    using assms(3,4) that by (simp add: freed_pages_def same_slots_def)
  then have tp: "table_page s' pd j = table_page s pd j" if "j < 1024" for j
    using that by (simp add: table_page_def)
  have st: "slot s' t k = slot s t k" if "j \<in> {Suc i..<768}" "table_page s pd j = Some t" "k < 1024" for j t k
  proof -
    have "t \<in> owned_from (Suc i) s pd"
      using that owner_table(1) [OF that(2)] by (force simp: owned_from_def cells_def)
    then show ?thesis
      using assms(3,5) that(3) by (auto simp: freed_pages_def same_slots_def)
  qed
  then have fr: "frame_at s' t k = frame_at s t k" if "j \<in> {Suc i..<768}" "table_page s pd j = Some t" "k < 1024" for j t k
    using that by (simp add: frame_at_def)
  have ow: "owner s' pd c = owner s pd c" if c: "c \<in> cells (Suc i)" for c
  proof -
    obtain j x where c: "c = (j, x)" "j \<in> {Suc i..<768}" "x = None \<or> (\<exists>k<1024. x = Some k)"
      using c by (auto simp: cells_def)
    then show ?thesis
      using tp [of j] fr by (cases "table_page s pd j") (auto simp: owner_def)
  qed
  then show of: "owned_from (Suc i) s' pd = owned_from (Suc i) s pd"
    by (auto simp: owned_from_def)
  have "cells (Suc i) \<subseteq> cells i"
    by (auto simp: cells_def)
  then have "owned_from (Suc i) s pd \<subseteq> owned_from i s pd"
    unfolding owned_from_def by blast
  then have "owned_from (Suc i) s pd \<subseteq> used_pages (pages s') - {page_no pd}"
    using assms(1,3,5) by (auto simp: owns_def freed_pages_def)
  moreover have "c = d" if "c \<in> cells (Suc i)" "d \<in> cells (Suc i)" "owner s' pd c \<noteq> None" "owner s' pd c = owner s' pd d" for c d
  proof -
    have "c \<in> cells i" "d \<in> cells i"
      using that(1,2) cells_Suc [OF assms(2)] by auto
    moreover have "owner s pd c \<noteq> None" "owner s pd c = owner s pd d"
      using that ow by auto
    ultimately show ?thesis
      using assms(1) unfolding owns_def by blast
  qed
  moreover have "slot s' (page_no pd) j AND PTE_P \<noteq> 0 \<longleftrightarrow> table_page s' pd j \<noteq> None" if "j \<in> {Suc i..<768}" for j
    using assms(1) that sd [of j] tp [of j] by (simp add: owns_def)
  moreover have "frame_at s' t k \<noteq> None" if "j \<in> {Suc i..<768}" "table_page s' pd j = Some t" "k < 1024" "slot s' t k AND PTE_P \<noteq> 0" for j t k
  proof -
    have a: "j \<in> {i..<768}" "table_page s pd j = Some t"
      using that(1,2) tp [of j] by auto
    moreover have "slot s t k AND PTE_P \<noteq> 0"
      using that(4) st [OF that(1) a(2) that(3)] by simp
    ultimately have "frame_at s t k \<noteq> None"
      using assms(1) that(3) unfolding owns_def by blast
    then show ?thesis
      using fr [OF that(1) a(2) that(3)] by simp
  qed
  moreover have "memory_ok (pages s')"
    using assms(3) by (simp add: freed_pages_def)
  ultimately show "owns (Suc i) s' pd"
    unfolding owns_def of by (intro conjI ballI allI impI) assumption+
qed

definition owned_at :: "nat \<Rightarrow> mmu \<Rightarrow> u32 \<Rightarrow> nat set" where
  "owned_at i s pd = {p. \<exists>c\<in>Pair i ` ({None} \<union> Some ` {..<1024}). owner s pd c = Some p}"

lemma owned_from_Suc: "i < 768 \<Longrightarrow> owned_from i s pd = owned_at i s pd \<union> owned_from (Suc i) s pd"
  unfolding owned_from_def owned_at_def cells_Suc by blast

lemma owned_at_disjoint:
  assumes "owns i s pd" "i < 768"
  shows "page_no pd \<notin> owned_at i s pd" "owned_at i s pd \<inter> owned_from (Suc i) s pd = {}" "owned_at i s pd \<subseteq> used_pages (pages s)"
proof -
  show "page_no pd \<notin> owned_at i s pd" "owned_at i s pd \<subseteq> used_pages (pages s)"
    using assms owned_from_Suc [OF assms(2)] by (auto simp: owns_def)
  show "owned_at i s pd \<inter> owned_from (Suc i) s pd = {}"
  proof (rule ccontr)
    assume "\<not> ?thesis"
    then obtain p c d where "c \<in> Pair i ` ({None} \<union> Some ` {..<1024})" "d \<in> cells (Suc i)" "owner s pd c = Some p" "owner s pd d = Some p"
      unfolding owned_at_def owned_from_def by blast
    moreover from this have "c = d"
      using assms(1) cells_Suc [OF assms(2)] unfolding owns_def by (metis UnI1 UnI2 option.distinct(1))
    ultimately show False
      by (auto simp: cells_def)
  qed
qed

lemma destroy_table_ok:
  assumes "owns i s pd" "i < 768" "table_page s pd i = Some t" "pde_get_pt (slot s (page_no pd) i) = Some pt" "page_no pt = t"
  shows "\<exists>s1 p. destroy_pt (PGSIZE div 4) pt s = Some s1 \<and> palloc_free_page pt (pages s1) = Some p \<and>
    freed_pages (owned_at i s pd) s (s1\<lparr>pages := p\<rparr>)"
proof -
  note al = pde_get_pt_aligned [OF assms(4)]
  have cell: "(i, None) \<in> cells i" "(i, Some k) \<in> cells i" if "k < 1024" for k
    using assms(2) that by (auto simp: cells_def)
  have inj: "c = d" if "c \<in> cells i" "d \<in> cells i" "owner s pd c = Some p" "owner s pd d = Some p" for c d p
    using assms(1) that unfolding owns_def by (metis option.distinct(1))
  note ot = owner_table(1,2) [OF assms(3)]
  define Ft where "Ft = {p. \<exists>k\<in>{0..<1024}. frame_at s t k = Some p}"
  have oa: "owned_at i s pd = Ft \<union> {t}"
    using ot by (auto simp: owned_at_def Ft_def)
  have tF: "t \<notin> Ft"
  proof
    assume "t \<in> Ft"
    then obtain k where "k < 1024" "frame_at s t k = Some t"
      by (auto simp: Ft_def)
    then show False
      using inj [of "(i, None)" "(i, Some k)" t] cell [of k] ot by simp
  qed
  have m: "memory_ok (pages s)"
    using assms(1) by (simp add: owns_def)
  have "\<exists>s1. destroy_pt 1024 pt s = Some s1 \<and> freed_pages Ft s s1"
    unfolding Ft_def
  proof (rule destroy_pt_ok [OF m])
    show "unat pt = t * PGSIZE + 4 * 0"
      using aligned_unat [OF al] assms(5) by simp
    have "\<forall>j\<in>{i..<768}. \<forall>t. table_page s pd j = Some t \<longrightarrow> (\<forall>k<1024. slot s t k AND PTE_P \<noteq> 0 \<longrightarrow> frame_at s t k \<noteq> None)"
      using assms(1) unfolding owns_def by blast
    then show "\<forall>k\<in>{0..<1024}. slot s t k AND PTE_P \<noteq> 0 \<longrightarrow> frame_at s t k \<noteq> None"
      using assms(2,3) by (metis atLeastLessThan_iff order_refl)
    show "\<forall>k\<in>{0..<1024}. \<forall>p. frame_at s t k = Some p \<longrightarrow> p \<in> used_pages (pages s) - {t}"
      using owned_at_disjoint(3) [OF assms(1,2)] oa tF unfolding Ft_def by blast
    show "\<forall>k\<in>{0..<1024}. \<forall>l\<in>{0..<1024}. frame_at s t k \<noteq> None \<longrightarrow> frame_at s t k = frame_at s t l \<longrightarrow> k = l"
    proof (intro ballI impI)
      fix k l
      assume kl: "k \<in> {0..<1024}" "l \<in> {0..<1024}" "frame_at s t k \<noteq> None" "frame_at s t k = frame_at s t l"
      then show "k = l"
        using inj [of "(i, Some k)" "(i, Some l)"] cell(2) [of k] cell(2) [of l] ot(2) by auto
    qed
  qed simp
  then obtain s1 where s1: "destroy_pt 1024 pt s = Some s1" "freed_pages Ft s s1"
    by blast
  have "memory_ok (pages s1)" "page_no pt \<in> used_pages (pages s1)"
    using s1(2) tF owned_at_disjoint(3) [OF assms(1,2)] oa assms(5) by (auto simp: freed_pages_def)
  then obtain p where p: "palloc_free_page pt (pages s1) = Some p" "freed_pages {t} s1 (s1\<lparr>pages := p\<rparr>)"
    using free_page_step [OF _ al] assms(5) by blast
  then show ?thesis
    using s1 freed_pages_trans [OF s1(2) p(2)] oa by (simp add: PGSIZE_eq)
qed

lemma destroy_pd_ok:
  assumes "owns i s pd" "i + n = 768" "n > 0 \<Longrightarrow> unat e = page_no pd * PGSIZE + 4 * i"
  shows "\<exists>s'. destroy_pd n e s = Some s' \<and> freed_pages (owned_from i s pd) s s'"
  using assms
proof (induction n arbitrary: i e s)
  case 0
  then show ?case
    using freed_pages_refl by (auto simp: owns_def owned_from_def cells_def)
next
  case (Suc n)
  have i: "i < 768" "Suc i + n = 768"
    using Suc.prems(2) by auto
  have ld: "load s e = slot s (page_no pd) i"
    using Suc.prems(3) by (simp add: load_def slot_def)
  have ne: "unat (e + 4) = page_no pd * PGSIZE + 4 * Suc i" if "n > 0"
    using next_entry [of e "page_no pd" i] Suc.prems(3) i that by simp
  have P: "slot s (page_no pd) i AND PTE_P \<noteq> 0 \<longleftrightarrow> table_page s pd i \<noteq> None"
    using Suc.prems(1) i(1) by (simp add: owns_def)
  have "\<exists>s1. freed_pages (owned_at i s pd) s s1 \<and> destroy_pd (Suc n) e s = destroy_pd n (e + 4) s1"
  proof (cases "table_page s pd i")
    case None
    then have "owned_at i s pd = {}"
      using owner_table(3) [OF None] by (auto simp: owned_at_def)
    then show ?thesis
      using None P ld freed_pages_refl [of s] Suc.prems(1) by (auto simp: owns_def)
  next
    case (Some t)
    then obtain pt where pt: "pde_get_pt (slot s (page_no pd) i) = Some pt" "page_no pt = t"
      by (auto simp: table_page_iff)
    then show ?thesis
      using destroy_table_ok [OF Suc.prems(1) i(1) Some pt] Some P ld by fastforce
  qed
  then obtain s1 where s1: "freed_pages (owned_at i s pd) s s1" "destroy_pd (Suc n) e s = destroy_pd n (e + 4) s1"
    by blast
  note O = owns_freed [OF Suc.prems(1) i(1) s1(1) owned_at_disjoint(1,2) [OF Suc.prems(1) i(1)]]
  obtain s2 where "destroy_pd n (e + 4) s1 = Some s2" "freed_pages (owned_from (Suc i) s1 pd) s1 s2"
    using Suc.IH [OF O(1) i(2) ne] by blast
  then show ?case
    using freed_pages_trans [OF s1(1)] s1(2) O(2) owned_from_Suc [OF i(1)] by simp
qed

lemma user_entries: "unat (pd_no PHYS_BASE) = 768"
  by (simp add: unat_pd_no PHYS_BASE_def PGSIZE_eq)

text \<open>
  C12: Destroying a page directory whose tables and mapped frames are distinct pages in use returns and frees
  exactly those pages: every table, every frame a present entry maps, and the directory; no page twice, no
  other page, and no byte outside them changes.
\<close>

theorem pagedir_destroy_frees:
  assumes "owns 0 s pd" "pg_ofs pd = 0" "page_no pd \<in> used_pages (pages s)" "pd \<noteq> 0" "pd \<noteq> base_page_dir s"
  shows "\<exists>s'. pagedir_destroy pd s = Some s' \<and> memory_ok (pages s') \<and>
    used_pages (pages s') = used_pages (pages s) - insert (page_no pd) (owned_from 0 s pd) \<and>
    same_slots (- insert (page_no pd) (owned_from 0 s pd)) s s'"
proof -
  obtain s1 where s1: "destroy_pd 768 pd s = Some s1" "freed_pages (owned_from 0 s pd) s s1"
    using destroy_pd_ok [OF assms(1), of 768 pd] aligned_unat [OF assms(2)] by auto
  have "page_no pd \<notin> owned_from 0 s pd"
    using assms(1) by (auto simp: owns_def)
  then have "memory_ok (pages s1)" "page_no pd \<in> used_pages (pages s1)"
    using s1(2) assms(3) by (auto simp: freed_pages_def)
  then obtain p where p: "palloc_free_page pd (pages s1) = Some p" "freed_pages {page_no pd} s1 (s1\<lparr>pages := p\<rparr>)"
    using free_page_step [OF _ assms(2)] by blast
  have "pagedir_destroy pd s = Some (s1\<lparr>pages := p\<rparr>)"
    using s1(1) p(1) assms(4,5) by (simp add: pagedir_destroy_def user_entries)
  then show ?thesis
    using freed_pages_trans [OF s1(2) p(2)] by (auto simp: freed_pages_def)
qed

lemma sample_mapped_frame: "k < 1024 \<Longrightarrow> frame_at sample_mapped 0xc0102 k = (if k = 72 then Some 0xc0105 else None)"
  using sample_pages(2) sample_mapped_entries by (simp add: frame_at_def sample_mapped_slot PTE_P_def)

lemma sample_mapped_owner:
  "c \<in> cells 0 \<Longrightarrow> owner sample_mapped 0xc0101000 c =
    (if c = (32, None) then Some 0xc0102 else if c = (32, Some 72) then Some 0xc0105 else None)"
  by (cases c) (auto simp: cells_def owner_def sample_mapped_table sample_mapped_frame split: if_splits)

theorem pagedir_destroy_frees_witness:
  "\<exists>s'. pagedir_destroy 0xc0101000 sample_mapped = Some s' \<and> used_pages (pages s') = {}"
proof -
  have of: "owned_from 0 sample_mapped 0xc0101000 = {0xc0102, 0xc0105}"
    using sample_mapped_owner by (auto simp: owned_from_def cells_def split: if_splits)
  have tp: "slot sample_mapped (page_no 0xc0101000) j AND PTE_P \<noteq> 0 \<longleftrightarrow> table_page sample_mapped 0xc0101000 j \<noteq> None"
    if "j < 768" for j
    using that sample_mapped_table [OF that] by (simp add: sample_mapped_slot sample_mmu_dir PTE_P_def)
  have "frame_at sample_mapped t k \<noteq> None" if "k < 1024" "slot sample_mapped t k AND PTE_P \<noteq> 0" "t = 0xc0102" for t k
    using that sample_mapped_frame by (simp add: sample_mapped_slot split: if_splits)
  then have "owns 0 sample_mapped 0xc0101000"
    unfolding owns_def of using sample_mapped_memory tp sample_mapped_owner sample_mmu_dir
    by (auto simp: sample_mapped_table split: if_splits)
  then show ?thesis
    using pagedir_destroy_frees [of sample_mapped "0xc0101000"] sample_mapped_memory(2) sample_mmu_dir of
    by (auto simp: sample_mapped_def)
qed

text \<open>
  C27: A new page directory is a page that was free, holds the kernel's mappings, and maps no user page; when
  the kernel pool is exhausted nothing changes and the null pointer is returned.
\<close>

theorem pagedir_create_empty:
  assumes "memory_ok (pages s)" "pg_ofs (base_page_dir s) = 0" "base_page_dir s \<noteq> 0"
    "\<forall>i<768. slot s (page_no (base_page_dir s)) i = 0"
    "page_no (base_page_dir s) \<notin> pool_range (kernel_pool (pages s)) - used_pages (pages s)"
  shows "pagedir_create s = Some (0, s) \<and> pool_range (kernel_pool (pages s)) \<subseteq> used_pages (pages s) \<or>
    (\<exists>pd s'. pagedir_create s = Some (pd, s') \<and> pd \<noteq> 0 \<and> page_no pd \<notin> used_pages (pages s) \<and> pagedir_ok s' pd \<and>
      (\<forall>i<1024. slot s' (page_no pd) i = slot s (page_no (base_page_dir s)) i) \<and>
      (\<forall>v. is_user_vaddr v \<longrightarrow> pagedir_get_page pd v s' = Some 0) \<and>
      same_slots (- {page_no pd}) s s')"
proof -
  let ?b = "page_no (base_page_dir s)"
  have fl: "(0 :: u32) AND PAL_ZERO = 0" "(0 :: u32) AND PAL_ASSERT = 0" "pool_for 0 (pages s) = kernel_pool (pages s)"
    by (simp_all add: pool_for_def)
  consider pd p where "palloc_get_multiple 0 1 (pages s) = Some (pd, p)" "memory_ok p" "pd \<noteq> 0"
      "unat pd = page_no pd * PGSIZE" "is_kernel_vaddr pd" "page_no pd \<in> pool_range (kernel_pool (pages s)) - used_pages (pages s)"
      "used_pages p = insert (page_no pd) (used_pages (pages s))" "ram p = ram (pages s)"
    | "palloc_get_multiple 0 1 (pages s) = Some (0, pages s)" "pool_range (kernel_pool (pages s)) \<subseteq> used_pages (pages s)"
    using palloc_get_multiple_ok [OF assms(1) zero_less_one, of 0] fl by (auto simp: subset_iff)
  then show ?thesis
  proof cases
    case 1
    have al: "pg_ofs pd = 0"
      using aligned_intro [OF 1(4)] by simp
    define m where "m = memcpy_loop (ram p) (unat pd) (unat (base_page_dir s)) PGSIZE"
    define s' where "s' = s\<lparr>pages := p\<lparr>ram := m\<rparr>\<rparr>"
    have "unat pd \<noteq> 0" "unat (base_page_dir s) \<noteq> 0"
      using 1(3) assms(3) by (simp_all add: unat_eq_zero)
    then have cr: "pagedir_create s = Some (pd, s')"
      using 1(1,3) by (simp add: pagedir_create_def palloc_get_page_def memcpy_def m_def s'_def)
    have ub: "unat (base_page_dir s) = ?b * PGSIZE"
      using aligned_unat [OF assms(2)] .
    have "page_no pd \<noteq> ?b"
      using 1(6) assms(5) by auto
    then have "unat pd \<le> unat (base_page_dir s) \<or> unat (base_page_dir s) + PGSIZE \<le> unat pd"
      unfolding 1(4) ub using mult_le_mono1 [of "Suc ?b" "page_no pd" PGSIZE] by (auto simp: PGSIZE_eq)
    then have in_pd: "m (unat pd + a) = ram p (unat (base_page_dir s) + a)" if "a < PGSIZE" for a
      unfolding m_def using memcpy_loop_block that by blast
    have sl: "slot s' (page_no pd) i = slot s ?b i" if "i < 1024" for i
    proof -
      have "load32 m (unat pd + 4 * i) = load32 (ram p) (unat (base_page_dir s) + 4 * i)"
        using in_pd [of "4 * i"] in_pd [of "4 * i + 1"] in_pd [of "4 * i + 2"] in_pd [of "4 * i + 3"] that
        by (simp add: load32_def PGSIZE_eq add.assoc)
      then show ?thesis
        unfolding slot_def s'_def using 1(4,8) ub by simp
    qed
    have ot: "same_slots (- {page_no pd}) s s'"
      unfolding same_slots_def
    proof (intro ballI allI impI)
      fix t i
      assume t: "t \<in> - {page_no pd}" "i < (1024 :: nat)"
      then have "t * PGSIZE + 4096 \<le> page_no pd * PGSIZE \<or> page_no pd * PGSIZE + 4096 \<le> t * PGSIZE"
        using mult_le_mono1 [of "Suc t" "page_no pd" PGSIZE] mult_le_mono1 [of "Suc (page_no pd)" t PGSIZE] by (auto simp: PGSIZE_eq)
      then have "load32 m (t * PGSIZE + 4 * i) = load32 (ram p) (t * PGSIZE + 4 * i)"
        unfolding m_def using t(2) 1(4) by (intro load32_cong memcpy_loop_frame) (auto simp: PGSIZE_eq)
      then show "slot s' t i = slot s t i"
        by (simp add: slot_def s'_def 1(8))
    qed
    have tp: "table_page s' pd i = None" if "i < 768" for i
      using sl [of i] assms(4) that by (simp add: table_page_def)
    then have "dir_pages s' pd = {page_no pd}"
      by (auto simp: dir_pages_def)
    then have ok: "pagedir_ok s' pd"
      using 1(2,5,7) al sl assms(4) tp by (simp add: pagedir_ok_def s'_def)
    have "pagedir_get_page pd v s' = Some 0" if "is_user_vaddr v" for v
      using get_page_mapping [OF ok that] tp [of "unat (pd_no v)"] that by (simp add: mapping_of_def pte_of_def user_pd_no)
    then show ?thesis
      using cr 1(3,6) ok sl ot by blast
  next
    case 2
    then show ?thesis
      by (simp add: pagedir_create_def palloc_get_page_def)
  qed
qed

theorem pagedir_create_empty_witness:
  "\<exists>pd s'. pagedir_create sample_mmu = Some (pd, s') \<and> pd \<noteq> 0 \<and> pagedir_get_page pd 0x8048000 s' = Some 0"
proof -
  have b: "base_page_dir sample_mmu = 0xc0020000" "pg_ofs 0xc0020000 = 0 \<and> page_no 0xc0020000 = 0xc0020"
    using aligned_intro [of "0xc0020000" "0xc0020"] by (simp_all add: sample_mmu_def PGSIZE_eq)
  have k: "pool_range (kernel_pool (pages sample_mmu)) = {0xc0101, 0xc0102, 0xc0103}"
    using sample_memory_used(2) [of 0] by (simp add: sample_mmu_def pool_for_def)
  have u: "used_pages (pages sample_mmu) = {0xc0101}" "memory_ok (pages sample_mmu)"
    using sample_memory_ok sample_memory_used(1) by (simp_all add: sample_mmu_def)
  show ?thesis
    using pagedir_create_empty [of sample_mmu] b k u sample_mapped_pte(1) by (auto simp: sample_mmu_slot)
qed

end
