(* ===== verification/Page.thy ===== *)
theory Page
  imports Hash Pagedir
begin

text \<open>
  The supplemental page table, \<^verbatim>\<open>vm/page.c\<close>: a hash table of the pages a process may use, keyed by the
  user page. Its hash and order functions are shown to meet what the hash table asks of them, so that the
  table is a finite map from user pages to their descriptions.

  An entry is the value of a \<^verbatim>\<open>struct sup_pte\<close>; fields that the code leaves uninitialised come in as arguments.
\<close>

section \<open>Definitions\<close>

record sup_pte =
  sp_file :: addr
  sp_upage :: u32
  sp_read_bytes :: u32
  sp_zero_bytes :: u32
  sp_writable :: bool
  sp_file_ofs :: int
  sp_swapped :: bool
  sp_loaded :: bool
  sp_swap_index :: u32
  sp_mmap_id :: int

definition MAP_FAILED :: int where "MAP_FAILED = - 1"

text \<open>The four bytes of the field \<^verbatim>\<open>upage\<close>; where they lie makes no difference, but not at address 0.\<close>

definition page_hash :: "sup_pte \<Rightarrow> u32" where
  "page_hash e = hash_bytes_loop (store32 (\<lambda>_. 0) 1 (sp_upage e)) 1 4 FNV_32_BASIS"

definition page_less :: "sup_pte \<Rightarrow> sup_pte \<Rightarrow> bool" where
  "page_less a b \<longleftrightarrow> sp_upage a < sp_upage b"

definition page_table_init :: "bool \<Rightarrow> sup_pte hash_table" where
  "page_table_init malloc_ok = snd (hash_init malloc_ok page_hash page_less)"

text \<open>\<open>entry_ok\<close> is whether \<^verbatim>\<open>malloc\<close> finds room for the entry: the result is not tested, so that a failure
  is a write through the null pointer. \<open>malloc_ok\<close> is the answer to the table when it asks for new buckets,
  \<open>swap_index\<close> what the fresh memory holds.\<close>

definition page_insert ::
    "bool \<Rightarrow> bool \<Rightarrow> u32 \<Rightarrow> addr \<Rightarrow> int \<Rightarrow> u32 \<Rightarrow> u32 \<Rightarrow> u32 \<Rightarrow> bool \<Rightarrow> sup_pte hash_table \<Rightarrow>
     (bool \<times> sup_pte hash_table) option" where
  "page_insert entry_ok malloc_ok swap_index file file_ofs upage read_bytes zero_bytes writable table = do {
     ASSERT entry_ok;
     let e = \<lparr>sp_file = file, sp_upage = upage, sp_read_bytes = read_bytes, sp_zero_bytes = zero_bytes,
              sp_writable = writable, sp_file_ofs = file_ofs, sp_swapped = False, sp_loaded = True,
              sp_swap_index = swap_index, sp_mmap_id = MAP_FAILED\<rparr>;
     (old, table) \<leftarrow> hash_insert malloc_ok table e;
     Some (old = None, table) }"

text \<open>\<open>temp\<close> is the temporary entry on the stack before its \<^verbatim>\<open>upage\<close> is set.\<close>

definition get_sup_pte :: "sup_pte \<Rightarrow> sup_pte hash_table \<Rightarrow> u32 \<Rightarrow> sup_pte option option" where
  "get_sup_pte temp table upage = hash_find table (temp\<lparr>sp_upage := upage\<rparr>)"

definition page_remove :: "bool \<Rightarrow> sup_pte \<Rightarrow> sup_pte hash_table \<Rightarrow> u32 \<Rightarrow> (bool \<times> sup_pte hash_table) option" where
  "page_remove malloc_ok temp table upage = do {
     (e, table) \<leftarrow> hash_delete malloc_ok table (temp\<lparr>sp_upage := upage\<rparr>);
     Some (e \<noteq> None, table) }"

section \<open>The table as a map\<close>

interpretation page_key: hash_functions page_less page_hash
  by unfold_locales (auto simp: page_less_def page_hash_def)

lemma page_hash_bytes: "hash_bytes (store32 (\<lambda>_. 0) 1 (sp_upage e)) 1 4 = Some (page_hash e)"
  by (simp add: hash_bytes_def page_hash_def)

definition same_upage :: "sup_pte \<Rightarrow> sup_pte \<Rightarrow> bool" where
  "same_upage x y \<longleftrightarrow> sp_upage x = sp_upage y"

definition page_table_ok :: "sup_pte hash_table \<Rightarrow> bool" where
  "page_table_ok t \<longleftrightarrow> hash_ok t \<and> same_key t = same_upage"

lemma page_order_key: "\<not> page_less x y \<and> \<not> page_less y x \<longleftrightarrow> same_upage x y"
  by (auto simp: page_less_def same_upage_def)

lemma page_table_init_ok: "page_table_ok (page_table_init True)" "members (page_table_init True) = {}"
proof -
  let ?t = "page_table_init True"
  have f: "less_fn ?t = page_less" "hash_fn ?t = page_hash" "contents ?t = []" "h_elem_cnt ?t = 0"
    by (simp_all add: page_table_init_def hash_init_def hash_clear_def contents_def Let_def)
  have "hash_shape ?t"
    by (auto simp: hash_shape_def page_table_init_def hash_init_def hash_clear_def Let_def intro!: exI [of _ 2])
  then have "hash_ok ?t"
    using f page_key.hash_functions_axioms by (simp add: hash_ok_def members_def)
  then show "page_table_ok ?t"
    by (simp add: page_table_ok_def same_key_def f(1) page_order_key fun_eq_iff)
  show "members ?t = {}"
    by (simp add: members_def f(3))
qed

text \<open>What a lookup finds does not depend on the rest of the temporary entry.\<close>

lemma get_sup_pte_spec:
  assumes "page_table_ok t"
  shows "\<exists>r. get_sup_pte temp t u = Some r \<and>
    (case r of Some e \<Rightarrow> e \<in> members t \<and> sp_upage e = u | None \<Rightarrow> \<forall>e\<in>members t. sp_upage e \<noteq> u)"
  using hash_find_ok [of t "temp\<lparr>sp_upage := u\<rparr>"] assms
  by (auto simp: page_table_ok_def get_sup_pte_def same_upage_def split: option.splits)

lemma get_sup_pte_iff:
  assumes "page_table_ok t"
  shows "get_sup_pte temp t u = Some (Some e) \<longleftrightarrow> e \<in> members t \<and> sp_upage e = u"
    "get_sup_pte temp t u = Some None \<longleftrightarrow> (\<forall>e\<in>members t. sp_upage e \<noteq> u)"
proof -
  have uniq: "x = y" if "x \<in> members t" "y \<in> members t" "sp_upage x = sp_upage y" for x y
    using assms that by (auto simp: page_table_ok_def hash_ok_def same_upage_def)
  obtain r where "get_sup_pte temp t u = Some r"
      "case r of Some e \<Rightarrow> e \<in> members t \<and> sp_upage e = u | None \<Rightarrow> \<forall>e\<in>members t. sp_upage e \<noteq> u"
    using get_sup_pte_spec [OF assms, of temp u] by blast
  then show "get_sup_pte temp t u = Some (Some e) \<longleftrightarrow> e \<in> members t \<and> sp_upage e = u"
      "get_sup_pte temp t u = Some None \<longleftrightarrow> (\<forall>e\<in>members t. sp_upage e \<noteq> u)"
    using uniq by (cases r; auto)+
qed

text \<open>Lookups agree where the tables have the same entries for the page.\<close>

lemma get_sup_pte_cong:
  assumes "page_table_ok t" "page_table_ok t'" "\<And>e. sp_upage e = u \<Longrightarrow> e \<in> members t' \<longleftrightarrow> e \<in> members t"
  shows "get_sup_pte temp t' u = get_sup_pte temp t u"
proof -
  obtain r where r: "get_sup_pte temp t u = Some r"
    using get_sup_pte_spec [OF assms(1)] by blast
  show ?thesis
  proof (cases r)
    case None
    then show ?thesis
      using r get_sup_pte_iff(2) [OF assms(1)] get_sup_pte_iff(2) [OF assms(2)] assms(3) by metis
  next
    case (Some e)
    then show ?thesis
      using r get_sup_pte_iff(1) [OF assms(1)] get_sup_pte_iff(1) [OF assms(2)] assms(3) by metis
  qed
qed

lemma hash_insert_page:
  assumes "page_table_ok t" "card (members t) + 1 < SIZE_MOD"
  shows "\<exists>old t'. hash_insert malloc_ok t e = Some (old, t') \<and> page_table_ok t' \<and>
    (old = None \<longleftrightarrow> get_sup_pte temp t (sp_upage e) = Some None) \<and>
    (\<forall>u. get_sup_pte temp t' u = (if u = sp_upage e \<and> old = None then Some (Some e) else get_sup_pte temp t u))"
proof -
  have h: "hash_ok t" "same_key t = same_upage"
    using assms(1) by (simp_all add: page_table_ok_def)
  obtain old t' where o: "hash_insert malloc_ok t e = Some (old, t')" "page_table_ok t'"
      "case old of Some x \<Rightarrow> x \<in> members t \<and> same_upage e x \<and> members t' = members t
       | None \<Rightarrow> (\<forall>x\<in>members t. \<not> same_upage e x) \<and> members t' = insert e (members t)"
    using hash_insert_ok [OF h(1) assms(2), of malloc_ok e] unfolding page_table_ok_def h(2) by blast
  have "old = None \<longleftrightarrow> get_sup_pte temp t (sp_upage e) = Some None"
    using o(3) get_sup_pte_iff(2) [OF assms(1)] by (cases old) (auto simp: same_upage_def)
  moreover have "get_sup_pte temp t' u = (if u = sp_upage e \<and> old = None then Some (Some e) else get_sup_pte temp t u)" for u
  proof (cases "u = sp_upage e \<and> old = None")
    case True
    then show ?thesis
      using o(3) get_sup_pte_iff(1) [OF o(2)] by simp
  next
    case False
    then show ?thesis
      using o(3) get_sup_pte_cong [OF assms(1) o(2), of u temp] by (cases old) auto
  qed
  ultimately show ?thesis
    using o by blast
qed

lemma hash_delete_page:
  assumes "page_table_ok t"
  shows "\<exists>r t'. hash_delete malloc_ok t (temp\<lparr>sp_upage := u\<rparr>) = Some (r, t') \<and> page_table_ok t' \<and>
    (r = None \<longleftrightarrow> get_sup_pte temp t u = Some None) \<and>
    (\<forall>v. get_sup_pte temp t' v = (if v = u then Some None else get_sup_pte temp t v))"
proof -
  have inv: "hash_ok t \<and> same_key t = same_upage"
    using assms by (simp add: page_table_ok_def)
  obtain r t' where r: "hash_find t (temp\<lparr>sp_upage := u\<rparr>) = Some r" "hash_delete malloc_ok t (temp\<lparr>sp_upage := u\<rparr>) = Some (r, t')"
      "hash_ok t' \<and> same_key t' = same_upage"
      "\<forall>k. hash_find t' k = (if same_upage k (temp\<lparr>sp_upage := u\<rparr>) then Some None else hash_find t k)"
    using hash_set.look_after_del [OF inv] by blast
  then show ?thesis
    by (simp add: page_table_ok_def get_sup_pte_def same_upage_def)
qed

section \<open>Property\<close>

text \<open>
  C18: The supplemental page table is a finite map from user pages. It starts empty. Inserting a page succeeds
  exactly when the page is absent, and then a lookup of it gives an entry with the inserted values, loaded, not
  swapped and not memory-mapped. Removing a page tells whether it was there and leaves it absent. Neither
  changes the lookup of any other page, and inserting a page that is present changes nothing.
\<close>

theorem page_table_map:
  assumes "page_table_ok t" "card (members t) + 1 < SIZE_MOD"
  shows "(\<exists>new t'. page_insert True malloc_ok sw file ofs upage rb zb w t = Some (new, t') \<and> page_table_ok t' \<and>
      (new \<longleftrightarrow> get_sup_pte temp t upage = Some None) \<and>
      (\<forall>u. get_sup_pte temp t' u = (if u = upage \<and> new
         then Some (Some \<lparr>sp_file = file, sp_upage = upage, sp_read_bytes = rb, sp_zero_bytes = zb, sp_writable = w, sp_file_ofs = ofs,
           sp_swapped = False, sp_loaded = True, sp_swap_index = sw, sp_mmap_id = MAP_FAILED\<rparr>) else get_sup_pte temp t u))) \<and>
    (\<exists>found t'. page_remove malloc_ok temp t upage = Some (found, t') \<and> page_table_ok t' \<and>
      (found \<longleftrightarrow> get_sup_pte temp t upage \<noteq> Some None) \<and>
      (\<forall>u. get_sup_pte temp t' u = (if u = upage then Some None else get_sup_pte temp t u))) \<and>
    page_table_ok (page_table_init True) \<and> get_sup_pte temp (page_table_init True) upage = Some None"
proof (intro conjI page_table_init_ok(1))
  show "get_sup_pte temp (page_table_init True) upage = Some None"
    by (simp add: get_sup_pte_iff(2) [OF page_table_init_ok(1)] page_table_init_ok(2))
  define e where "e = \<lparr>sp_file = file, sp_upage = upage, sp_read_bytes = rb, sp_zero_bytes = zb, sp_writable = w, sp_file_ofs = ofs,
    sp_swapped = False, sp_loaded = True, sp_swap_index = sw, sp_mmap_id = MAP_FAILED\<rparr>"
  obtain old t' where o: "hash_insert malloc_ok t e = Some (old, t')" "page_table_ok t'"
      "old = None \<longleftrightarrow> get_sup_pte temp t (sp_upage e) = Some None"
      "\<forall>u. get_sup_pte temp t' u = (if u = sp_upage e \<and> old = None then Some (Some e) else get_sup_pte temp t u)"
    using hash_insert_page [OF assms] by blast
  have "sp_upage e = upage"
    by (simp add: e_def)
  moreover have "page_insert True malloc_ok sw file ofs upage rb zb w t = Some (old = None, t')"
    using o(1) by (simp add: page_insert_def e_def)
  ultimately show "\<exists>new t'. page_insert True malloc_ok sw file ofs upage rb zb w t = Some (new, t') \<and> page_table_ok t' \<and>
      (new \<longleftrightarrow> get_sup_pte temp t upage = Some None) \<and>
      (\<forall>u. get_sup_pte temp t' u = (if u = upage \<and> new
         then Some (Some \<lparr>sp_file = file, sp_upage = upage, sp_read_bytes = rb, sp_zero_bytes = zb, sp_writable = w, sp_file_ofs = ofs,
           sp_swapped = False, sp_loaded = True, sp_swap_index = sw, sp_mmap_id = MAP_FAILED\<rparr>) else get_sup_pte temp t u))"
    using o(2-4) unfolding e_def [symmetric] by blast
  obtain r t' where "hash_delete malloc_ok t (temp\<lparr>sp_upage := upage\<rparr>) = Some (r, t')" "page_table_ok t'"
      "r = None \<longleftrightarrow> get_sup_pte temp t upage = Some None"
      "\<forall>v. get_sup_pte temp t' v = (if v = upage then Some None else get_sup_pte temp t v)"
    using hash_delete_page [OF assms(1)] by blast
  then show "\<exists>found t'. page_remove malloc_ok temp t upage = Some (found, t') \<and> page_table_ok t' \<and>
      (found \<longleftrightarrow> get_sup_pte temp t upage \<noteq> Some None) \<and>
      (\<forall>u. get_sup_pte temp t' u = (if u = upage then Some None else get_sup_pte temp t u))"
    by (auto simp: page_remove_def)
qed

definition no_page :: sup_pte where
  "no_page = \<lparr>sp_file = 0, sp_upage = 0, sp_read_bytes = 0, sp_zero_bytes = 0, sp_writable = False, sp_file_ofs = 0,
     sp_swapped = False, sp_loaded = False, sp_swap_index = 0, sp_mmap_id = 0\<rparr>"

theorem page_table_map_witness:
  "\<exists>t' e. page_insert True True 0 7 0 0x8048000 4096 0 False (page_table_init True) = Some (True, t') \<and>
    get_sup_pte no_page t' 0x8048000 = Some (Some e) \<and> sp_file e = 7 \<and> get_sup_pte no_page t' 0x8049000 = Some None"
proof -
  have "card (members (page_table_init True)) + 1 < SIZE_MOD"
    by (simp add: page_table_init_ok(2))
  note P = page_table_map [OF page_table_init_ok(1) this, of True 0 7 0 "0x8048000" 4096 0 False no_page]
  then obtain new t' where t': "page_insert True True 0 7 0 0x8048000 4096 0 False (page_table_init True) = Some (new, t')"
      "new \<longleftrightarrow> get_sup_pte no_page (page_table_init True) 0x8048000 = Some None"
      "\<forall>u. get_sup_pte no_page t' u = (if u = 0x8048000 \<and> new
         then Some (Some \<lparr>sp_file = 7, sp_upage = 0x8048000, sp_read_bytes = 4096, sp_zero_bytes = 0, sp_writable = False, sp_file_ofs = 0,
           sp_swapped = False, sp_loaded = True, sp_swap_index = 0, sp_mmap_id = MAP_FAILED\<rparr>)
         else get_sup_pte no_page (page_table_init True) u)"
    by blast
  have empty: "get_sup_pte no_page (page_table_init True) u = Some None" for u
    by (simp add: get_sup_pte_iff(2) [OF page_table_init_ok(1)] page_table_init_ok(2))
  show ?thesis
    using t' by (simp add: empty)
qed

end
