(* ===== verification/Spec2Isabelle.thy ===== *)
theory Spec2Isabelle
  imports List_Sort Bitmap Arithmetic Kstring Stdlib Hash Intq Krandom Kernel_Safety Swap Page
begin

text \<open>
  Verification of the Pintos kernel of the repository. File names are relative to
  \<^verbatim>\<open>src/pintos/src\<close>.

  \<^bold>\<open>The program.\<close> A small 80x86 kernel. Its base is a library without the standard C library: linked lists,
  bitmaps, hash tables, strings, sorting, 64-bit division, random numbers. On it stand threads with priority
  scheduling and donation, semaphores, locks and condition variables, a timer that puts threads to sleep,
  the page allocator, page directories, the disk driver, the swap area and the supplemental page table;
  on those a file system, system calls and the loading of user processes.

  \<^bold>\<open>The theories.\<close>
  \<^item> \<^verbatim>\<open>Prelude\<close>: machine integers, the panic monad with \<^verbatim>\<open>ASSERT\<close>, the rounding macros of \<^verbatim>\<open>lib/round.h\<close>, and the
    contracts \<open>strict_weak_order\<close> and \<open>fifo\<close>.
  \<^item> \<^verbatim>\<open>Kernel_List\<close>, \<^verbatim>\<open>List_Sort\<close>: \<^verbatim>\<open>lib/kernel/list.c\<close> on a store of \<^verbatim>\<open>prev\<close> and \<^verbatim>\<open>next\<close> pointers. The operations act on
    the sequence of elements as they should; \<^verbatim>\<open>list_sort\<close> returns a stable sorted permutation.
  \<^item> \<^verbatim>\<open>Bitmap\<close>: \<^verbatim>\<open>lib/kernel/bitmap.c\<close> on 32-bit elements. It refines a list of bits, and scanning is a first-fit
    allocator of ranges (\<open>range_allocator\<close>).
  \<^item> \<^verbatim>\<open>Hash\<close>: \<^verbatim>\<open>lib/kernel/hash.c\<close>. Every operation keeps the invariant whether or not allocation succeeds, and
    the table is a finite map (\<open>keyed_table\<close>) when its functions fit together (\<open>hash_functions\<close>).
  \<^item> \<^verbatim>\<open>Kstring\<close>, \<^verbatim>\<open>Stdlib\<close>: \<^verbatim>\<open>lib/string.c\<close>, \<^verbatim>\<open>lib/ctype.h\<close> and \<^verbatim>\<open>lib/stdlib.c\<close> on a memory of bytes, with the results and
    the bytes written of each function.
  \<^item> \<^verbatim>\<open>Arithmetic\<close>, \<^verbatim>\<open>Krandom\<close>, \<^verbatim>\<open>Intq\<close>, \<^verbatim>\<open>Vaddr\<close>: \<^verbatim>\<open>lib/arithmetic.c\<close>, \<^verbatim>\<open>lib/random.c\<close>, \<^verbatim>\<open>devices/intq.c\<close>, and
    \<^verbatim>\<open>threads/vaddr.h\<close> with \<^verbatim>\<open>threads/pte.h\<close>.
  \<^item> \<^verbatim>\<open>Threads\<close>, \<^verbatim>\<open>Synch\<close>, \<^verbatim>\<open>Timer\<close>, \<^verbatim>\<open>Kernel_Run\<close>, \<^verbatim>\<open>Kernel_Safety\<close>: \<^verbatim>\<open>threads/thread.c\<close>, \<^verbatim>\<open>threads/synch.c\<close>,
    \<^verbatim>\<open>devices/timer.c\<close> and the parts of \<^verbatim>\<open>threads/interrupt.c\<close>, \<^verbatim>\<open>userprog/process.c\<close> and \<^verbatim>\<open>userprog/tss.c\<close> they call. The
    state \<^typ>\<open>kernel\<close> holds threads, lists, semaphores and locks; a call that can switch threads leaves the rest
    of its body as frames on the stack of its thread. \<open>kstep\<close> lets the running thread call any operation and the timer
    interrupt it where interrupts are on. Invariants of the reachable states give mutual exclusion and
    the place of every thread.
  \<^item> \<^verbatim>\<open>Palloc\<close>, \<^verbatim>\<open>Pagedir\<close>: \<^verbatim>\<open>threads/palloc.c\<close> and \<^verbatim>\<open>userprog/pagedir.c\<close>. Pages are handed out once (\<open>page_source\<close>); the
    tables are bytes of memory, and each operation changes the translation of the page it names only.
  \<^item> \<^verbatim>\<open>Disk\<close>, \<^verbatim>\<open>Swap\<close>: \<^verbatim>\<open>devices/disk.c\<close> against the registers of a channel, as a \<open>block_device\<close>, and \<^verbatim>\<open>vm/swap.c\<close> on
    it and on the bitmaps. What is written comes back.
  \<^item> \<^verbatim>\<open>Page\<close>: \<^verbatim>\<open>vm/page.c\<close> on the hash table, whose contract its hash and order functions meet.

  \<^bold>\<open>Conventions.\<close> \<^term>\<open>None\<close> is a failed assertion, a panic, a processor trap or a loop that does not end; a claim that a
  call succeeds is a claim about \<^term>\<open>Some\<close>, which includes that it returns. \<^verbatim>\<open>size_t\<close> is a natural number modulo
  \<^term>\<open>SIZE_MOD\<close> or a 32-bit word. What \<^verbatim>\<open>malloc\<close> and the hardware answer are arguments of the operations. Except
  for the locks that \<^verbatim>\<open>Synch\<close> is about, a lock that a component holds for the whole of its work makes the
  operation one step.

  \<^bold>\<open>Bounds.\<close> The only counter that bounds a loop is that of \<open>donate_loop\<close>, 8 rounds, which is the limit in
  \<^verbatim>\<open>synch.c\<close> itself. Other loops are structural, have a termination proof, or are partial functions
  whose return is proved where it is claimed.

  \<^bold>\<open>Not modelled.\<close> The file system (\<^verbatim>\<open>filesys\<close>), system calls, page faults, the loading and exit of processes
  and the frame table, which depend on it; the block allocator \<^verbatim>\<open>threads/malloc.c\<close>; in modelled files,
  \<^verbatim>\<open>page_table_remove\<close> (writes files back), \<^verbatim>\<open>bitmap_read\<close> and \<^verbatim>\<open>bitmap_write\<close> (file transfer), \<^verbatim>\<open>disk_init\<close>,
  \<^verbatim>\<open>reset_channel\<close> and the waiting loops of the disk driver (hardware timing). Console, keyboard, serial port,
  display, boot code and assembly only move data to and from hardware. Self tests and printing are left out.
\<close>

end
